(* ===== verification/Fiah_Prelude.thy ===== *)
theory Fiah_Prelude
  imports Main "HOL-Library.Word"
begin

text \<open>
  Shared vocabulary of the development: the integer aliases of
  \<^verbatim>\<open>include/fiah/utils/Types.hh\<close>, the undefined behaviours an operation of the
  library can run into (as values of a sum type), arithmetic of power-of-two ring
  indices over 64-bit counters, and reachability of a transition system with the
  interface locale through which every concurrent component proves its invariant.
\<close>

unbundle bit_operations_syntax

section \<open>Integer types (Types.hh)\<close>

type_synonym u8_t = "8 word"
type_synonym u16_t = "16 word"
type_synonym u32_t = "32 word"
type_synonym u64_t = "64 word"
type_synonym sz_t = "64 word"

section \<open>Undefined behaviour as a value\<close>

text \<open>
  An operation of the library that would run into undefined behaviour, fail an
  assertion or abort returns the left injection; everything else is the right one.
\<close>

datatype ub =
    AssertFailed
  | DeadObject      \<comment> \<open>an object is used outside its lifetime\<close>
  | LiveObject      \<comment> \<open>an object is constructed over a live one\<close>
  | OutOfBounds     \<comment> \<open>memory outside every allocation is accessed\<close>
  | NullDeref
  | UseAfterFree
  | DoubleFree
  | Misaligned      \<comment> \<open>an object is constructed in storage without its alignment\<close>
  | SignedOverflow  \<comment> \<open>signed arithmetic leaves its range\<close>
  | Trap            \<comment> \<open>\<^verbatim>\<open>__builtin_trap\<close> or \<^verbatim>\<open>abort\<close>\<close>

type_synonym 'a res = "ub + 'a"

definition bind_res :: "'a res \<Rightarrow> ('a \<Rightarrow> 'b res) \<Rightarrow> 'b res" where
  "bind_res m f = (case m of Inl e \<Rightarrow> Inl e | Inr x \<Rightarrow> f x)"

named_theorems res_simps \<open>evaluation of results\<close>

lemma bind_res_Inl [simp, res_simps]: "bind_res (Inl e) f = Inl e"
  by (simp add: bind_res_def)

lemma bind_res_Inr [simp, res_simps]: "bind_res (Inr x) f = f x"
  by (simp add: bind_res_def)

lemma bind_res_eq_Inr: "bind_res m f = Inr y \<longleftrightarrow> (\<exists>x. m = Inr x \<and> f x = Inr y)"
  by (cases m) auto

lemma bind_res_assoc: "bind_res (bind_res m f) g = bind_res m (\<lambda>x. bind_res (f x) g)"
  by (cases m) auto

lemma bind_res_cong [fundef_cong]:
  "m = m' \<Longrightarrow> (\<And>x. m' = Inr x \<Longrightarrow> f x = f' x) \<Longrightarrow> bind_res m f = bind_res m' f'"
  by (cases m') auto

text \<open>Signed 32-bit subtraction (\<^verbatim>\<open>int\<close>), undefined when the result does not fit.\<close>

definition int32 :: "int \<Rightarrow> bool" where
  "int32 i \<longleftrightarrow> - (2 ^ 31) \<le> i \<and> i < 2 ^ 31"

definition sub32 :: "int \<Rightarrow> int \<Rightarrow> int res" where
  "sub32 a b = (if int32 (a - b) then Inr (a - b) else Inl SignedOverflow)"

section \<open>Decimal numbers\<close>

fun show_nat :: "nat \<Rightarrow> string" where
  "show_nat n = (if n < 10 then [char_of (48 + n)] else show_nat (n div 10) @ [char_of (48 + n mod 10)])"

declare show_nat.simps [simp del]

section \<open>Lists\<close>

lemma nth_map_upt_shift: "i < n - m \<Longrightarrow> map f [m..<n] ! i = f (m + i)"
  by simp

lemma take_Suc_snoc: "n < length xs \<Longrightarrow> take (Suc n) xs = take n xs @ [xs ! n]"
  by (rule take_Suc_conv_app_nth)

lemma map_upt_cong_add: "map f [m..<m + n] = map (\<lambda>i. f (m + i)) [0..<n]"
  by (rule nth_equalityI) auto

section \<open>Power-of-two ring indices\<close>

named_theorems ring_simps \<open>indices of a power-of-two ring\<close>

text \<open>
  The counters of both lock-free queues run freely over 64 bits and are reduced to a
  slot by masking with the capacity minus one.
\<close>

definition ring_idx :: "u64_t \<Rightarrow> u64_t \<Rightarrow> nat" where
  "ring_idx cap i = unat (i AND (cap - 1))"

definition is_pow2 :: "u64_t \<Rightarrow> nat \<Rightarrow> bool" where
  "is_pow2 cap k \<longleftrightarrow> k < 64 \<and> cap = 2 ^ k"

lemma unat_of_nat_u64: "unat (of_nat n :: u64_t) = n mod 2 ^ 64"
  by (simp add: unat_of_nat take_bit_eq_mod)

lemma unat_u64_less: "unat (w :: u64_t) < 2 ^ 64"
  by (rule less_le_trans [OF unsigned_less]) simp

lemma unat_pow2:
  assumes "is_pow2 cap k"
  shows "unat cap = 2 ^ k"
proof -
  have "(2 :: nat) ^ k < 2 ^ 64"
    using assms by (intro power_strict_increasing) (auto simp: is_pow2_def)
  moreover have "cap = of_nat (2 ^ k)"
    using assms by (simp add: is_pow2_def)
  ultimately show ?thesis
    by (simp only: unat_of_nat_u64 mod_less)
qed

lemma pow2_pos: "is_pow2 cap k \<Longrightarrow> 0 < unat cap"
  by (simp add: unat_pow2)

lemma pow2_le:
  assumes "is_pow2 cap k"
  shows "unat cap \<le> 2 ^ 63"
proof -
  have "(2 :: nat) ^ k \<le> 2 ^ 63"
    using assms by (intro power_increasing) (auto simp: is_pow2_def)
  with assms show ?thesis
    by (simp only: unat_pow2)
qed

lemma mask_pow2: "is_pow2 cap k \<Longrightarrow> cap - 1 = mask k"
  by (simp add: is_pow2_def mask_eq_exp_minus_1)

lemma ring_idx_unat:
  assumes "is_pow2 cap k"
  shows "ring_idx cap i = unat i mod unat cap"
proof -
  have "ring_idx cap i = unat (take_bit k i)"
    using assms by (simp add: ring_idx_def mask_pow2 take_bit_eq_mask)
  also have "\<dots> = unat i mod unat cap"
    using assms by (simp only: unsigned_take_bit_eq) (simp add: take_bit_eq_mod unat_pow2)
  finally show ?thesis .
qed

lemma ring_idx_less: "is_pow2 cap k \<Longrightarrow> ring_idx cap i < unat cap"
  by (simp add: ring_idx_unat pow2_pos)

text \<open>Wrapping the counter at 64 bits does not disturb the slot a count is mapped to.\<close>

lemma ring_idx_of_nat [ring_simps]:
  assumes "is_pow2 cap k"
  shows "ring_idx cap (of_nat n) = n mod unat cap"
proof -
  have "(2 :: nat) ^ k dvd 2 ^ 64"
    using assms by (intro le_imp_power_dvd) (simp add: is_pow2_def)
  with assms show ?thesis
    by (simp add: ring_idx_unat unat_of_nat_u64 unat_pow2 mod_mod_cancel)
qed

text \<open>Differences of two counters that are less than a full turn apart are exact.\<close>

lemma unat_count_diff:
  assumes "m \<le> n" "n - m < 2 ^ 64"
  shows "unat (of_nat n - of_nat m :: u64_t) = n - m"
proof -
  have "(of_nat n - of_nat m :: u64_t) = of_nat (n - m)"
    using assms(1) by simp
  with assms(2) show ?thesis
    by (simp only: unat_of_nat_u64 mod_less)
qed

lemma count_eq_iff:
  assumes "m \<le> n" "n - m < 2 ^ 64"
  shows "(of_nat n :: u64_t) = of_nat m \<longleftrightarrow> n = m"
proof
  assume "(of_nat n :: u64_t) = of_nat m"
  then have "unat (of_nat n - of_nat m :: u64_t) = 0" by simp
  with assms show "n = m" by (simp only: unat_count_diff)
qed simp

lemma count_diff_eq_cap:
  assumes "m \<le> n" "n - m < 2 ^ 64"
  shows "(of_nat n - of_nat m :: u64_t) = cap \<longleftrightarrow> n - m = unat cap"
  using unat_count_diff [OF assms] by (metis word_unat_eq_iff)

text \<open>Two counts less than a full ring apart use different slots.\<close>

lemma mod_window_inj:
  assumes "(i :: nat) mod c = j mod c" "i \<le> j" "j - i < c"
  shows "i = j"
proof -
  have "c dvd j - i"
    using assms(1,2) by (metis mod_eq_dvd_iff_nat)
  with assms(3) have "j - i = 0"
    by (metis dvd_imp_le not_less zero_less_iff_neq_zero)
  with assms(2) show ?thesis by simp
qed

lemma mod_window_neq:
  assumes "(lo :: nat) \<le> i" "i < lo + c" "lo \<le> j" "j < lo + c" "i \<noteq> j"
  shows "i mod c \<noteq> j mod c"
proof
  assume eq: "i mod c = j mod c"
  show False
  proof (cases "i \<le> j")
    case True
    with assms have "j - i < c" by linarith
    with mod_window_inj [OF eq True] assms(5) show False by blast
  next
    case False
    then have le: "j \<le> i" by simp
    with assms have "i - j < c" by linarith
    with mod_window_inj [OF eq [symmetric] le] assms(5) show False by simp
  qed
qed

text \<open>Every slot of the ring is the image of exactly one count of a full window.\<close>

lemma mod_window_surj:
  assumes "r < c"
  shows "\<exists>i. lo \<le> i \<and> i < lo + c \<and> i mod c = (r :: nat)"
proof -
  define d where "d = (r + c - lo mod c) mod c"
  have c: "0 < c" using assms by simp
  have "(lo + d) mod c = (lo mod c + (r + c - lo mod c)) mod c"
    by (simp add: d_def mod_simps)
  also have "\<dots> = (r + c) mod c"
    using mod_less_divisor [OF c, of lo] by (simp add: algebra_simps)
  also have "\<dots> = r" using assms by simp
  finally have "(lo + d) mod c = r" .
  moreover have "d < c" using c by (simp add: d_def)
  ultimately show ?thesis by (intro exI [of _ "lo + d"]) simp
qed

section \<open>Which template arguments are powers of two\<close>

lemma nat_and_pred_zero: "0 < m \<Longrightarrow> m AND (m - 1) = (0 :: nat) \<Longrightarrow> \<exists>k. m = 2 ^ k"
proof (induction m rule: less_induct)
  case (less m)
  show ?case
  proof (cases "even m")
    case True
    then obtain a where a: "m = 2 * a" by blast
    with less.prems have pos: "0 < a" by simp
    then have pred: "m - 1 = 2 * (a - 1) + 1" using a by simp
    have "m AND (m - 1) = 2 * (a AND (a - 1))"
      unfolding a pred [unfolded a] by (simp add: and_rec [of "2 * a"])
    with less.prems have "a AND (a - 1) = 0" by simp
    with less.IH [of a] pos a obtain k where "a = 2 ^ k" by auto
    with a have "m = 2 ^ Suc k" by simp
    then show ?thesis by blast
  next
    case False
    then obtain a where a: "m = 2 * a + 1" by (elim oddE)
    have "m AND (m - 1) = 2 * a"
      unfolding a by (simp add: and_rec [of "Suc (2 * a)"])
    with less.prems a have "m = 2 ^ 0" by simp
    then show ?thesis by blast
  qed
qed

section \<open>Transition systems\<close>

text \<open>
  A concurrent component is a predicate for its initial states and a step relation;
  \<open>reach\<close> collects the states some interleaving of steps leads to.
\<close>

inductive reach :: "('s \<Rightarrow> bool) \<Rightarrow> ('s \<Rightarrow> 's \<Rightarrow> bool) \<Rightarrow> 's \<Rightarrow> bool" for init step where
  reach_init: "init s \<Longrightarrow> reach init step s"
| reach_step: "reach init step s \<Longrightarrow> step s t \<Longrightarrow> reach init step t"

locale inductive_invariant =
  fixes init :: "'s \<Rightarrow> bool"
    and step :: "'s \<Rightarrow> 's \<Rightarrow> bool"
    and inv :: "'s \<Rightarrow> bool"
  assumes inv_init: "init s \<Longrightarrow> inv s"
    and inv_step: "inv s \<Longrightarrow> step s t \<Longrightarrow> inv t"
begin

lemma reach_inv: "reach init step s \<Longrightarrow> inv s"
  by (induction rule: reach.induct) (auto intro: inv_init inv_step)

lemma steps_inv: "step\<^sup>*\<^sup>* s t \<Longrightarrow> inv s \<Longrightarrow> inv t"
  by (induction rule: rtranclp_induct) (auto intro: inv_step)

end

lemma reach_steps: "reach init step s \<Longrightarrow> step\<^sup>*\<^sup>* s t \<Longrightarrow> reach init step t"
  by (rotate_tac, induction rule: rtranclp_induct) (auto intro: reach_step)

text \<open>Short runs of a known length, for bounds on the number of steps of a call.\<close>

lemma relpowp_2I: "R a b \<Longrightarrow> R b c \<Longrightarrow> (R ^^ 2) a c"
  by (simp add: numeral_eq_Suc) blast

lemma relpowp_3I: "R a b \<Longrightarrow> R b c \<Longrightarrow> R c d \<Longrightarrow> (R ^^ 3) a d"
  by (simp add: numeral_eq_Suc) blast

lemma relpowp_trans_num:
  "((R :: 'a \<Rightarrow> 'a \<Rightarrow> bool) ^^ m) a b \<Longrightarrow> (R ^^ n) b c \<Longrightarrow> m + n = l \<Longrightarrow> (R ^^ l) a c"
  by (auto simp: relpowp_add)

lemma reach_relpowp: "reach init step s \<Longrightarrow> (step ^^ n) s t \<Longrightarrow> reach init step t"
  by (rule reach_steps) (auto intro: relpowp_imp_rtranclp)

text \<open>
  Runs as lists of states, and the steps of a run that one of two threads makes: those in which the
  other thread, seen through its program counter, does not move.
\<close>

fun is_run :: "('s \<Rightarrow> 's \<Rightarrow> bool) \<Rightarrow> 's list \<Rightarrow> bool" where
  "is_run R [] \<longleftrightarrow> False"
| "is_run R [s] \<longleftrightarrow> True"
| "is_run R (s # t # ss) \<longleftrightarrow> R s t \<and> is_run R (t # ss)"

fun own_steps :: "('s \<Rightarrow> 'o) \<Rightarrow> 's list \<Rightarrow> nat" where
  "own_steps other (s # t # ss) = (if other t = other s then 1 else 0) + own_steps other (t # ss)"
| "own_steps other ss = 0"

text \<open>
  A thread in a call comes nearer to its end with each step of its own, and the steps of the other
  thread do not set it back: then no run makes more steps of the call than its rank.
\<close>

locale bounded_calls =
  fixes step :: "'s \<Rightarrow> 's \<Rightarrow> bool"
    and other :: "'s \<Rightarrow> 'o"
    and in_call :: "'s \<Rightarrow> bool"
    and rank :: "'s \<Rightarrow> nat"
  assumes own_step: "step s t \<Longrightarrow> other t = other s \<Longrightarrow> in_call s \<Longrightarrow> rank t < rank s"
    and other_step: "step s t \<Longrightarrow> other t \<noteq> other s \<Longrightarrow> rank t \<le> rank s"
begin

lemma own_steps_bound:
  "is_run step (s # ss) \<Longrightarrow> list_all in_call (butlast (s # ss)) \<Longrightarrow> own_steps other (s # ss) \<le> rank s"
proof (induction ss arbitrary: s)
  case (Cons t ss)
  then have st: "step s t" "in_call s" "own_steps other (t # ss) \<le> rank t" by simp_all
  show ?case
  proof (cases "other t = other s")
    case True
    with own_step [OF st(1) True st(2)] st(3) show ?thesis by simp
  next
    case False
    with other_step [OF st(1) False] st(3) show ?thesis by simp
  qed
qed simp

end

text \<open>
  A part of a transition system where every state outside a goal has some step that stays in the
  part and makes a rank smaller: from each of its states a run leads to the goal, although
  other runs need not (threads that spin make steps without progress).
\<close>

locale helpful_system =
  fixes step :: "'s \<Rightarrow> 's \<Rightarrow> bool"
    and region :: "'s \<Rightarrow> bool"
    and rank :: "'s \<Rightarrow> nat"
    and goal :: "'s \<Rightarrow> bool"
  assumes helpful_step: "region s \<Longrightarrow> \<not> goal s \<Longrightarrow> \<exists>t. step s t \<and> region t \<and> rank t < rank s"
begin

lemma reaches_goal: "region s \<Longrightarrow> \<exists>n\<le>rank s. \<exists>t. (step ^^ n) s t \<and> region t \<and> goal t"
proof (induction "rank s" arbitrary: s rule: less_induct)
  case less
  show ?case
  proof (cases "goal s")
    case True
    then show ?thesis using less.prems by (intro exI [of _ 0]) auto
  next
    case False
    with helpful_step less.prems obtain u where u: "step s u" "region u" "rank u < rank s" by blast
    from less.hyps [OF u(3,2)] obtain n t where n: "n \<le> rank u" "(step ^^ n) u t" "region t" "goal t" by blast
    have "(step ^^ Suc n) s t" using u(1) n(2) by (rule relpowp_Suc_I2)
    with n u(3) show ?thesis by (intro exI [of _ "Suc n"]) (auto simp del: relpowp.simps)
  qed
qed

end

text \<open>
  When every step does so, each run in the part is finite and ends in the goal.
\<close>

locale terminating_system =
  fixes step :: "'s \<Rightarrow> 's \<Rightarrow> bool"
    and region :: "'s \<Rightarrow> bool"
    and rank :: "'s \<Rightarrow> nat"
    and goal :: "'s \<Rightarrow> bool"
  assumes region_step: "region s \<Longrightarrow> step s t \<Longrightarrow> region t \<and> rank t < rank s"
    and progress: "region s \<Longrightarrow> \<not> goal s \<Longrightarrow> \<exists>t. step s t"
begin

lemma run_bound: "(step ^^ n) s t \<Longrightarrow> region s \<Longrightarrow> region t \<and> n + rank t \<le> rank s"
proof (induction n arbitrary: t)
  case (Suc n)
  then obtain u where u: "(step ^^ n) s u" "step u t" by auto
  with Suc.IH [OF u(1) Suc.prems(2)] region_step [of u t] show ?case by auto
qed simp

end

sublocale terminating_system < helpful_system step region rank goal
  by unfold_locales (use progress region_step in blast)

end
