(* ===== verification/Ring_Buffer.thy ===== *)
theory Ring_Buffer
  imports Fiah_Prelude
begin

text \<open>
  What the two lock-free queues share: raw slots with explicit object lifetimes, the
  relation between a ring of slots and the list of elements it holds, and the contract
  of a bounded first-in first-out queue as a locale, with the lemmas a client of such a
  queue relies on. \<^verbatim>\<open>SPSC_Queue\<close> and \<^verbatim>\<open>MPSC_Queue\<close> interpret the locale on their
  own operations.
\<close>

section \<open>Object lifetimes in raw storage\<close>

text \<open>
  A slot is raw storage (\<open>None\<close>) or holds a live object. \<open>construct_at\<close> starts a
  lifetime, \<open>destroy_at\<close> ends one, \<open>read_at\<close> is the source of a move or a copy. A
  construction over a live object is reported too: the old object's destructor would
  never run.
\<close>

definition construct_at :: "'a option list \<Rightarrow> nat \<Rightarrow> 'a \<Rightarrow> 'a option list res" where
  "construct_at st i x =
     (if i < length st
      then (case st ! i of None \<Rightarrow> Inr (st[i := Some x]) | Some _ \<Rightarrow> Inl LiveObject)
      else Inl OutOfBounds)"

definition read_at :: "'a option list \<Rightarrow> nat \<Rightarrow> 'a res" where
  "read_at st i =
     (if i < length st
      then (case st ! i of None \<Rightarrow> Inl DeadObject | Some x \<Rightarrow> Inr x)
      else Inl OutOfBounds)"

definition destroy_at :: "'a option list \<Rightarrow> nat \<Rightarrow> 'a option list res" where
  "destroy_at st i =
     (if i < length st
      then (case st ! i of None \<Rightarrow> Inl DeadObject | Some _ \<Rightarrow> Inr (st[i := None]))
      else Inl OutOfBounds)"

section \<open>A ring of slots holds a list\<close>

text \<open>
  The ring \<open>st\<close> of \<open>c\<close> slots holds \<open>xs\<close> from count \<open>t\<close> on: element \<open>i\<close> of the list is
  the live object in slot \<open>(t + i) mod c\<close>, every other slot is raw.
\<close>

definition ring_holds :: "nat \<Rightarrow> 'a option list \<Rightarrow> nat \<Rightarrow> 'a list \<Rightarrow> bool" where
  "ring_holds c st t xs \<longleftrightarrow>
     length st = c \<and> length xs \<le> c \<and>
     (\<forall>i<c. st ! ((t + i) mod c) = (if i < length xs then Some (xs ! i) else None))"

lemma ring_holds_length: "ring_holds c st t xs \<Longrightarrow> length st = c"
  by (simp add: ring_holds_def)

lemma ring_holds_bound: "ring_holds c st t xs \<Longrightarrow> length xs \<le> c"
  by (simp add: ring_holds_def)

lemma ring_holds_slot:
  "ring_holds c st t xs \<Longrightarrow> i < c \<Longrightarrow>
   st ! ((t + i) mod c) = (if i < length xs then Some (xs ! i) else None)"
  by (simp add: ring_holds_def)

lemma ring_holds_empty: "ring_holds c (replicate c None) t []"
  by (cases "c = 0") (auto simp: ring_holds_def)

lemma ring_holds_mod: "ring_holds c st (t mod c) xs \<longleftrightarrow> ring_holds c st t xs"
  by (simp add: ring_holds_def mod_add_left_eq)

lemma ring_holds_unique:
  assumes "ring_holds c st t xs" "ring_holds c st t ys"
  shows "xs = ys"
proof -
  have le: "length zs \<le> length ws"
    if "ring_holds c st t zs" "ring_holds c st t ws" for zs ws
  proof (rule ccontr)
    assume "\<not> length zs \<le> length ws"
    then have "length ws < length zs" by simp
    moreover from this that(1) have "length ws < c" by (simp add: ring_holds_def)
    ultimately show False
      using ring_holds_slot [OF that(1), of "length ws"] ring_holds_slot [OF that(2), of "length ws"]
      by simp
  qed
  have len: "length xs = length ys"
    using le [OF assms] le [OF assms(2,1)] by simp
  show ?thesis
  proof (rule nth_equalityI [OF len])
    fix i assume "i < length xs"
    moreover from this assms(1) have "i < c" by (simp add: ring_holds_def)
    ultimately show "xs ! i = ys ! i"
      using ring_holds_slot [OF assms(1), of i] ring_holds_slot [OF assms(2), of i] len by simp
  qed
qed

lemma ring_holds_push:
  assumes "ring_holds c st t xs" "length xs < c"
  shows "ring_holds c (st[(t + length xs) mod c := Some x]) t (xs @ [x])"
  unfolding ring_holds_def
proof (intro conjI allI impI)
  show "length (st[(t + length xs) mod c := Some x]) = c"
    using assms(1) by (simp add: ring_holds_def)
  show "length (xs @ [x]) \<le> c" using assms(2) by simp
  fix i assume i: "i < c"
  have len: "length st = c" using assms(1) by (rule ring_holds_length)
  show "st[(t + length xs) mod c := Some x] ! ((t + i) mod c) =
      (if i < length (xs @ [x]) then Some ((xs @ [x]) ! i) else None)"
  proof (cases "i = length xs")
    case True
    with len i show ?thesis by simp
  next
    case False
    then have "(t + length xs) mod c \<noteq> (t + i) mod c"
      using mod_window_neq [of t "t + length xs" c "t + i"] assms(2) i by simp
    with False ring_holds_slot [OF assms(1) i] show ?thesis
      by (auto simp: nth_append)
  qed
qed

lemma ring_holds_pop:
  assumes "ring_holds c st t (x # xs)"
  shows "ring_holds c (st[t mod c := None]) (Suc t) xs"
  unfolding ring_holds_def
proof (intro conjI allI impI)
  have len: "length st = c" and lx: "length xs < c"
    using assms by (auto simp: ring_holds_def)
  show "length (st[t mod c := None]) = c" using len by simp
  show "length xs \<le> c" using lx by simp
  fix i assume i: "i < c"
  show "st[t mod c := None] ! ((Suc t + i) mod c) = (if i < length xs then Some (xs ! i) else None)"
  proof (cases "Suc i = c")
    case True
    then have "Suc t + i = t + c" by simp
    then have "(Suc t + i) mod c = t mod c" by (simp only: mod_add_self2)
    with True lx len i show ?thesis by simp
  next
    case False
    with i have i': "Suc i < c" by simp
    then have "t mod c \<noteq> (t + Suc i) mod c"
      using mod_window_neq [of t t c "t + Suc i"] by simp
    with ring_holds_slot [OF assms i'] show ?thesis by auto
  qed
qed

lemma ring_holds_front:
  assumes "ring_holds c st t (x # xs)"
  shows "t mod c < length st" "st ! (t mod c) = Some x"
proof -
  have "0 < c" using assms by (auto simp: ring_holds_def)
  with ring_holds_slot [OF assms, of 0] assms show "t mod c < length st" "st ! (t mod c) = Some x"
    by (auto simp: ring_holds_def)
qed

lemma ring_holds_back:
  assumes "ring_holds c st t xs" "length xs < c"
  shows "(t + length xs) mod c < length st" "st ! ((t + length xs) mod c) = None"
  using ring_holds_slot [OF assms(1), of "length xs"] assms by (auto simp: ring_holds_def)

text \<open>The three lifetime operations at the two ends of a ring never fault.\<close>

lemma construct_at_back:
  assumes "ring_holds c st t xs" "length xs < c"
  shows "construct_at st ((t + length xs) mod c) x = Inr (st[(t + length xs) mod c := Some x])"
  using ring_holds_back [OF assms] by (simp add: construct_at_def)

lemma read_at_front: "ring_holds c st t (x # xs) \<Longrightarrow> read_at st (t mod c) = Inr x"
  by (simp add: read_at_def ring_holds_front)

lemma destroy_at_front: "ring_holds c st t (x # xs) \<Longrightarrow> destroy_at st (t mod c) = Inr (st[t mod c := None])"
  by (simp add: destroy_at_def ring_holds_front)

lemmas ring_ends = construct_at_back read_at_front destroy_at_front

section \<open>The contract of a bounded FIFO queue\<close>

datatype 'a queue_op = Enq 'a | Deq

datatype 'a queue_ret = Pushed bool | Popped "'a option"

text \<open>The abstract queue: a list of at most \<open>bound\<close> elements.\<close>

fun fifo_op :: "nat \<Rightarrow> 'a list \<Rightarrow> 'a queue_op \<Rightarrow> 'a queue_ret \<times> 'a list" where
  "fifo_op bound xs (Enq x) =
     (if length xs < bound then (Pushed True, xs @ [x]) else (Pushed False, xs))"
| "fifo_op bound [] Deq = (Popped None, [])"
| "fifo_op bound (x # xs) Deq = (Popped (Some x), xs)"

fun fifo_run :: "nat \<Rightarrow> 'a list \<Rightarrow> 'a queue_op list \<Rightarrow> 'a queue_ret list \<times> 'a list" where
  "fifo_run bound xs [] = ([], xs)"
| "fifo_run bound xs (p # ps) =
     (let (r, ys) = fifo_op bound xs p; (rs, zs) = fifo_run bound ys ps in (r # rs, zs))"

text \<open>A sequence of calls on an implementation, given by its two operations.\<close>

fun queue_run ::
  "('q \<Rightarrow> 'a \<Rightarrow> (bool \<times> 'q) res) \<Rightarrow> ('q \<Rightarrow> ('a option \<times> 'q) res) \<Rightarrow> 'q \<Rightarrow> 'a queue_op list \<Rightarrow>
   ('a queue_ret list \<times> 'q) res" where
  "queue_run push pop q [] = Inr ([], q)"
| "queue_run push pop q (Enq x # ps) =
     bind_res (push q x) (\<lambda>(b, q1).
       bind_res (queue_run push pop q1 ps) (\<lambda>(rs, q2). Inr (Pushed b # rs, q2)))"
| "queue_run push pop q (Deq # ps) =
     bind_res (pop q) (\<lambda>(r, q1).
       bind_res (queue_run push pop q1 ps) (\<lambda>(rs, q2). Inr (Popped r # rs, q2)))"

text \<open>The loop \<^verbatim>\<open>while (q.pop(x))\<close> of a consumer, with the number of rounds it may make.\<close>

fun pop_while :: "('q \<Rightarrow> ('a option \<times> 'q) res) \<Rightarrow> nat \<Rightarrow> 'q \<Rightarrow> ('a list \<times> 'q) option res" where
  "pop_while pop 0 q = Inr None"
| "pop_while pop (Suc n) q =
     bind_res (pop q) (\<lambda>(r, q1).
       case r of
         None \<Rightarrow> Inr (Some ([], q1))
       | Some x \<Rightarrow>
           bind_res (pop_while pop n q1) (\<lambda>out.
             Inr (map_option (\<lambda>(xs, q2). (x # xs, q2)) out)))"

locale bounded_fifo =
  fixes push :: "'q \<Rightarrow> 'a \<Rightarrow> (bool \<times> 'q) res"
    and pop :: "'q \<Rightarrow> ('a option \<times> 'q) res"
    and invar :: "'q \<Rightarrow> bool"
    and contents :: "'q \<Rightarrow> 'a list"
    and bound :: nat
  assumes push_room: "invar q \<Longrightarrow> length (contents q) < bound \<Longrightarrow>
      \<exists>q'. push q x = Inr (True, q') \<and> invar q' \<and> contents q' = contents q @ [x]"
    and push_full: "invar q \<Longrightarrow> \<not> length (contents q) < bound \<Longrightarrow> push q x = Inr (False, q)"
    and pop_some: "invar q \<Longrightarrow> contents q = x # xs \<Longrightarrow>
      \<exists>q'. pop q = Inr (Some x, q') \<and> invar q' \<and> contents q' = xs"
    and pop_none: "invar q \<Longrightarrow> contents q = [] \<Longrightarrow> pop q = Inr (None, q)"
begin

text \<open>Every sequence of calls answers as the abstract queue does.\<close>

lemma run_refines:
  "invar q \<Longrightarrow>
   \<exists>q'. queue_run push pop q ps = Inr (fst (fifo_run bound (contents q) ps), q') \<and>
        invar q' \<and> contents q' = snd (fifo_run bound (contents q) ps)"
proof (induction ps arbitrary: q)
  case Nil
  then show ?case by simp
next
  case (Cons p ps)
  show ?case
  proof (cases p)
    case (Enq x)
    show ?thesis
    proof (cases "length (contents q) < bound")
      case True
      obtain q1 where q1: "push q x = Inr (True, q1)" "invar q1" "contents q1 = contents q @ [x]"
        using push_room [OF Cons.prems True] by blast
      show ?thesis using Cons.IH [OF q1(2)] q1 Enq True by (auto simp: split_beta)
    next
      case False
      show ?thesis
        using Cons.IH [OF Cons.prems] push_full [OF Cons.prems False] Enq False
        by (auto simp: split_beta)
    qed
  next
    case Deq
    show ?thesis
    proof (cases "contents q")
      case Nil
      show ?thesis
        using Cons.IH [OF Cons.prems] pop_none [OF Cons.prems Nil] Deq Nil by (auto simp: split_beta)
    next
      case (Cons x xs)
      obtain q1 where q1: "pop q = Inr (Some x, q1)" "invar q1" "contents q1 = xs"
        using pop_some [OF Cons.prems Cons] by blast
      show ?thesis using Cons.IH [OF q1(2)] q1 Deq Cons by (auto simp: split_beta)
    qed
  qed
qed

text \<open>Popping until the queue reports empty returns the whole contents, in order.\<close>

lemma pop_while_contents:
  "invar q \<Longrightarrow> length (contents q) < n \<Longrightarrow>
   \<exists>q'. pop_while pop n q = Inr (Some (contents q, q')) \<and> invar q' \<and> contents q' = []"
proof (induction n arbitrary: q)
  case 0
  then show ?case by simp
next
  case (Suc n)
  show ?case
  proof (cases "contents q")
    case Nil
    with Suc.prems pop_none show ?thesis by simp
  next
    case (Cons x xs)
    obtain q1 where q1: "pop q = Inr (Some x, q1)" "invar q1" "contents q1 = xs"
      using pop_some [OF Suc.prems(1) Cons] by blast
    have "length (contents q1) < n" using Suc.prems(2) Cons q1(3) by simp
    from Suc.IH [OF q1(2) this] q1 Cons show ?thesis by auto
  qed
qed

end

end
