(* ===== verification/SPSC_Queue.thy ===== *)
theory SPSC_Queue
  imports Ring_Buffer
begin

text \<open>
  \<^verbatim>\<open>include/fiah/structs/SPSCQueue.hh\<close>: the lock-free single-producer single-consumer
  queue. The first half is the class as sequential code sees it (every member function,
  the destructor included) and its refinement of a bounded FIFO; the second half is the
  step relation of one producer and one consumer thread, interleaved at every atomic
  access, where an acquire load of the other side's counter may return an old value.
\<close>

section \<open>The class\<close>

record 'a spsc =
  m_head :: u64_t
  m_tail :: u64_t
  m_storage :: "'a option list"

definition spsc_static_assert :: "u64_t \<Rightarrow> bool" where
  "spsc_static_assert CapacityPow2 \<longleftrightarrow> CapacityPow2 AND (CapacityPow2 - 1) = 0"

definition spsc_new :: "u64_t \<Rightarrow> 'a spsc" where
  "spsc_new kCapacity = \<lparr>m_head = 0, m_tail = 0, m_storage = replicate (unat kCapacity) None\<rparr>"

definition spsc_slot_ptr :: "u64_t \<Rightarrow> u64_t \<Rightarrow> nat" where
  "spsc_slot_ptr kCapacity idx = ring_idx kCapacity idx"

definition spsc_emplace :: "u64_t \<Rightarrow> 'a spsc \<Rightarrow> 'a \<Rightarrow> (bool \<times> 'a spsc) res" where
  "spsc_emplace kCapacity q x =
     (let head = m_head q; tail = m_tail q in
      if head - tail = kCapacity then Inr (False, q)
      else bind_res (construct_at (m_storage q) (spsc_slot_ptr kCapacity head) x) (\<lambda>st.
             Inr (True, q\<lparr>m_storage := st, m_head := head + 1\<rparr>)))"

definition spsc_push :: "u64_t \<Rightarrow> 'a spsc \<Rightarrow> 'a \<Rightarrow> (bool \<times> 'a spsc) res" where
  "spsc_push kCapacity q x = spsc_emplace kCapacity q x"

definition spsc_pop :: "u64_t \<Rightarrow> 'a spsc \<Rightarrow> ('a option \<times> 'a spsc) res" where
  "spsc_pop kCapacity q =
     (let tail = m_tail q; head = m_head q in
      if head = tail then Inr (None, q)
      else let p = spsc_slot_ptr kCapacity tail in
        bind_res (read_at (m_storage q) p) (\<lambda>out.
        bind_res (destroy_at (m_storage q) p) (\<lambda>st.
          Inr (Some out, q\<lparr>m_storage := st, m_tail := tail + 1\<rparr>))))"

text \<open>
  The branch of \<^verbatim>\<open>pop\<close> for an array type: the elements are moved one by one from the slot into
  \<^verbatim>\<open>out\<close>, with \<^verbatim>\<open>sizeof(T)\<close>, a number of bytes, as the bound of the loop.
\<close>

fun spsc_move_elements :: "nat list \<Rightarrow> 'e list \<Rightarrow> 'e list \<Rightarrow> 'e list res" where
  "spsc_move_elements [] p out = Inr out"
| "spsc_move_elements (i # is) p out =
     (if i < length p \<and> i < length out then spsc_move_elements is p (out[i := p ! i]) else Inl OutOfBounds)"

definition spsc_pop_array :: "nat \<Rightarrow> 'e list \<Rightarrow> 'e list \<Rightarrow> 'e list res" where
  "spsc_pop_array sizeof_ElementT p out =
     (let sizeof_T = length out * sizeof_ElementT in spsc_move_elements [0..<sizeof_T] p out)"

definition spsc_empty :: "'a spsc \<Rightarrow> bool" where
  "spsc_empty q \<longleftrightarrow> m_head q = m_tail q"

definition spsc_full :: "u64_t \<Rightarrow> 'a spsc \<Rightarrow> bool" where
  "spsc_full kCapacity q \<longleftrightarrow> m_head q - m_tail q = kCapacity"

definition spsc_size :: "'a spsc \<Rightarrow> u64_t" where
  "spsc_size q = m_head q - m_tail q"

definition spsc_capacity :: "u64_t \<Rightarrow> u64_t" where
  "spsc_capacity kCapacity = kCapacity"

text \<open>The loop of the destructor, over the local copies of both counters.\<close>

function spsc_drain :: "u64_t \<Rightarrow> u64_t \<Rightarrow> u64_t \<Rightarrow> 'a option list \<Rightarrow> 'a option list res" where
  "spsc_drain kCapacity tail head st =
     (if tail = head then Inr st
      else bind_res (destroy_at st (spsc_slot_ptr kCapacity tail)) (\<lambda>st'.
             spsc_drain kCapacity (tail + 1) head st'))"
  by pat_completeness auto
termination
proof (relation "measure (\<lambda>(c, tail, head, st). unat (head - tail))")
  show "wf (measure (\<lambda>(c :: u64_t, tail :: u64_t, head, st :: 'a option list). unat (head - tail)))"
    by simp
next
  fix c tail head :: u64_t and st x :: "'a option list"
  assume "tail \<noteq> head"
  then have "head - tail \<noteq> 0" by simp
  then have "unat (head - tail - 1) < unat (head - tail)"
    by (simp add: unat_minus_one unat_gt_0)
  then show "((c, tail + 1, head, x), c, tail, head, st)
      \<in> measure (\<lambda>(c, tail, head, st). unat (head - tail))"
    by (simp add: algebra_simps)
qed

declare spsc_drain.simps [simp del]

definition spsc_destructor :: "u64_t \<Rightarrow> 'a spsc \<Rightarrow> 'a option list res" where
  "spsc_destructor kCapacity q = spsc_drain kCapacity (m_tail q) (m_head q) (m_storage q)"

section \<open>Representation of a list\<close>

definition spsc_rep :: "u64_t \<Rightarrow> 'a spsc \<Rightarrow> nat \<Rightarrow> 'a list \<Rightarrow> bool" where
  "spsc_rep cap q t xs \<longleftrightarrow>
     m_tail q = of_nat t \<and> m_head q = of_nat (t + length xs) \<and>
     ring_holds (unat cap) (m_storage q) t xs"

definition spsc_inv :: "u64_t \<Rightarrow> 'a spsc \<Rightarrow> bool" where
  "spsc_inv cap q \<longleftrightarrow> (\<exists>k. is_pow2 cap k) \<and> (\<exists>t xs. spsc_rep cap q t xs)"

definition spsc_contents :: "u64_t \<Rightarrow> 'a spsc \<Rightarrow> 'a list" where
  "spsc_contents cap q =
     map (\<lambda>i. the (m_storage q ! spsc_slot_ptr cap (m_tail q + of_nat i)))
       [0..<unat (m_head q - m_tail q)]"

lemma pow2_window: "is_pow2 cap k \<Longrightarrow> n \<le> unat cap \<Longrightarrow> n < 2 ^ 64"
  using pow2_le [of cap k] by simp

lemma spsc_rep_bound: "spsc_rep cap q t xs \<Longrightarrow> length xs \<le> unat cap"
  by (simp add: spsc_rep_def ring_holds_def)

lemma spsc_rep_diff:
  assumes "is_pow2 cap k" "spsc_rep cap q t xs"
  shows "unat (m_head q - m_tail q) = length xs"
  using assms pow2_window [OF assms(1) spsc_rep_bound [OF assms(2)]] unat_count_diff [of t "t + length xs"]
  by (simp add: spsc_rep_def)

lemma spsc_rep_contents:
  assumes "is_pow2 cap k" "spsc_rep cap q t xs"
  shows "spsc_contents cap q = xs"
proof (rule nth_equalityI)
  show len: "length (spsc_contents cap q) = length xs"
    using assms by (simp add: spsc_contents_def spsc_rep_diff)
  fix i assume "i < length (spsc_contents cap q)"
  with len have i: "i < length xs" by simp
  have "m_tail q + of_nat i = of_nat (t + i)"
    using assms(2) by (simp add: spsc_rep_def)
  then have "spsc_slot_ptr cap (m_tail q + of_nat i) = (t + i) mod unat cap"
    using assms(1) by (simp only: spsc_slot_ptr_def ring_idx_of_nat)
  moreover have "m_storage q ! ((t + i) mod unat cap) = Some (xs ! i)"
    using ring_holds_slot [of "unat cap" "m_storage q" t xs i] assms(2) i
    by (auto simp: spsc_rep_def ring_holds_def)
  ultimately show "spsc_contents cap q ! i = xs ! i"
    using assms i by (simp add: spsc_contents_def spsc_rep_diff)
qed

lemma spsc_invI:
  "is_pow2 cap k \<Longrightarrow> spsc_rep cap q t xs \<Longrightarrow> spsc_inv cap q \<and> spsc_contents cap q = xs"
  by (auto simp: spsc_inv_def spsc_rep_contents [of cap k])

lemma spsc_inv_rep:
  assumes "spsc_inv cap q"
  obtains k t where "is_pow2 cap k" "spsc_rep cap q t (spsc_contents cap q)"
proof -
  from assms obtain k t xs where k: "is_pow2 cap k" and rep: "spsc_rep cap q t xs"
    by (auto simp: spsc_inv_def)
  moreover have "spsc_contents cap q = xs" using k rep by (rule spsc_rep_contents)
  ultimately show thesis using that by blast
qed

lemma spsc_inv_new:
  assumes "is_pow2 cap k"
  shows "spsc_inv cap (spsc_new cap)"
proof -
  have "spsc_rep cap (spsc_new cap) 0 []"
    by (simp add: spsc_rep_def spsc_new_def ring_holds_empty)
  with assms show ?thesis by (auto simp: spsc_inv_def)
qed

lemma spsc_contents_new [simp]: "spsc_contents cap (spsc_new cap) = []"
  by (simp add: spsc_contents_def spsc_new_def)

lemma spsc_emplace_full:
  assumes "is_pow2 cap k" "spsc_rep cap q t xs"
  shows "m_head q - m_tail q = cap \<longleftrightarrow> length xs = unat cap"
  by (metis assms spsc_rep_diff word_unat_eq_iff)

lemma spsc_emplace_rep:
  assumes "is_pow2 cap k" "spsc_rep cap q t xs" "length xs < unat cap"
  shows "\<exists>q'. spsc_emplace cap q x = Inr (True, q') \<and> spsc_rep cap q' t (xs @ [x])"
proof -
  have ring: "ring_holds (unat cap) (m_storage q) t xs" and head: "m_head q = of_nat (t + length xs)"
    using assms(2) by (auto simp: spsc_rep_def)
  have slot: "spsc_slot_ptr cap (m_head q) = (t + length xs) mod unat cap"
    using assms(1) by (simp only: spsc_slot_ptr_def head ring_idx_of_nat)
  have "m_head q - m_tail q \<noteq> cap"
    using spsc_emplace_full [OF assms(1,2)] assms(3) by simp
  moreover note construct_at_back [OF ring assms(3), of x] ring_holds_push [OF ring assms(3), of x]
  ultimately show ?thesis
    using assms(2) slot by (simp add: spsc_emplace_def spsc_rep_def algebra_simps)
qed

lemma spsc_pop_rep:
  assumes "is_pow2 cap k" "spsc_rep cap q t (x # xs)"
  shows "\<exists>q'. spsc_pop cap q = Inr (Some x, q') \<and> spsc_rep cap q' (Suc t) xs"
proof -
  have ring: "ring_holds (unat cap) (m_storage q) t (x # xs)" and tail: "m_tail q = of_nat t"
    using assms(2) by (auto simp: spsc_rep_def)
  have slot: "spsc_slot_ptr cap (m_tail q) = t mod unat cap"
    using assms(1) by (simp only: spsc_slot_ptr_def tail ring_idx_of_nat)
  have "m_head q \<noteq> m_tail q"
    using spsc_rep_diff [OF assms] by auto
  moreover note read_at_front [OF ring] destroy_at_front [OF ring] ring_holds_pop [OF ring]
  ultimately show ?thesis
    using assms(2) slot by (simp add: spsc_pop_def spsc_rep_def algebra_simps)
qed

lemma spsc_size_contents: "spsc_inv cap q \<Longrightarrow> unat (spsc_size q) = length (spsc_contents cap q)"
  by (simp add: spsc_size_def spsc_contents_def)

interpretation spsc: bounded_fifo "spsc_push cap" "spsc_pop cap" "spsc_inv cap" "spsc_contents cap" "unat cap"
  for cap
proof unfold_locales
  fix q :: "'a spsc" and x :: 'a
  assume inv: "spsc_inv cap q" and room: "length (spsc_contents cap q) < unat cap"
  then obtain k t where k: "is_pow2 cap k" and rep: "spsc_rep cap q t (spsc_contents cap q)"
    by (elim spsc_inv_rep)
  from spsc_emplace_rep [OF k rep room, of x] obtain q' where
    q': "spsc_emplace cap q x = Inr (True, q')" "spsc_rep cap q' t (spsc_contents cap q @ [x])"
    by blast
  then show "\<exists>q'. spsc_push cap q x = Inr (True, q') \<and>
      spsc_inv cap q' \<and> spsc_contents cap q' = spsc_contents cap q @ [x]"
    using spsc_invI [OF k q'(2)] by (auto simp: spsc_push_def)
next
  fix q :: "'a spsc" and x :: 'a
  assume inv: "spsc_inv cap q" and full: "\<not> length (spsc_contents cap q) < unat cap"
  then obtain k t where k: "is_pow2 cap k" and rep: "spsc_rep cap q t (spsc_contents cap q)"
    by (elim spsc_inv_rep)
  with full spsc_rep_bound [OF rep] have "m_head q - m_tail q = cap"
    by (simp add: spsc_emplace_full [OF k rep])
  then show "spsc_push cap q x = Inr (False, q)"
    by (simp add: spsc_push_def spsc_emplace_def)
next
  fix q :: "'a spsc" and x xs
  assume inv: "spsc_inv cap q" and cs: "spsc_contents cap q = x # xs"
  from inv obtain k t where k: "is_pow2 cap k" and "spsc_rep cap q t (spsc_contents cap q)"
    by (elim spsc_inv_rep)
  then have rep: "spsc_rep cap q t (x # xs)" by (simp only: cs)
  from spsc_pop_rep [OF k rep] obtain q' where
    q': "spsc_pop cap q = Inr (Some x, q')" "spsc_rep cap q' (Suc t) xs"
    by blast
  then show "\<exists>q'. spsc_pop cap q = Inr (Some x, q') \<and>
      spsc_inv cap q' \<and> spsc_contents cap q' = xs"
    using spsc_invI [OF k q'(2)] by auto
next
  fix q :: "'a spsc"
  assume inv: "spsc_inv cap q" and cs: "spsc_contents cap q = []"
  from inv obtain k t where "spsc_rep cap q t (spsc_contents cap q)"
    by (elim spsc_inv_rep)
  then have "m_head q = m_tail q" by (simp only: cs) (simp add: spsc_rep_def)
  then show "spsc_pop cap q = Inr (None, q)"
    by (simp add: spsc_pop_def)
qed

section \<open>Destructor\<close>

lemma spsc_drain_ring:
  assumes "is_pow2 cap k"
  shows "ring_holds (unat cap) st t xs \<Longrightarrow>
    spsc_drain cap (of_nat t) (of_nat (t + length xs)) st = Inr (replicate (unat cap) None)"
proof (induction xs arbitrary: st t)
  case Nil
  have "st = replicate (unat cap) None"
  proof (rule nth_equalityI)
    show "length st = length (replicate (unat cap) None)"
      using Nil by (simp add: ring_holds_def)
    fix j assume "j < length st"
    with Nil have j: "j < unat cap" by (simp add: ring_holds_def)
    obtain i where i: "t \<le> i" "i < t + unat cap" "i mod unat cap = j"
      using mod_window_surj [OF j, of t] by blast
    have "st ! ((t + (i - t)) mod unat cap) = None"
      using ring_holds_slot [OF Nil, of "i - t"] i by simp
    then show "st ! j = replicate (unat cap) None ! j"
      using i j by simp
  qed
  then show ?case by (simp add: spsc_drain.simps)
next
  case (Cons x xs)
  have "Suc (length xs) \<le> unat cap" using Cons.prems by (simp add: ring_holds_def)
  then have "Suc (length xs) < 2 ^ 64" by (rule pow2_window [OF assms])
  then have "(of_nat (t + length (x # xs)) :: u64_t) \<noteq> of_nat t"
    by (subst count_eq_iff) auto
  moreover have "spsc_slot_ptr cap (of_nat t) = t mod unat cap"
    using assms by (simp add: spsc_slot_ptr_def ring_idx_of_nat)
  moreover note Cons.IH [OF ring_holds_pop [OF Cons.prems]] destroy_at_front [OF Cons.prems]
  ultimately show ?case
    by (subst spsc_drain.simps) (simp add: algebra_simps)
qed

lemma spsc_destructor_raw:
  assumes "spsc_inv cap q"
  shows "spsc_destructor cap q = Inr (replicate (unat cap) None)"
proof -
  from assms obtain k t where k: "is_pow2 cap k" and rep: "spsc_rep cap q t (spsc_contents cap q)"
    by (elim spsc_inv_rep)
  then show ?thesis
    using spsc_drain_ring [OF k, of "m_storage q" t "spsc_contents cap q"]
    by (simp add: spsc_destructor_def spsc_rep_def)
qed

section \<open>Producer and consumer threads\<close>

text \<open>
  One producer thread runs \<^verbatim>\<open>emplace\<close> over and over, one consumer thread runs
  \<^verbatim>\<open>pop\<close>. A program counter stands before each access to shared memory and carries the
  locals of the call. A fault ends in a state of its own.
\<close>

datatype 'a spsc_producer =
    PIdle
  | PLoadTail 'a u64_t      \<comment> \<open>\<^verbatim>\<open>head\<close> is loaded\<close>
  | PConstruct 'a u64_t     \<comment> \<open>the queue was not full\<close>
  | PPublish 'a u64_t       \<comment> \<open>the element is constructed\<close>
  | PFault ub

datatype 'a spsc_consumer =
    CIdle
  | CLoadHead u64_t         \<comment> \<open>\<^verbatim>\<open>tail\<close> is loaded\<close>
  | CMove u64_t             \<comment> \<open>the queue was not empty\<close>
  | CDestroy u64_t 'a       \<comment> \<open>the element is moved to \<^verbatim>\<open>out\<close>\<close>
  | CPublish u64_t 'a       \<comment> \<open>the slot is destroyed\<close>
  | CFault ub

text \<open>
  Besides the queue and the two threads the state has history variables: how many
  elements were ever published and consumed (unbounded, unlike the 64-bit counters),
  the newest value of the other side's counter each thread has read, and the elements in
  the order they were published and delivered.
\<close>

record 'a spsc_sys =
  sys_q :: "'a spsc"
  producer :: "'a spsc_producer"
  consumer :: "'a spsc_consumer"
  n_head :: nat
  n_tail :: nat
  seen_tail :: nat
  seen_head :: nat
  pushed :: "'a list"
  popped :: "'a list"

definition spsc_sys_init :: "u64_t \<Rightarrow> 'a spsc_sys \<Rightarrow> bool" where
  "spsc_sys_init cap s \<longleftrightarrow>
     s = \<lparr>sys_q = spsc_new cap, producer = PIdle, consumer = CIdle, n_head = 0, n_tail = 0,
          seen_tail = 0, seen_head = 0, pushed = [], popped = []\<rparr>"

text \<open>
  A thread always reads its own counter exactly. An acquire load of the other counter
  returns any value written no earlier than the newest one the thread has seen: coherence
  is all the memory model promises about freshness.
\<close>

inductive spsc_step :: "u64_t \<Rightarrow> 'a spsc_sys \<Rightarrow> 'a spsc_sys \<Rightarrow> bool" for cap where
  p_load_head: "producer s = PIdle \<Longrightarrow>
    spsc_step cap s (s\<lparr>producer := PLoadTail x (m_head (sys_q s))\<rparr>)"
| p_full: "producer s = PLoadTail x h \<Longrightarrow> seen_tail s \<le> t \<Longrightarrow> t \<le> n_tail s \<Longrightarrow> h - of_nat t = cap \<Longrightarrow>
    spsc_step cap s (s\<lparr>producer := PIdle, seen_tail := t\<rparr>)"
| p_room: "producer s = PLoadTail x h \<Longrightarrow> seen_tail s \<le> t \<Longrightarrow> t \<le> n_tail s \<Longrightarrow> h - of_nat t \<noteq> cap \<Longrightarrow>
    spsc_step cap s (s\<lparr>producer := PConstruct x h, seen_tail := t\<rparr>)"
| p_construct: "producer s = PConstruct x h \<Longrightarrow>
    construct_at (m_storage (sys_q s)) (spsc_slot_ptr cap h) x = Inr st \<Longrightarrow>
    spsc_step cap s (s\<lparr>producer := PPublish x h, sys_q := (sys_q s)\<lparr>m_storage := st\<rparr>\<rparr>)"
| p_construct_fault: "producer s = PConstruct x h \<Longrightarrow>
    construct_at (m_storage (sys_q s)) (spsc_slot_ptr cap h) x = Inl e \<Longrightarrow>
    spsc_step cap s (s\<lparr>producer := PFault e\<rparr>)"
| p_publish: "producer s = PPublish x h \<Longrightarrow>
    spsc_step cap s (s\<lparr>producer := PIdle, sys_q := (sys_q s)\<lparr>m_head := h + 1\<rparr>,
      n_head := Suc (n_head s), pushed := pushed s @ [x]\<rparr>)"
| c_load_tail: "consumer s = CIdle \<Longrightarrow>
    spsc_step cap s (s\<lparr>consumer := CLoadHead (m_tail (sys_q s))\<rparr>)"
| c_empty: "consumer s = CLoadHead t \<Longrightarrow> seen_head s \<le> h \<Longrightarrow> h \<le> n_head s \<Longrightarrow> of_nat h = t \<Longrightarrow>
    spsc_step cap s (s\<lparr>consumer := CIdle, seen_head := h\<rparr>)"
| c_some: "consumer s = CLoadHead t \<Longrightarrow> seen_head s \<le> h \<Longrightarrow> h \<le> n_head s \<Longrightarrow> of_nat h \<noteq> t \<Longrightarrow>
    spsc_step cap s (s\<lparr>consumer := CMove t, seen_head := h\<rparr>)"
| c_move: "consumer s = CMove t \<Longrightarrow>
    read_at (m_storage (sys_q s)) (spsc_slot_ptr cap t) = Inr v \<Longrightarrow>
    spsc_step cap s (s\<lparr>consumer := CDestroy t v\<rparr>)"
| c_move_fault: "consumer s = CMove t \<Longrightarrow>
    read_at (m_storage (sys_q s)) (spsc_slot_ptr cap t) = Inl e \<Longrightarrow>
    spsc_step cap s (s\<lparr>consumer := CFault e\<rparr>)"
| c_destroy: "consumer s = CDestroy t v \<Longrightarrow>
    destroy_at (m_storage (sys_q s)) (spsc_slot_ptr cap t) = Inr st \<Longrightarrow>
    spsc_step cap s (s\<lparr>consumer := CPublish t v, sys_q := (sys_q s)\<lparr>m_storage := st\<rparr>\<rparr>)"
| c_destroy_fault: "consumer s = CDestroy t v \<Longrightarrow>
    destroy_at (m_storage (sys_q s)) (spsc_slot_ptr cap t) = Inl e \<Longrightarrow>
    spsc_step cap s (s\<lparr>consumer := CFault e\<rparr>)"
| c_publish: "consumer s = CPublish t v \<Longrightarrow>
    spsc_step cap s (s\<lparr>consumer := CIdle, sys_q := (sys_q s)\<lparr>m_tail := t + 1\<rparr>,
      n_tail := Suc (n_tail s), popped := popped s @ [v]\<rparr>)"

text \<open>The elements in the ring: published ones not yet destroyed, and the one in flight.\<close>

definition unpublished :: "'a spsc_sys \<Rightarrow> 'a list" where
  "unpublished s = (case producer s of PPublish x _ \<Rightarrow> [x] | _ \<Rightarrow> [])"

definition ring_base :: "'a spsc_sys \<Rightarrow> nat" where
  "ring_base s = (case consumer s of CPublish _ _ \<Rightarrow> Suc (n_tail s) | _ \<Rightarrow> n_tail s)"

definition producer_ok :: "u64_t \<Rightarrow> 'a spsc_sys \<Rightarrow> bool" where
  "producer_ok cap s \<longleftrightarrow>
     (case producer s of
        PIdle \<Rightarrow> True
      | PLoadTail _ h \<Rightarrow> h = of_nat (n_head s)
      | PConstruct _ h \<Rightarrow> h = of_nat (n_head s) \<and> n_head s < seen_tail s + unat cap
      | PPublish _ h \<Rightarrow> h = of_nat (n_head s) \<and> n_head s < seen_tail s + unat cap
      | PFault _ \<Rightarrow> False)"

definition consumer_ok :: "'a spsc_sys \<Rightarrow> bool" where
  "consumer_ok s \<longleftrightarrow>
     (case consumer s of
        CIdle \<Rightarrow> True
      | CLoadHead t \<Rightarrow> t = of_nat (n_tail s)
      | CMove t \<Rightarrow> t = of_nat (n_tail s) \<and> n_tail s < seen_head s
      | CDestroy t v \<Rightarrow> t = of_nat (n_tail s) \<and> n_tail s < seen_head s \<and> v = pushed s ! n_tail s
      | CPublish t v \<Rightarrow> t = of_nat (n_tail s) \<and> n_tail s < seen_head s \<and> v = pushed s ! n_tail s
      | CFault _ \<Rightarrow> False)"

definition spsc_counts_ok :: "u64_t \<Rightarrow> 'a spsc_sys \<Rightarrow> bool" where
  "spsc_counts_ok cap s \<longleftrightarrow>
     m_head (sys_q s) = of_nat (n_head s) \<and> m_tail (sys_q s) = of_nat (n_tail s) \<and>
     seen_tail s \<le> n_tail s \<and> n_head s \<le> seen_tail s + unat cap \<and>
     n_tail s \<le> seen_head s \<and> seen_head s \<le> n_head s \<and>
     length (pushed s) = n_head s \<and> popped s = take (n_tail s) (pushed s)"

definition spsc_sys_inv :: "u64_t \<Rightarrow> 'a spsc_sys \<Rightarrow> bool" where
  "spsc_sys_inv cap s \<longleftrightarrow>
     spsc_counts_ok cap s \<and> producer_ok cap s \<and> consumer_ok s \<and>
     ring_holds (unat cap) (m_storage (sys_q s)) (ring_base s)
       (drop (ring_base s) (pushed s) @ unpublished s)"

lemmas spsc_sys_defs = spsc_sys_inv_def spsc_counts_ok_def producer_ok_def consumer_ok_def
  ring_base_def unpublished_def

declare spsc_producer.case_cong [cong] spsc_consumer.case_cong [cong]

lemma spsc_sys_inv_init: "spsc_sys_init cap s \<Longrightarrow> spsc_sys_inv cap s"
  by (simp add: spsc_sys_init_def spsc_sys_defs spsc_new_def ring_holds_empty)

text \<open>Before the construction the slot at the head is free; before the move the slot at the tail is live.\<close>

lemma spsc_construct_ok:
  assumes "is_pow2 cap k" "spsc_sys_inv cap s" "producer s = PConstruct x h"
  defines "i \<equiv> n_head s mod unat cap"
  shows "spsc_slot_ptr cap h = i"
    and "construct_at (m_storage (sys_q s)) i x = Inr ((m_storage (sys_q s))[i := Some x])"
    and "ring_holds (unat cap) ((m_storage (sys_q s))[i := Some x]) (ring_base s)
           (drop (ring_base s) (pushed s) @ [x])"
proof -
  from assms(2,3) have ring: "ring_holds (unat cap) (m_storage (sys_q s)) (ring_base s)
      (drop (ring_base s) (pushed s))"
    by (simp add: spsc_sys_inv_def unpublished_def)
  from assms(2,3) have len: "ring_base s + length (drop (ring_base s) (pushed s)) = n_head s"
    and room: "length (drop (ring_base s) (pushed s)) < unat cap"
    by (auto simp: spsc_sys_defs split: spsc_consumer.splits)
  from assms(1-3) show "spsc_slot_ptr cap h = i"
    by (simp add: spsc_sys_inv_def producer_ok_def spsc_slot_ptr_def ring_idx_of_nat i_def)
  from construct_at_back [OF ring room] len
  show "construct_at (m_storage (sys_q s)) i x = Inr ((m_storage (sys_q s))[i := Some x])"
    by (simp add: i_def)
  from ring_holds_push [OF ring room, of x] len
  show "ring_holds (unat cap) ((m_storage (sys_q s))[i := Some x]) (ring_base s)
      (drop (ring_base s) (pushed s) @ [x])"
    by (simp add: i_def)
qed

lemma spsc_front_ok:
  assumes "is_pow2 cap k" "spsc_sys_inv cap s" "consumer s = CMove t \<or> consumer s = CDestroy t v"
  defines "i \<equiv> n_tail s mod unat cap"
  shows "spsc_slot_ptr cap t = i"
    and "read_at (m_storage (sys_q s)) i = Inr (pushed s ! n_tail s)"
    and "destroy_at (m_storage (sys_q s)) i = Inr ((m_storage (sys_q s))[i := None])"
    and "ring_holds (unat cap) ((m_storage (sys_q s))[i := None]) (Suc (n_tail s))
           (drop (Suc (n_tail s)) (pushed s) @ unpublished s)"
proof -
  from assms(2,3) have base: "ring_base s = n_tail s" and lt: "n_tail s < length (pushed s)"
    and t: "t = of_nat (n_tail s)"
    by (auto simp: spsc_sys_defs)
  with assms(2) have ring: "ring_holds (unat cap) (m_storage (sys_q s)) (n_tail s)
      (pushed s ! n_tail s # (drop (Suc (n_tail s)) (pushed s) @ unpublished s))"
    by (simp add: spsc_sys_inv_def flip: Cons_nth_drop_Suc)
  from assms(1) t show "spsc_slot_ptr cap t = i"
    by (simp add: spsc_slot_ptr_def ring_idx_of_nat i_def)
  from read_at_front [OF ring] show "read_at (m_storage (sys_q s)) i = Inr (pushed s ! n_tail s)"
    by (simp add: i_def)
  from destroy_at_front [OF ring]
  show "destroy_at (m_storage (sys_q s)) i = Inr ((m_storage (sys_q s))[i := None])"
    by (simp add: i_def)
  from ring_holds_pop [OF ring] show "ring_holds (unat cap) ((m_storage (sys_q s))[i := None])
      (Suc (n_tail s)) (drop (Suc (n_tail s)) (pushed s) @ unpublished s)"
    by (simp add: i_def)
qed

lemma spsc_sys_inv_producer:
  assumes "is_pow2 cap k" "spsc_sys_inv cap s" "producer s = PLoadTail x h"
    "seen_tail s \<le> t" "t \<le> n_tail s"
  shows "h - of_nat t = cap \<longleftrightarrow> n_head s = t + unat cap"
proof -
  have "n_head s - t \<le> unat cap" "t \<le> n_head s"
    using assms(2-) by (auto simp: spsc_sys_defs)
  moreover from this have "n_head s - t < 2 ^ 64"
    using pow2_window [OF assms(1)] by blast
  ultimately show ?thesis
    using assms(2,3) count_diff_eq_cap [of t "n_head s" cap]
    by (auto simp: spsc_sys_inv_def producer_ok_def)
qed

lemma spsc_sys_inv_consumer:
  assumes "is_pow2 cap k" "spsc_sys_inv cap s" "consumer s = CLoadHead t"
    "seen_head s \<le> h" "h \<le> n_head s"
  shows "of_nat h = t \<longleftrightarrow> h = n_tail s"
proof -
  have "h - n_tail s \<le> unat cap" "n_tail s \<le> h"
    using assms(2-) by (auto simp: spsc_sys_defs)
  moreover from this have "h - n_tail s < 2 ^ 64"
    using pow2_window [OF assms(1)] by blast
  ultimately show ?thesis
    using assms(2,3) count_eq_iff [of "n_tail s" h]
    by (auto simp: spsc_sys_inv_def consumer_ok_def)
qed

lemma spsc_no_fault:
  assumes k: "is_pow2 cap k" and inv: "spsc_sys_inv cap s"
  shows "producer s = PConstruct x h \<Longrightarrow> construct_at (m_storage (sys_q s)) (spsc_slot_ptr cap h) x \<noteq> Inl e"
    and "consumer s = CMove t \<Longrightarrow> read_at (m_storage (sys_q s)) (spsc_slot_ptr cap t) \<noteq> Inl e"
    and "consumer s = CDestroy t v \<Longrightarrow> destroy_at (m_storage (sys_q s)) (spsc_slot_ptr cap t) \<noteq> Inl e"
  using spsc_construct_ok [OF k inv] spsc_front_ok [OF k inv, of t] by auto

lemma spsc_inv_publish:
  assumes inv: "spsc_sys_inv cap s" and pc: "producer s = PPublish x h"
  shows "spsc_sys_inv cap (s\<lparr>producer := PIdle, sys_q := (sys_q s)\<lparr>m_head := h + 1\<rparr>,
    n_head := Suc (n_head s), pushed := pushed s @ [x]\<rparr>)"
proof -
  have "ring_base s \<le> length (pushed s)" using pc inv by (auto simp: spsc_sys_defs split: spsc_consumer.splits)
  moreover have "take (n_tail s) (pushed s @ [x]) = take (n_tail s) (pushed s)" using inv by (simp add: spsc_sys_defs)
  moreover have "n_tail s < seen_head s \<Longrightarrow> (pushed s @ [x]) ! n_tail s = pushed s ! n_tail s"
    using inv by (simp add: spsc_sys_defs nth_append)
  ultimately show ?thesis using pc inv by (auto simp: spsc_sys_defs algebra_simps split: spsc_consumer.splits)
qed

lemma spsc_inv_consume:
  assumes inv: "spsc_sys_inv cap s" and pc: "consumer s = CPublish t v"
  shows "spsc_sys_inv cap (s\<lparr>consumer := CIdle, sys_q := (sys_q s)\<lparr>m_tail := t + 1\<rparr>,
    n_tail := Suc (n_tail s), popped := popped s @ [v]\<rparr>)"
proof -
  have "n_tail s < length (pushed s)" using inv pc by (auto simp: spsc_sys_defs)
  with inv pc show ?thesis by (auto simp: spsc_sys_defs take_Suc_snoc algebra_simps)
qed

lemma spsc_sys_inv_step:
  assumes k: "is_pow2 cap k" and step: "spsc_step cap s t" and inv: "spsc_sys_inv cap s"
  shows "spsc_sys_inv cap t"
  using step
proof cases
  case (p_room x h t')
  with inv spsc_sys_inv_producer [OF k inv] show ?thesis by (fastforce simp: spsc_sys_defs)
next
  case (p_construct x h st)
  with inv spsc_construct_ok [OF k inv p_construct(2)] show ?thesis by (simp add: spsc_sys_defs)
next
  case (p_publish x h)
  with spsc_inv_publish [OF inv] show ?thesis by simp
next
  case (c_some t' h)
  with inv spsc_sys_inv_consumer [OF k inv] show ?thesis by (fastforce simp: spsc_sys_defs)
next
  case (c_move t' v)
  with inv spsc_front_ok [OF k inv disjI1 [OF c_move(2)]] show ?thesis by (auto simp: spsc_sys_defs)
next
  case (c_destroy t' v st)
  with inv spsc_front_ok [OF k inv disjI2 [OF c_destroy(2)]] show ?thesis by (auto simp: spsc_sys_defs)
next
  case (c_publish t' v)
  with spsc_inv_consume [OF inv] show ?thesis by simp
qed (use inv spsc_no_fault [OF k inv] in \<open>auto simp: spsc_sys_defs\<close>)

interpretation spsc_sys: inductive_invariant "spsc_sys_init cap" "spsc_step cap"
    "\<lambda>s. (\<exists>k. is_pow2 cap k) \<longrightarrow> spsc_sys_inv cap s" for cap
  by unfold_locales (auto intro: spsc_sys_inv_init spsc_sys_inv_step)

lemma spsc_reach_inv:
  "is_pow2 cap k \<Longrightarrow> reach (spsc_sys_init cap) (spsc_step cap) s \<Longrightarrow> spsc_sys_inv cap s"
  using spsc_sys.reach_inv by blast

section \<open>Calls that run alone\<close>

text \<open>
  Whatever the consumer is in the middle of, a producer that reads the current counters
  needs four steps of its own to insert, and likewise a consumer five to remove.
\<close>

lemma spsc_enter_construct:
  assumes k: "is_pow2 cap k" and inv: "spsc_sys_inv cap s"
    and idle: "producer s = PIdle" and room: "n_head s < n_tail s + unat cap"
  shows "(spsc_step cap ^^ 2) s
    (s\<lparr>producer := PConstruct x (m_head (sys_q s)), seen_tail := n_tail s\<rparr>)"
proof -
  let ?h = "m_head (sys_q s)"
  define s1 where "s1 = s\<lparr>producer := PLoadTail x ?h\<rparr>"
  have step1: "spsc_step cap s s1"
    unfolding s1_def using idle by (rule spsc_step.p_load_head)
  then have inv1: "spsc_sys_inv cap s1"
    using spsc_sys_inv_step [OF k _ inv] by blast
  have le: "seen_tail s1 \<le> n_tail s" "n_tail s \<le> n_tail s1"
    using inv by (auto simp: s1_def spsc_sys_defs)
  have "?h - of_nat (n_tail s) \<noteq> cap"
    using spsc_sys_inv_producer [OF k inv1, of x ?h "n_tail s"] le room by (simp add: s1_def)
  then have "spsc_step cap s1 (s1\<lparr>producer := PConstruct x ?h, seen_tail := n_tail s\<rparr>)"
    using le by (intro spsc_step.p_room) (simp_all add: s1_def)
  from relpowp_2I [where R = "spsc_step cap", OF step1 this] show ?thesis by (simp add: s1_def)
qed

lemma spsc_finish_push:
  assumes k: "is_pow2 cap k" and inv: "spsc_sys_inv cap s" and pc: "producer s = PConstruct x h"
  shows "\<exists>t. (spsc_step cap ^^ 2) s t \<and> pushed t = pushed s @ [x] \<and> producer t = PIdle \<and>
    consumer t = consumer s \<and> n_head t = Suc (n_head s) \<and> n_tail t = n_tail s \<and> popped t = popped s"
proof -
  define st where "st = (m_storage (sys_q s))[n_head s mod unat cap := Some x]"
  define s1 where "s1 = s\<lparr>producer := PPublish x h, sys_q := (sys_q s)\<lparr>m_storage := st\<rparr>\<rparr>"
  have step1: "spsc_step cap s s1"
    unfolding s1_def st_def using spsc_construct_ok [OF k inv pc] pc
    by (intro spsc_step.p_construct) simp_all
  have "spsc_step cap s1 (s1\<lparr>producer := PIdle, sys_q := (sys_q s1)\<lparr>m_head := h + 1\<rparr>,
      n_head := Suc (n_head s1), pushed := pushed s1 @ [x]\<rparr>)"
    by (rule spsc_step.p_publish) (simp add: s1_def)
  from relpowp_2I [where R = "spsc_step cap", OF step1 this] show ?thesis
    by (intro exI conjI, assumption) (simp_all add: s1_def)
qed

lemma spsc_solo_push:
  assumes k: "is_pow2 cap k" and inv: "spsc_sys_inv cap s"
    and idle: "producer s = PIdle" and room: "n_head s < n_tail s + unat cap"
  shows "\<exists>t. (spsc_step cap ^^ 4) s t \<and> pushed t = pushed s @ [x] \<and> producer t = PIdle \<and>
    consumer t = consumer s \<and> n_head t = Suc (n_head s) \<and> n_tail t = n_tail s \<and> popped t = popped s"
proof -
  let ?s = "s\<lparr>producer := PConstruct x (m_head (sys_q s)), seen_tail := n_tail s\<rparr>"
  have steps: "(spsc_step cap ^^ 2) s ?s"
    using k inv idle room by (rule spsc_enter_construct)
  then have inv': "spsc_sys_inv cap ?s"
    using spsc_sys.steps_inv [OF relpowp_imp_rtranclp] inv k by blast
  have pc: "producer ?s = PConstruct x (m_head (sys_q s))" by simp
  obtain t where t: "(spsc_step cap ^^ 2) ?s t"
      "pushed t = pushed ?s @ [x] \<and> producer t = PIdle \<and> consumer t = consumer ?s \<and>
       n_head t = Suc (n_head ?s) \<and> n_tail t = n_tail ?s \<and> popped t = popped ?s"
    using spsc_finish_push [OF k inv' pc] by blast
  have "(spsc_step cap ^^ 4) s t"
    using steps t(1) by (rule relpowp_trans_num) simp
  with t(2) show ?thesis by auto
qed

lemma spsc_enter_move:
  assumes k: "is_pow2 cap k" and inv: "spsc_sys_inv cap s"
    and idle: "consumer s = CIdle" and some: "n_tail s < n_head s"
  shows "(spsc_step cap ^^ 2) s
    (s\<lparr>consumer := CMove (m_tail (sys_q s)), seen_head := n_head s\<rparr>)"
proof -
  let ?t = "m_tail (sys_q s)"
  define s1 where "s1 = s\<lparr>consumer := CLoadHead ?t\<rparr>"
  have step1: "spsc_step cap s s1"
    unfolding s1_def using idle by (rule spsc_step.c_load_tail)
  then have inv1: "spsc_sys_inv cap s1"
    using spsc_sys_inv_step [OF k _ inv] by blast
  have le: "seen_head s1 \<le> n_head s" "n_head s \<le> n_head s1"
    using inv by (auto simp: s1_def spsc_sys_defs)
  have "of_nat (n_head s) \<noteq> ?t"
    using spsc_sys_inv_consumer [OF k inv1, of ?t "n_head s"] le some by (simp add: s1_def)
  then have "spsc_step cap s1 (s1\<lparr>consumer := CMove ?t, seen_head := n_head s\<rparr>)"
    using le by (intro spsc_step.c_some) (simp_all add: s1_def)
  from relpowp_2I [where R = "spsc_step cap", OF step1 this] show ?thesis by (simp add: s1_def)
qed

lemma spsc_finish_pop:
  assumes k: "is_pow2 cap k" and inv: "spsc_sys_inv cap s" and pc: "consumer s = CMove t"
  shows "\<exists>u. (spsc_step cap ^^ 3) s u \<and> popped u = popped s @ [pushed s ! n_tail s] \<and>
    consumer u = CIdle \<and> producer u = producer s \<and> n_tail u = Suc (n_tail s) \<and>
    n_head u = n_head s \<and> pushed u = pushed s"
proof -
  let ?v = "pushed s ! n_tail s"
  define s1 where "s1 = s\<lparr>consumer := CDestroy t ?v\<rparr>"
  have step1: "spsc_step cap s s1"
    unfolding s1_def using spsc_front_ok [OF k inv disjI1 [OF pc]] pc
    by (intro spsc_step.c_move) simp_all
  then have inv1: "spsc_sys_inv cap s1"
    using spsc_sys_inv_step [OF k _ inv] by blast
  have pc1: "consumer s1 = CDestroy t ?v" by (simp add: s1_def)
  define st where "st = (m_storage (sys_q s1))[n_tail s1 mod unat cap := None]"
  define s2 where "s2 = s1\<lparr>consumer := CPublish t ?v, sys_q := (sys_q s1)\<lparr>m_storage := st\<rparr>\<rparr>"
  have step2: "spsc_step cap s1 s2"
    unfolding s2_def st_def using spsc_front_ok [OF k inv1 disjI2 [OF pc1]] pc1
    by (intro spsc_step.c_destroy) simp_all
  have "spsc_step cap s2 (s2\<lparr>consumer := CIdle, sys_q := (sys_q s2)\<lparr>m_tail := t + 1\<rparr>,
      n_tail := Suc (n_tail s2), popped := popped s2 @ [?v]\<rparr>)"
    by (rule spsc_step.c_publish) (simp add: s2_def)
  from relpowp_3I [where R = "spsc_step cap", OF step1 step2 this] show ?thesis
    by (intro exI conjI, assumption) (simp_all add: s2_def s1_def)
qed

lemma spsc_solo_pop:
  assumes k: "is_pow2 cap k" and inv: "spsc_sys_inv cap s"
    and idle: "consumer s = CIdle" and some: "n_tail s < n_head s"
  shows "\<exists>t. (spsc_step cap ^^ 5) s t \<and> popped t = popped s @ [pushed s ! n_tail s] \<and>
    consumer t = CIdle \<and> producer t = producer s \<and> n_tail t = Suc (n_tail s) \<and>
    n_head t = n_head s \<and> pushed t = pushed s"
proof -
  let ?s = "s\<lparr>consumer := CMove (m_tail (sys_q s)), seen_head := n_head s\<rparr>"
  have steps: "(spsc_step cap ^^ 2) s ?s"
    using k inv idle some by (rule spsc_enter_move)
  then have inv': "spsc_sys_inv cap ?s"
    using spsc_sys.steps_inv [OF relpowp_imp_rtranclp] inv k by blast
  have pc: "consumer ?s = CMove (m_tail (sys_q s))" by simp
  obtain t where t: "(spsc_step cap ^^ 3) ?s t"
      "popped t = popped ?s @ [pushed ?s ! n_tail ?s] \<and> consumer t = CIdle \<and>
       producer t = producer ?s \<and> n_tail t = Suc (n_tail ?s) \<and> n_head t = n_head ?s \<and> pushed t = pushed ?s"
    using spsc_finish_pop [OF k inv' pc] by blast
  have "(spsc_step cap ^^ 5) s t"
    using steps t(1) by (rule relpowp_trans_num) simp
  with t(2) show ?thesis by auto
qed

section \<open>Properties\<close>

lemma spsc_new_pow2_4: "is_pow2 4 2"
  by (simp add: is_pow2_def)

lemma spsc_init_reach:
  "\<exists>s. reach (spsc_sys_init cap) (spsc_step cap) s \<and> spsc_sys_init cap s"
  by (auto simp: spsc_sys_init_def intro: reach_init)

text \<open>A reachable state in which one element went all the way through the queue.\<close>

lemma spsc_roundtrip_reach:
  assumes k: "is_pow2 cap k"
  shows "\<exists>s. reach (spsc_sys_init cap) (spsc_step cap) s \<and> pushed s = [x] \<and> popped s = [x]"
proof -
  obtain s0 :: "'a spsc_sys" where r0: "reach (spsc_sys_init cap) (spsc_step cap) s0"
    and i0: "spsc_sys_init cap s0"
    using spsc_init_reach by blast
  have f0: "producer s0 = PIdle" "n_head s0 < n_tail s0 + unat cap" "pushed s0 = []" "popped s0 = []"
    "consumer s0 = CIdle" "n_head s0 = 0" "n_tail s0 = 0"
    using i0 pow2_pos [OF k] by (auto simp: spsc_sys_init_def)
  obtain s1 where s1: "(spsc_step cap ^^ 4) s0 s1" "pushed s1 = [x]" "popped s1 = []"
    "consumer s1 = CIdle" "n_head s1 = 1" "n_tail s1 = 0"
    using spsc_solo_push [OF k spsc_reach_inv [OF k r0] f0(1,2), of x] f0 by auto
  have r1: "reach (spsc_sys_init cap) (spsc_step cap) s1"
    using r0 s1(1) by (rule reach_relpowp)
  obtain s2 where s2: "(spsc_step cap ^^ 5) s1 s2" "pushed s2 = [x]" "popped s2 = [x]"
    using spsc_solo_pop [OF k spsc_reach_inv [OF k r1] s1(4)] s1 by auto
  from r1 s2(1) have "reach (spsc_sys_init cap) (spsc_step cap) s2" by (rule reach_relpowp)
  with s2 show ?thesis by blast
qed

text \<open>A reachable state with the producer before its construction and the consumer before its move.\<close>

lemma spsc_both_busy_reach:
  assumes k: "is_pow2 cap k" and "1 < unat cap"
  shows "\<exists>s h t. reach (spsc_sys_init cap) (spsc_step cap) s \<and> producer s = PConstruct x h \<and>
    consumer s = CMove t"
proof -
  obtain s0 :: "'a spsc_sys" where r0: "reach (spsc_sys_init cap) (spsc_step cap) s0"
    and i0: "spsc_sys_init cap s0"
    using spsc_init_reach by blast
  obtain s1 where s1: "(spsc_step cap ^^ 4) s0 s1" "producer s1 = PIdle" "consumer s1 = CIdle"
    "n_head s1 = 1" "n_tail s1 = 0"
    using spsc_solo_push [OF k spsc_reach_inv [OF k r0], of x] i0 assms(2)
    by (auto simp: spsc_sys_init_def)
  have r1: "reach (spsc_sys_init cap) (spsc_step cap) s1"
    using r0 s1(1) by (rule reach_relpowp)
  let ?s2 = "s1\<lparr>producer := PConstruct x (m_head (sys_q s1)), seen_tail := n_tail s1\<rparr>"
  have "(spsc_step cap ^^ 2) s1 ?s2"
    using s1 assms(2) by (intro spsc_enter_construct [OF k spsc_reach_inv [OF k r1]]) auto
  with r1 have r2: "reach (spsc_sys_init cap) (spsc_step cap) ?s2" by (rule reach_relpowp)
  let ?s3 = "?s2\<lparr>consumer := CMove (m_tail (sys_q ?s2)), seen_head := n_head ?s2\<rparr>"
  have "(spsc_step cap ^^ 2) ?s2 ?s3"
    using s1 by (intro spsc_enter_move [OF k spsc_reach_inv [OF k r2]]) auto
  with r2 have "reach (spsc_sys_init cap) (spsc_step cap) ?s3" by (rule reach_relpowp)
  then show ?thesis by (intro exI [of _ ?s3]) auto
qed

text \<open>
  C1. SPSCQueue refines a bounded FIFO. For every power-of-two capacity, every sequence of
  \<^verbatim>\<open>push\<close> and \<^verbatim>\<open>pop\<close> calls on a fresh queue runs without a fault and gives exactly the
  answers of an abstract list of at most \<^verbatim>\<open>kCapacity\<close> elements; \<^verbatim>\<open>size\<close>, \<^verbatim>\<open>empty\<close> and
  \<^verbatim>\<open>full\<close> describe that list, and the destructor then ends the lifetime of each element
  left and leaves only raw slots.
\<close>

theorem spsc_refines_fifo:
  assumes "is_pow2 cap k"
  shows "\<exists>q. queue_run (spsc_push cap) (spsc_pop cap) (spsc_new cap) ps =
               Inr (fst (fifo_run (unat cap) [] ps), q) \<and>
             spsc_contents cap q = snd (fifo_run (unat cap) [] ps) \<and>
             unat (spsc_size q) = length (spsc_contents cap q) \<and>
             (spsc_empty q \<longleftrightarrow> spsc_contents cap q = []) \<and>
             (spsc_full cap q \<longleftrightarrow> length (spsc_contents cap q) = unat cap) \<and>
             spsc_destructor cap q = Inr (replicate (unat cap) None)"
proof -
  obtain q where q: "queue_run (spsc_push cap) (spsc_pop cap) (spsc_new cap) ps =
      Inr (fst (fifo_run (unat cap) [] ps), q)" "spsc_inv cap q"
      "spsc_contents cap q = snd (fifo_run (unat cap) [] ps)"
    using spsc.run_refines [OF spsc_inv_new [OF assms], of ps] by auto
  obtain k' t where k': "is_pow2 cap k'" and rep: "spsc_rep cap q t (spsc_contents cap q)"
    using q(2) by (elim spsc_inv_rep)
  have "spsc_empty q \<longleftrightarrow> spsc_contents cap q = []"
    using spsc_rep_diff [OF k' rep] by (auto simp: spsc_empty_def)
      (metis cancel_comm_monoid_add_class.diff_cancel eq_iff_diff_eq_0 length_0_conv unat_0_iff)
  moreover have "spsc_full cap q \<longleftrightarrow> length (spsc_contents cap q) = unat cap"
    using spsc_emplace_full [OF k' rep] by (simp add: spsc_full_def)
  ultimately show ?thesis
    using q spsc_size_contents [OF q(2)] spsc_destructor_raw [OF q(2)] by blast
qed

theorem spsc_refines_fifo_witness:
  "\<exists>q. queue_run (spsc_push 4) (spsc_pop 4) (spsc_new 4) [Enq (7::int), Enq 8, Deq, Enq 9] =
         Inr ([Pushed True, Pushed True, Popped (Some 7), Pushed True], q) \<and>
       spsc_contents 4 q = [8, 9] \<and> unat (spsc_size q) = 2"
  using spsc_refines_fifo [OF spsc_new_pow2_4, of "[Enq (7::int), Enq 8, Deq, Enq 9]"] by auto

text \<open>
  C2. Concurrent FIFO safety. In every interleaving of one producer and one consumer, with
  acquire loads that may return stale values and with both counters wrapping at 64 bits,
  the delivered elements are a prefix of the published ones in publication order (none
  lost, duplicated or reordered), at most \<^verbatim>\<open>kCapacity\<close> are in flight, and neither thread
  ever constructs over a live object or touches a dead one.
\<close>

theorem spsc_fifo_safety:
  assumes "is_pow2 cap k" "reach (spsc_sys_init cap) (spsc_step cap) s"
  shows "popped s = take (length (popped s)) (pushed s) \<and>
    length (pushed s) \<le> length (popped s) + unat cap \<and>
    (\<nexists>e. producer s = PFault e) \<and> (\<nexists>e. consumer s = CFault e)"
proof -
  have "spsc_sys_inv cap s" using assms by (rule spsc_reach_inv)
  then show ?thesis
    by (auto simp: spsc_sys_inv_def spsc_counts_ok_def producer_ok_def consumer_ok_def)
qed

theorem spsc_fifo_safety_witness:
  "\<exists>s. reach (spsc_sys_init 4) (spsc_step 4) s \<and> popped s = [7::int] \<and> pushed s = [7] \<and>
       popped s = take (length (popped s)) (pushed s) \<and> consumer s \<noteq> CFault DeadObject"
proof -
  obtain s :: "int spsc_sys" where s: "reach (spsc_sys_init 4) (spsc_step 4) s"
      "pushed s = [7]" "popped s = [7]"
    using spsc_roundtrip_reach [OF spsc_new_pow2_4, of 7] by blast
  then show ?thesis
    using spsc_fifo_safety [OF spsc_new_pow2_4 s(1)] by blast
qed

text \<open>
  C3. No data race on a slot. Whenever the producer is about to construct an element while
  the consumer is moving one out or destroying it, the two work on different slots.
\<close>

theorem spsc_no_slot_race:
  assumes "is_pow2 cap k" "reach (spsc_sys_init cap) (spsc_step cap) s"
    and "producer s = PConstruct x h"
    and "consumer s = CMove t \<or> consumer s = CDestroy t v"
  shows "spsc_slot_ptr cap h \<noteq> spsc_slot_ptr cap t"
proof -
  have inv: "spsc_sys_inv cap s" using assms(1,2) by (rule spsc_reach_inv)
  have "n_tail s \<le> n_head s" "n_head s < n_tail s + unat cap" "n_tail s \<noteq> n_head s"
    using inv assms(3,4) by (auto simp: spsc_sys_defs)
  then have "n_head s mod unat cap \<noteq> n_tail s mod unat cap"
    by (intro mod_window_neq [of "n_tail s"]) auto
  then show ?thesis
    using spsc_construct_ok(1) [OF assms(1) inv assms(3)] spsc_front_ok(1) [OF assms(1) inv assms(4)]
    by simp
qed

theorem spsc_no_slot_race_witness:
  "\<exists>(s :: int spsc_sys) x h t. reach (spsc_sys_init 4) (spsc_step 4) s \<and>
     producer s = PConstruct x h \<and> consumer s = CMove t \<and> spsc_slot_ptr 4 h \<noteq> spsc_slot_ptr 4 t"
proof -
  obtain s :: "int spsc_sys" and h t where s: "reach (spsc_sys_init 4) (spsc_step 4) s"
      "producer s = PConstruct 7 h" "consumer s = CMove t"
    using spsc_both_busy_reach [OF spsc_new_pow2_4, of 7] by auto
  then show ?thesis
    using spsc_no_slot_race [OF spsc_new_pow2_4 s(1,2) disjI1 [OF s(3)]] by blast
qed

text \<open>How many steps a call has left at most, for each point it can be at.\<close>

definition push_left :: "'a spsc_producer \<Rightarrow> nat" where
  "push_left pc = (case pc of PIdle \<Rightarrow> 0 | PLoadTail _ _ \<Rightarrow> 3 | PConstruct _ _ \<Rightarrow> 2 | PPublish _ _ \<Rightarrow> 1 | PFault _ \<Rightarrow> 0)"

definition pop_left :: "'a spsc_consumer \<Rightarrow> nat" where
  "pop_left pc = (case pc of CIdle \<Rightarrow> 0 | CLoadHead _ \<Rightarrow> 4 | CMove _ \<Rightarrow> 3 | CDestroy _ _ \<Rightarrow> 2 | CPublish _ _ \<Rightarrow> 1 | CFault _ \<Rightarrow> 0)"

lemma spsc_one_moves: "spsc_step cap s t \<Longrightarrow> producer t = producer s \<longleftrightarrow> consumer t \<noteq> consumer s"
  by (erule spsc_step.cases) simp_all

interpretation push_call: bounded_calls "spsc_step cap" consumer "\<lambda>s. producer s \<noteq> PIdle" "\<lambda>s. push_left (producer s)" for cap
proof
  show "push_left (producer t) < push_left (producer s)"
    if "spsc_step cap s t" "consumer t = consumer s" "producer s \<noteq> PIdle" for s t :: "'a spsc_sys"
    using that by cases (simp_all add: push_left_def)
  show "push_left (producer t) \<le> push_left (producer s)" if "spsc_step cap s t" "consumer t \<noteq> consumer s" for s t :: "'a spsc_sys"
    using spsc_one_moves [OF that(1)] that(2) by simp
qed

interpretation pop_call: bounded_calls "spsc_step cap" producer "\<lambda>s. consumer s \<noteq> CIdle" "\<lambda>s. pop_left (consumer s)" for cap
proof
  show "pop_left (consumer t) < pop_left (consumer s)"
    if "spsc_step cap s t" "producer t = producer s" "consumer s \<noteq> CIdle" for s t :: "'a spsc_sys"
    using that by cases (simp_all add: pop_left_def)
  show "pop_left (consumer t) \<le> pop_left (consumer s)" if "spsc_step cap s t" "producer t \<noteq> producer s" for s t :: "'a spsc_sys"
    using spsc_one_moves [OF that(1)] that(2) by simp
qed

text \<open>A thread in a call is never blocked.\<close>

lemma spsc_push_enabled:
  assumes k: "is_pow2 cap k" and inv: "spsc_sys_inv cap s" and pc: "producer s \<noteq> PIdle"
  shows "\<exists>t. spsc_step cap s t \<and> consumer t = consumer s"
proof (cases "producer s")
  case (PLoadTail x h)
  have "seen_tail s \<le> n_tail s" using inv by (simp add: spsc_sys_defs)
  with p_full [OF PLoadTail, of "n_tail s"] p_room [OF PLoadTail, of "n_tail s"] show ?thesis by (cases "h - of_nat (n_tail s) = cap") fastforce+
next
  case (PConstruct x h)
  have "construct_at (m_storage (sys_q s)) (spsc_slot_ptr cap h) x = Inr ((m_storage (sys_q s))[n_head s mod unat cap := Some x])"
    using spsc_construct_ok(1,2) [OF k inv PConstruct] by simp
  from p_construct [OF PConstruct this] show ?thesis by fastforce
next
  case (PPublish x h)
  with p_publish [OF this, of cap] show ?thesis by fastforce
qed (use pc inv in \<open>simp_all add: spsc_sys_defs\<close>)

lemma spsc_pop_enabled:
  assumes k: "is_pow2 cap k" and inv: "spsc_sys_inv cap s" and pc: "consumer s \<noteq> CIdle"
  shows "\<exists>t. spsc_step cap s t \<and> producer t = producer s"
proof (cases "consumer s")
  case (CLoadHead t)
  have "seen_head s \<le> n_head s" using inv by (simp add: spsc_sys_defs)
  with c_empty [OF CLoadHead, of "n_head s"] c_some [OF CLoadHead, of "n_head s"] show ?thesis by (cases "of_nat (n_head s) = t") fastforce+
next
  case (CMove t)
  have "read_at (m_storage (sys_q s)) (spsc_slot_ptr cap t) = Inr (pushed s ! n_tail s)"
    using spsc_front_ok(1,2) [OF k inv disjI1 [OF CMove]] by simp
  from c_move [OF CMove this] show ?thesis by fastforce
next
  case (CDestroy t v)
  have "destroy_at (m_storage (sys_q s)) (spsc_slot_ptr cap t) = Inr ((m_storage (sys_q s))[n_tail s mod unat cap := None])"
    using spsc_front_ok(1,3) [OF k inv disjI2 [OF CDestroy]] by simp
  from c_destroy [OF CDestroy this] show ?thesis by fastforce
next
  case (CPublish t v)
  with c_publish [OF this, of cap] show ?thesis by fastforce
qed (use pc inv in \<open>simp_all add: spsc_sys_defs\<close>)

text \<open>
  C4. Both calls are wait-free. Each step is a step of exactly one thread. In every run that starts
  in a reachable state and during which a call of \<^verbatim>\<open>push\<close> does not return, its thread makes at
  most three more steps of its own, and a call of \<^verbatim>\<open>pop\<close> at most four (the step that starts the
  call comes on top), however the other thread moves; and a thread in a call always has a step of
  its own to make, so after that many it has returned. A call that finds room, or an element,
  succeeds: from every reachable state an idle producer that finds the
  ring not full inserts in four steps, and an idle consumer that finds it not
  empty delivers the oldest element in five, whatever the other thread is in the middle of
  and without it taking a step.
\<close>

theorem spsc_wait_free:
  assumes "is_pow2 cap k" "reach (spsc_sys_init cap) (spsc_step cap) s"
  shows "(\<forall>t. spsc_step cap s t \<longrightarrow> (producer t = producer s \<longleftrightarrow> consumer t \<noteq> consumer s)) \<and>
    (\<forall>ss. is_run (spsc_step cap) (s # ss) \<and> list_all (\<lambda>u. producer u \<noteq> PIdle) (butlast (s # ss)) \<longrightarrow>
      own_steps consumer (s # ss) \<le> 3) \<and>
    (\<forall>ss. is_run (spsc_step cap) (s # ss) \<and> list_all (\<lambda>u. consumer u \<noteq> CIdle) (butlast (s # ss)) \<longrightarrow>
      own_steps producer (s # ss) \<le> 4) \<and>
    (producer s \<noteq> PIdle \<longrightarrow> (\<exists>t. spsc_step cap s t \<and> consumer t = consumer s)) \<and>
    (consumer s \<noteq> CIdle \<longrightarrow> (\<exists>t. spsc_step cap s t \<and> producer t = producer s)) \<and>
    (producer s = PIdle \<and> length (pushed s) < length (popped s) + unat cap \<longrightarrow>
      (\<exists>t. (spsc_step cap ^^ 4) s t \<and> pushed t = pushed s @ [x] \<and> producer t = PIdle \<and>
           consumer t = consumer s)) \<and>
    (consumer s = CIdle \<and> length (popped s) < length (pushed s) \<longrightarrow>
      (\<exists>t. (spsc_step cap ^^ 5) s t \<and> popped t = popped s @ [pushed s ! length (popped s)] \<and>
           consumer t = CIdle \<and> producer t = producer s))"
proof -
  have inv: "spsc_sys_inv cap s" using assms by (rule spsc_reach_inv)
  then have "length (pushed s) = n_head s" "length (popped s) = n_tail s"
    by (auto simp: spsc_sys_inv_def spsc_counts_ok_def)
  then have solo: "producer s = PIdle \<and> length (pushed s) < length (popped s) + unat cap \<longrightarrow>
      (\<exists>t. (spsc_step cap ^^ 4) s t \<and> pushed t = pushed s @ [x] \<and> producer t = PIdle \<and> consumer t = consumer s)"
    "consumer s = CIdle \<and> length (popped s) < length (pushed s) \<longrightarrow>
      (\<exists>t. (spsc_step cap ^^ 5) s t \<and> popped t = popped s @ [pushed s ! length (popped s)] \<and> consumer t = CIdle \<and> producer t = producer s)"
    using spsc_solo_push [OF assms(1) inv, of x] spsc_solo_pop [OF assms(1) inv] by auto
  have left: "push_left (producer s) \<le> 3" "pop_left (consumer s) \<le> 4"
    by (simp_all add: push_left_def pop_left_def split: spsc_producer.split spsc_consumer.split)
  have "own_steps consumer (s # ss) \<le> 3" if "is_run (spsc_step cap) (s # ss)" "list_all (\<lambda>u. producer u \<noteq> PIdle) (butlast (s # ss))" for ss
    using push_call.own_steps_bound [OF that] left(1) by (rule order_trans)
  moreover have "own_steps producer (s # ss) \<le> 4" if "is_run (spsc_step cap) (s # ss)" "list_all (\<lambda>u. consumer u \<noteq> CIdle) (butlast (s # ss))" for ss
    using pop_call.own_steps_bound [OF that] left(2) by (rule order_trans)
  ultimately show ?thesis
    using solo spsc_one_moves spsc_push_enabled [OF assms(1) inv] spsc_pop_enabled [OF assms(1) inv] by blast
qed

theorem spsc_wait_free_witness:
  "\<exists>(s :: int spsc_sys) t. reach (spsc_sys_init 4) (spsc_step 4) s \<and> (spsc_step 4 ^^ 4) s t \<and>
     pushed s = [] \<and> pushed t = [7]"
proof -
  obtain s :: "int spsc_sys" where r: "reach (spsc_sys_init 4) (spsc_step 4) s"
    and i: "spsc_sys_init 4 s"
    using spsc_init_reach by blast
  from i have "producer s = PIdle \<and> length (pushed s) < length (popped s) + unat (4 :: u64_t)"
      "pushed s = []"
    by (auto simp: spsc_sys_init_def)
  with spsc_wait_free [OF spsc_new_pow2_4 r, of 7] r show ?thesis
    by (metis append_Nil)
qed

lemma and_pred_unat: "c AND (c - 1) = (0 :: u64_t) \<Longrightarrow> c \<noteq> 0 \<Longrightarrow> unat c AND (unat c - 1) = 0"
  by (metis unsigned_and_eq unat_0 unat_minus_one)

text \<open>
  The compile-time check of the capacity. \<^verbatim>\<open>(CapacityPow2 & (CapacityPow2 - 1)) == 0\<close>
  accepts exactly the 64 powers of two and, besides, zero, although its message asks for a
  power of two; a queue of capacity zero refuses every push and stays empty.
\<close>

theorem spsc_static_assert_exact:
  "(spsc_static_assert c \<longleftrightarrow> c = 0 \<or> (\<exists>k. is_pow2 c k)) \<and>
   spsc_push 0 (spsc_new 0) x = Inr (False, spsc_new 0)"
proof
  have "\<exists>k. is_pow2 c k" if c: "c AND (c - 1) = 0" "c \<noteq> 0"
  proof -
    obtain k where k: "unat c = 2 ^ k"
      using nat_and_pred_zero [OF _ and_pred_unat [OF c]] c(2) by (auto simp: unat_gt_0)
    have "(2 :: nat) ^ k < 2 ^ 64" using unsigned_less [of c] by (simp flip: k)
    then have "k < 64" by (rule power_less_imp_less_exp [rotated]) simp
    moreover have "of_nat (unat c) = (2 ^ k :: u64_t)" by (simp only: k of_nat_power of_nat_numeral)
    ultimately show ?thesis by (auto simp: is_pow2_def)
  qed
  moreover have "c AND (c - 1) = 0" if "is_pow2 c k" for k
    using that by (simp add: mask_pow2) (simp add: is_pow2_def take_bit_eq_mod flip: take_bit_eq_mask)
  ultimately show "spsc_static_assert c \<longleftrightarrow> c = 0 \<or> (\<exists>k. is_pow2 c k)"
    by (auto simp: spsc_static_assert_def)
  show "spsc_push 0 (spsc_new 0) x = Inr (False, spsc_new 0)"
    by (simp add: spsc_push_def spsc_emplace_def spsc_new_def)
qed

lemma move_elements_upt:
  "length out \<le> length p \<Longrightarrow> i \<le> length out \<Longrightarrow> take i out = take i p \<Longrightarrow>
   spsc_move_elements [i..<n] p out =
     (if n \<le> length out then Inr (take (max i n) p @ drop (max i n) out) else Inl OutOfBounds)"
proof (induction "n - i" arbitrary: i out)
  case 0
  then have "[i..<n] = []" "max i n = i" by simp_all
  with 0 show ?case by (metis append_take_drop_id max.absorb_iff1 spsc_move_elements.simps(1) max.cobounded2 order_trans)
next
  case (Suc d)
  then have r: "[i..<n] = i # [Suc i..<n]" by (simp add: upt_rec)
  show ?case
  proof (cases "i < length out")
    case True
    have "take (Suc i) (out[i := p ! i]) = take (Suc i) p"
      using True Suc.prems by (simp add: take_Suc_conv_app_nth)
    with Suc.hyps(1) [of "Suc i" "out[i := p ! i]"] Suc.hyps(2) Suc.prems True show ?thesis by (simp add: r)
  next
    case False
    with Suc.hyps(2) Suc.prems(2) have "\<not> n \<le> length out" by simp
    with False show ?thesis unfolding r by simp
  qed
qed

text \<open>
  Popping an array. The loop counts bytes where it should count elements: it copies the array
  when an element is one byte long and runs past its end otherwise.
\<close>

theorem spsc_pop_array_exact:
  assumes "out \<noteq> []" and "length out \<le> length p" and "0 < sizeof_ElementT"
  shows "spsc_pop_array sizeof_ElementT p out =
    (if sizeof_ElementT = 1 then Inr (take (length out) p) else Inl OutOfBounds)"
  using assms move_elements_upt [of out p 0 "length out * sizeof_ElementT"] by (auto simp: spsc_pop_array_def)

theorem spsc_pop_array_exact_witness:
  "spsc_pop_array 4 [1 :: int, 2, 3, 4] [0, 0] = Inl OutOfBounds \<and> spsc_pop_array 1 [1 :: int, 2, 3, 4] [0, 0] = Inr [1, 2]"
  using spsc_pop_array_exact [of "[0 :: int, 0]" "[1, 2, 3, 4]" 4] spsc_pop_array_exact [of "[0 :: int, 0]" "[1, 2, 3, 4]" 1] by simp

end
