(* ===== verification/Queue_Example.thy ===== *)
theory Queue_Example
  imports SPSC_Queue Complex_Main
begin

text \<open>
  The program of \<^verbatim>\<open>examples/spsc_queue_example.cc\<close>, a client of the single-producer queue: a thread
  inserts the numbers below 100000 and repeats each call that is refused, another removes elements
  until it has counted 100000 of them. It runs on the steps of \<^verbatim>\<open>SPSC_Queue\<close>. The numbers are small
  enough for a \<^verbatim>\<open>double\<close> to hold them exactly.
\<close>

section \<open>The program\<close>

definition EXAMPLE_N :: u64_t where
  "EXAMPLE_N = push_bit 10 1 div 8"

record example =
  ex_q :: "real spsc_sys"
  ex_i :: int
  cnt :: u64_t

definition example_start :: "example \<Rightarrow> bool" where
  "example_start e \<longleftrightarrow> spsc_sys_init EXAMPLE_N (ex_q e) \<and> ex_i e = 0 \<and> cnt e = 0"

text \<open>A call of \<^verbatim>\<open>emplace\<close> or \<^verbatim>\<open>pop\<close> returns true with its last step.\<close>

definition emplaced :: "'a spsc_sys \<Rightarrow> 'a spsc_sys \<Rightarrow> bool" where
  "emplaced s t \<longleftrightarrow> (case producer s of PPublish _ _ \<Rightarrow> producer t = PIdle | _ \<Rightarrow> False)"

definition took :: "'a spsc_sys \<Rightarrow> 'a spsc_sys \<Rightarrow> bool" where
  "took s t \<longleftrightarrow> (case consumer s of CPublish _ _ \<Rightarrow> consumer t = CIdle | _ \<Rightarrow> False)"

text \<open>Which calls the two loops make: their conditions, and the argument of \<^verbatim>\<open>emplace\<close>.\<close>

definition example_calls :: "example \<Rightarrow> real spsc_sys \<Rightarrow> bool" where
  "example_calls e q \<longleftrightarrow>
     (producer (ex_q e) = PIdle \<longrightarrow>
        (case producer q of PIdle \<Rightarrow> True | PLoadTail x _ \<Rightarrow> ex_i e < 100000 \<and> x = of_int (ex_i e) | _ \<Rightarrow> False)) \<and>
     (consumer (ex_q e) = CIdle \<longrightarrow> consumer q = CIdle \<or> cnt e < 100000)"

definition example_after :: "example \<Rightarrow> real spsc_sys \<Rightarrow> example" where
  "example_after e q =
     \<lparr>ex_q = q, ex_i = (if emplaced (ex_q e) q then ex_i e + 1 else ex_i e),
      cnt = (if took (ex_q e) q then cnt e + 1 else cnt e)\<rparr>"

inductive example_step :: "example \<Rightarrow> example \<Rightarrow> bool" where
  ex_queue: "spsc_step EXAMPLE_N (ex_q e) q \<Longrightarrow> example_calls e q \<Longrightarrow> example_step e (example_after e q)"

inductive_cases example_step_elim: "example_step e e'"

text \<open>Both loops are left and both threads can be joined.\<close>

definition joined :: "example \<Rightarrow> bool" where
  "joined e \<longleftrightarrow> producer (ex_q e) = PIdle \<and> \<not> ex_i e < 100000 \<and> consumer (ex_q e) = CIdle \<and> \<not> cnt e < 100000"

definition example_output :: "example \<Rightarrow> string" where
  "example_output e = ''Got: '' @ show_nat (unat (cnt e)) @ '' items'' @ [CHR 0x0A]"

section \<open>Invariant\<close>

definition arg_ok :: "example \<Rightarrow> bool" where
  "arg_ok e \<longleftrightarrow>
     (case producer (ex_q e) of
        PLoadTail x _ \<Rightarrow> ex_i e < 100000 \<and> x = of_int (ex_i e)
      | PConstruct x _ \<Rightarrow> ex_i e < 100000 \<and> x = of_int (ex_i e)
      | PPublish x _ \<Rightarrow> ex_i e < 100000 \<and> x = of_int (ex_i e)
      | _ \<Rightarrow> True)"

definition example_inv :: "example \<Rightarrow> bool" where
  "example_inv e \<longleftrightarrow> spsc_sys_inv EXAMPLE_N (ex_q e) \<and> arg_ok e \<and> 0 \<le> ex_i e \<and> ex_i e \<le> 100000 \<and>
     pushed (ex_q e) = map real [0..<nat (ex_i e)] \<and> cnt e = of_nat (n_tail (ex_q e)) \<and>
     (consumer (ex_q e) \<noteq> CIdle \<longrightarrow> n_tail (ex_q e) < 100000)"

lemma example_pow2: "is_pow2 EXAMPLE_N 7"
  by (simp add: is_pow2_def EXAMPLE_N_def)

lemma example_counts:
  assumes "example_inv e"
  shows "n_tail (ex_q e) \<le> n_head (ex_q e)" "n_head (ex_q e) = nat (ex_i e)" "n_head (ex_q e) \<le> 100000"
    "cnt e < 100000 \<longleftrightarrow> n_tail (ex_q e) < 100000" "unat (cnt e) = n_tail (ex_q e)"
proof -
  let ?q = "ex_q e"
  have c: "n_tail ?q \<le> n_head ?q" "length (pushed ?q) = n_head ?q" using assms by (auto simp: example_inv_def spsc_sys_defs)
  show "n_tail ?q \<le> n_head ?q" "n_head ?q = nat (ex_i e)" "n_head ?q \<le> 100000" using c assms by (auto simp: example_inv_def)
  then have "n_tail ?q < 2 ^ 64" by simp
  then show "unat (cnt e) = n_tail ?q" using assms by (simp add: example_inv_def unsigned_of_nat take_bit_eq_mod)
  then show "cnt e < 100000 \<longleftrightarrow> n_tail ?q < 100000" by (simp add: word_less_nat_alt)
qed

lemma example_inv_step:
  assumes "example_inv e" "example_step e e'"
  shows "example_inv e'"
proof -
  obtain q where q: "spsc_step EXAMPLE_N (ex_q e) q" "example_calls e q" and e': "e' = example_after e q"
    using assms(2) by (auto elim: example_step_elim)
  have inv: "spsc_sys_inv EXAMPLE_N q" using spsc_sys_inv_step [OF example_pow2 q(1)] assms(1) by (simp add: example_inv_def)
  have up: "[0..<nat (ex_i e + 1)] = [0..<nat (ex_i e)] @ [nat (ex_i e)]" "real (nat (ex_i e)) = of_int (ex_i e)"
    using assms(1) by (simp_all add: example_inv_def nat_add_distrib)
  show ?thesis
    using q(1) assms(1) q(2) inv example_counts [OF assms(1)] up unfolding e'
    by cases (auto simp: example_inv_def example_after_def emplaced_def took_def arg_ok_def example_calls_def
        split: spsc_producer.splits spsc_consumer.splits)
qed

interpretation example: inductive_invariant example_start example_step example_inv
proof
  show "example_inv e" if "example_start e" for e
    using that spsc_sys_inv_init [of EXAMPLE_N "ex_q e"]
    by (auto simp: example_start_def example_inv_def spsc_sys_init_def arg_ok_def)
qed (rule example_inv_step)

section \<open>Progress\<close>

text \<open>The steps of both threads that remain when no call is refused.\<close>

definition example_rank :: "example \<Rightarrow> nat" where
  "example_rank e =
     4 * nat (100000 - ex_i e) +
       (case producer (ex_q e) of PIdle \<Rightarrow> 4 | PLoadTail _ _ \<Rightarrow> 3 | PConstruct _ _ \<Rightarrow> 2 | PPublish _ _ \<Rightarrow> 1 | PFault _ \<Rightarrow> 0) +
     5 * (100000 - n_tail (ex_q e)) +
       (case consumer (ex_q e) of CIdle \<Rightarrow> 5 | CLoadHead _ \<Rightarrow> 4 | CMove _ \<Rightarrow> 3 | CDestroy _ _ \<Rightarrow> 2 | CPublish _ _ \<Rightarrow> 1 | CFault _ \<Rightarrow> 0)"

lemma example_advance:
  assumes "example_inv e" "spsc_step EXAMPLE_N (ex_q e) q" "example_calls e q" "example_rank (example_after e q) < example_rank e"
  shows "\<exists>e'. example_step e e' \<and> example_inv e' \<and> example_rank e' < example_rank e"
  using assms example_inv_step [OF assms(1)] ex_queue [OF assms(2,3)] by blast

lemmas example_defs = example_after_def example_calls_def example_rank_def emplaced_def took_def

text \<open>A producer with room for its element comes one step further, and so does a consumer with an element to take.\<close>

lemma example_producer:
  assumes e: "example_inv e" and room: "producer (ex_q e) = PIdle \<longrightarrow> ex_i e < 100000"
    "(\<exists>x h. producer (ex_q e) = PLoadTail x h) \<longrightarrow> n_head (ex_q e) < n_tail (ex_q e) + unat EXAMPLE_N"
  shows "\<exists>e'. example_step e e' \<and> example_inv e' \<and> example_rank e' < example_rank e"
proof -
  let ?q = "ex_q e"
  have inv: "spsc_sys_inv EXAMPLE_N ?q" and arg: "arg_ok e" using e by (simp_all add: example_inv_def)
  show ?thesis
  proof (cases "producer ?q")
    case PIdle
    with room(1) show ?thesis
      by (intro example_advance [OF e spsc_step.p_load_head [where x = "of_int (ex_i e)"]]) (auto simp: example_defs)
  next
    case (PLoadTail x h)
    have "h - of_nat (n_tail ?q) \<noteq> EXAMPLE_N" "seen_tail ?q \<le> n_tail ?q"
      using spsc_sys_inv_producer [OF example_pow2 inv PLoadTail, of "n_tail ?q"] room(2) PLoadTail inv by (auto simp: spsc_sys_defs)
    with PLoadTail show ?thesis
      by (intro example_advance [OF e spsc_step.p_room [where t = "n_tail ?q"]]) (auto simp: example_defs)
  next
    case (PConstruct x h)
    with spsc_construct_ok [OF example_pow2 inv this] show ?thesis
      by (intro example_advance [OF e spsc_step.p_construct]) (auto simp: example_defs)
  next
    case (PPublish x h)
    with arg show ?thesis by (intro example_advance [OF e spsc_step.p_publish]) (auto simp: example_defs arg_ok_def)
  next
    case (PFault u)
    with inv show ?thesis by (simp add: spsc_sys_defs)
  qed
qed

lemma example_consumer:
  assumes e: "example_inv e" and some: "n_tail (ex_q e) < n_head (ex_q e)"
  shows "\<exists>e'. example_step e e' \<and> example_inv e' \<and> example_rank e' < example_rank e"
proof -
  let ?q = "ex_q e"
  have inv: "spsc_sys_inv EXAMPLE_N ?q" using e by (simp add: example_inv_def)
  have lt: "n_tail ?q < 100000" "cnt e < 100000" using example_counts [OF e] some by auto
  show ?thesis
  proof (cases "consumer ?q")
    case CIdle
    with lt show ?thesis by (intro example_advance [OF e spsc_step.c_load_tail]) (auto simp: example_defs)
  next
    case (CLoadHead t)
    have "of_nat (n_head ?q) \<noteq> t" "seen_head ?q \<le> n_head ?q"
      using spsc_sys_inv_consumer [OF example_pow2 inv CLoadHead, of "n_head ?q"] some inv by (auto simp: spsc_sys_defs)
    with CLoadHead show ?thesis
      by (intro example_advance [OF e spsc_step.c_some [where h = "n_head ?q"]]) (auto simp: example_defs)
  next
    case (CMove t)
    with spsc_front_ok [OF example_pow2 inv disjI1 [OF this]] show ?thesis
      by (intro example_advance [OF e spsc_step.c_move]) (auto simp: example_defs)
  next
    case (CDestroy t v)
    with spsc_front_ok [OF example_pow2 inv disjI2 [OF this]] show ?thesis
      by (intro example_advance [OF e spsc_step.c_destroy]) (auto simp: example_defs)
  next
    case (CPublish t v)
    with lt show ?thesis by (intro example_advance [OF e spsc_step.c_publish]) (auto simp: example_defs)
  next
    case (CFault u)
    with inv show ?thesis by (simp add: spsc_sys_defs)
  qed
qed

interpretation example_end: helpful_system example_step example_inv example_rank joined
proof
  fix e assume e: "example_inv e" "\<not> joined e"
  show "\<exists>e'. example_step e e' \<and> example_inv e' \<and> example_rank e' < example_rank e"
  proof (cases "n_tail (ex_q e) < n_head (ex_q e)")
    case True
    with e(1) show ?thesis by (rule example_consumer)
  next
    case False
    have cap: "0 < unat EXAMPLE_N" by (simp add: EXAMPLE_N_def)
    have "producer (ex_q e) = PIdle \<longrightarrow> ex_i e < 100000"
      using e False example_counts [OF e(1)] by (auto simp: joined_def example_inv_def)
    with False cap example_producer [OF e(1)] show ?thesis by auto
  qed
qed

lemma example_rank_le: "example_inv e \<Longrightarrow> example_rank e \<le> 900009"
  by (auto simp: example_rank_def example_inv_def split: spsc_producer.splits spsc_consumer.splits)

lemma show_100000: "show_nat 100000 = ''100000''"
  by (simp add: show_nat.simps char_of_def bit_0 bit_Suc)

section \<open>Properties\<close>

text \<open>
  C5. The example delivers everything and can always finish. Whatever the two threads have done
  so far, the consumer has received an initial part of the numbers 0 to 99999 in order, and the
  program can still end, within 900009 further steps of its threads; when both threads have ended, the
  consumer has received exactly those numbers and the program prints that it got 100000 items.\<close>

theorem example_complete:
  assumes "reach example_start example_step e"
  shows "popped (ex_q e) = map real [0..<unat (cnt e)] \<and> unat (cnt e) \<le> 100000 \<and>
    (\<exists>n\<le>900009. \<exists>e'. (example_step ^^ n) e e' \<and> joined e') \<and>
    (joined e \<longrightarrow> popped (ex_q e) = map real [0..<100000] \<and> example_output e = ''Got: 100000 items'' @ [CHR 0x0A])"
proof -
  have inv: "example_inv e" using assms by (rule example.reach_inv)
  note c = example_counts [OF inv]
  have "popped (ex_q e) = take (n_tail (ex_q e)) (map real [0..<nat (ex_i e)])" using inv by (simp add: example_inv_def spsc_sys_defs)
  then have p: "popped (ex_q e) = map real [0..<unat (cnt e)]" using c by (simp add: take_map take_upt)
  have j: "unat (cnt e) = 100000" if "joined e" using that c by (auto simp: joined_def)
  have "\<exists>n\<le>900009. \<exists>e'. (example_step ^^ n) e e' \<and> joined e'"
    using example_end.reaches_goal [OF inv] example_rank_le [OF inv] order_trans by blast
  with p j c show ?thesis by (auto simp: example_output_def show_100000)
qed

theorem example_complete_witness:
  "\<exists>e. reach example_start example_step e \<and> popped (ex_q e) = [] \<and> (\<exists>n\<le>900009. \<exists>e'. (example_step ^^ n) e e' \<and> joined e')"
proof -
  obtain q :: "real spsc_sys" where q: "spsc_sys_init EXAMPLE_N q" by (auto simp: spsc_sys_init_def)
  let ?e = "\<lparr>ex_q = q, ex_i = 0, cnt = 0\<rparr>"
  have "reach example_start example_step ?e" by (rule reach_init) (simp add: example_start_def q)
  with example_complete [OF this] show ?thesis by (intro exI [of _ ?e]) simp
qed

end
