(* ===== verification/MPSC_Queue.thy ===== *)
theory MPSC_Queue
  imports Ring_Buffer
begin

text \<open>
  \<^verbatim>\<open>include/fiah/structs/MPSCQueue.hh\<close>: the lock-free multi-producer single-consumer
  queue with a ready flag per slot. First the two member functions as one thread sees them
  (the compare-exchange loop included) and their refinement of a bounded FIFO, then any
  number of producers and one consumer interleaved at every atomic access.
\<close>

section \<open>The class\<close>

text \<open>The concept \<^verbatim>\<open>size_pow2\<close> on the template argument.\<close>

definition popcount :: "sz_t \<Rightarrow> nat" where
  "popcount w = length (filter (bit w) [0..<64])"

definition size_pow2 :: "sz_t \<Rightarrow> bool" where
  "size_pow2 SIZE \<longleftrightarrow> popcount SIZE = 1"

record 'a mp_slot =
  slot_data :: "'a option"
  slot_ready :: bool

record 'a mpsc =
  mp_head :: sz_t
  mp_tail :: sz_t
  mp_array :: "'a mp_slot list"

definition mpsc_new :: "sz_t \<Rightarrow> 'a mpsc" where
  "mpsc_new SIZE =
     \<lparr>mp_head = 0, mp_tail = 0,
      mp_array = replicate (unat SIZE) \<lparr>slot_data = None, slot_ready = False\<rparr>\<rparr>"

text \<open>
  \<^verbatim>\<open>compare_exchange_weak\<close> on the stored value: it may fail spuriously, and a failure
  replaces the expected value by the one found.
\<close>

definition cas_weak :: "bool \<Rightarrow> sz_t \<Rightarrow> sz_t \<Rightarrow> sz_t \<Rightarrow> bool \<times> sz_t \<times> sz_t" where
  "cas_weak spurious stored expected desired =
     (if \<not> spurious \<and> stored = expected then (True, desired, expected) else (False, stored, stored))"

definition mpsc_backoff :: "sz_t \<Rightarrow> sz_t" where
  "mpsc_backoff backoff_counter = min (push_bit 1 backoff_counter) 64"

text \<open>
  The loop of \<^verbatim>\<open>try_push\<close> that claims a ticket. The list says which of its
  compare-exchanges fail spuriously; running out of it is \<open>None\<close>. Otherwise the result is
  the claimed ticket, if there was room, and the backoff counter reached.
\<close>

fun mpsc_claim :: "sz_t \<Rightarrow> 'a mpsc \<Rightarrow> sz_t \<Rightarrow> sz_t \<Rightarrow> bool list \<Rightarrow> (sz_t option \<times> sz_t \<times> 'a mpsc) option" where
  "mpsc_claim SIZE q tail backoff_counter [] = None"
| "mpsc_claim SIZE q tail backoff_counter (spurious # rest) =
     (let head = mp_head q in
      if SIZE \<le> tail - head then Some (None, backoff_counter, q)
      else case cas_weak spurious (mp_tail q) tail (tail + 1) of
             (True, stored, _) \<Rightarrow> Some (Some tail, backoff_counter, q\<lparr>mp_tail := stored\<rparr>)
           | (False, stored, expected) \<Rightarrow>
               mpsc_claim SIZE (q\<lparr>mp_tail := stored\<rparr>) expected (mpsc_backoff backoff_counter) rest)"

definition slot_construct :: "'a mp_slot list \<Rightarrow> nat \<Rightarrow> 'a \<Rightarrow> 'a mp_slot list res" where
  "slot_construct arr i x =
     (if i < length arr
      then (case slot_data (arr ! i) of
              None \<Rightarrow> Inr (arr[i := (arr ! i)\<lparr>slot_data := Some x\<rparr>])
            | Some _ \<Rightarrow> Inl LiveObject)
      else Inl OutOfBounds)"

definition slot_set_ready :: "'a mp_slot list \<Rightarrow> nat \<Rightarrow> bool \<Rightarrow> 'a mp_slot list" where
  "slot_set_ready arr i b = arr[i := (arr ! i)\<lparr>slot_ready := b\<rparr>]"

definition slot_read :: "'a mp_slot list \<Rightarrow> nat \<Rightarrow> 'a res" where
  "slot_read arr i =
     (if i < length arr
      then (case slot_data (arr ! i) of None \<Rightarrow> Inl DeadObject | Some x \<Rightarrow> Inr x)
      else Inl OutOfBounds)"

definition slot_destroy :: "'a mp_slot list \<Rightarrow> nat \<Rightarrow> 'a mp_slot list res" where
  "slot_destroy arr i =
     (if i < length arr
      then (case slot_data (arr ! i) of
              None \<Rightarrow> Inl DeadObject
            | Some _ \<Rightarrow> Inr (arr[i := (arr ! i)\<lparr>slot_data := None\<rparr>]))
      else Inl OutOfBounds)"

definition mpsc_try_push :: "sz_t \<Rightarrow> bool list \<Rightarrow> 'a mpsc \<Rightarrow> 'a \<Rightarrow> (bool \<times> 'a mpsc) option res" where
  "mpsc_try_push SIZE spurious q x =
     (case mpsc_claim SIZE q (mp_tail q) 1 spurious of
        None \<Rightarrow> Inr None
      | Some (None, _, q') \<Rightarrow> Inr (Some (False, q'))
      | Some (Some tail, _, q') \<Rightarrow>
          let i = ring_idx SIZE tail in
          bind_res (slot_construct (mp_array q') i x) (\<lambda>arr.
            Inr (Some (True, q'\<lparr>mp_array := slot_set_ready arr i True\<rparr>))))"

definition mpsc_try_pop :: "sz_t \<Rightarrow> 'a mpsc \<Rightarrow> ('a option \<times> 'a mpsc) res" where
  "mpsc_try_pop SIZE q =
     (let head = mp_head q; i = ring_idx SIZE head in
      if \<not> slot_ready (mp_array q ! i) then Inr (None, q)
      else bind_res (slot_read (mp_array q) i) (\<lambda>out.
           bind_res (slot_destroy (mp_array q) i) (\<lambda>arr.
             Inr (Some out, q\<lparr>mp_array := slot_set_ready arr i False, mp_head := head + 1\<rparr>))))"

section \<open>Claiming a ticket alone\<close>

lemma mpsc_backoff_bounds:
  assumes "1 \<le> unat b" "unat b \<le> 64"
  shows "1 \<le> unat (mpsc_backoff b) \<and> unat (mpsc_backoff b) \<le> 64"
proof -
  have eq: "push_bit 1 b = of_nat (2 * unat b)"
    by (simp add: push_bit_eq_mult)
  have "2 * unat b < 2 ^ 64" using assms(2) by simp
  then have "unat (push_bit 1 b) = 2 * unat b"
    by (simp only: eq unat_of_nat_u64 mod_less)
  with assms show ?thesis
    by (auto simp: mpsc_backoff_def min_def word_le_nat_alt)
qed

text \<open>With no other thread the loop ends at the first compare-exchange that does not fail spuriously.\<close>

lemma mpsc_claim_alone:
  assumes "1 \<le> unat b" "unat b \<le> 64"
  shows "\<exists>b'. 1 \<le> unat b' \<and> unat b' \<le> 64 \<and>
    mpsc_claim SIZE q (mp_tail q) b (replicate n True @ False # rest) =
      Some (if SIZE \<le> mp_tail q - mp_head q then (None, b', q)
            else (Some (mp_tail q), b', q\<lparr>mp_tail := mp_tail q + 1\<rparr>))"
  using assms
proof (induction n arbitrary: b)
  case 0
  then show ?case by (auto simp: cas_weak_def Let_def)
next
  case (Suc n)
  show ?case
  proof (cases "SIZE \<le> mp_tail q - mp_head q")
    case True
    with Suc.prems show ?thesis by auto
  next
    case False
    with Suc.IH [of "mpsc_backoff b"] mpsc_backoff_bounds [OF Suc.prems] show ?thesis
      by (simp add: cas_weak_def Let_def)
  qed
qed

section \<open>Representation of a list\<close>

definition mpsc_rep :: "sz_t \<Rightarrow> 'a mpsc \<Rightarrow> nat \<Rightarrow> 'a list \<Rightarrow> bool" where
  "mpsc_rep SIZE q h xs \<longleftrightarrow>
     mp_head q = of_nat h \<and> mp_tail q = of_nat (h + length xs) \<and>
     ring_holds (unat SIZE) (map slot_data (mp_array q)) h xs \<and>
     (\<forall>sl\<in>set (mp_array q). slot_ready sl \<longleftrightarrow> slot_data sl \<noteq> None)"

definition mpsc_inv :: "sz_t \<Rightarrow> 'a mpsc \<Rightarrow> bool" where
  "mpsc_inv SIZE q \<longleftrightarrow> (\<exists>k. is_pow2 SIZE k) \<and> (\<exists>h xs. mpsc_rep SIZE q h xs)"

definition mpsc_contents :: "sz_t \<Rightarrow> 'a mpsc \<Rightarrow> 'a list" where
  "mpsc_contents SIZE q =
     map (\<lambda>i. the (slot_data (mp_array q ! ring_idx SIZE (mp_head q + of_nat i))))
       [0..<unat (mp_tail q - mp_head q)]"

lemma mpsc_rep_diff:
  assumes "is_pow2 SIZE k" "mpsc_rep SIZE q h xs"
  shows "unat (mp_tail q - mp_head q) = length xs"
proof -
  have "length xs \<le> unat SIZE" using assms(2) by (simp add: mpsc_rep_def ring_holds_def)
  then have "length xs < 2 ^ 64" using pow2_le [OF assms(1)] by simp
  then show ?thesis
    using assms(2) unat_count_diff [of h "h + length xs"] by (simp add: mpsc_rep_def)
qed

lemma mpsc_rep_contents:
  assumes "is_pow2 SIZE k" "mpsc_rep SIZE q h xs"
  shows "mpsc_contents SIZE q = xs"
proof (rule nth_equalityI)
  show len: "length (mpsc_contents SIZE q) = length xs"
    using assms by (simp add: mpsc_contents_def mpsc_rep_diff)
  fix i assume "i < length (mpsc_contents SIZE q)"
  with len have i: "i < length xs" by simp
  have ring: "ring_holds (unat SIZE) (map slot_data (mp_array q)) h xs"
    using assms(2) by (simp add: mpsc_rep_def)
  have "mp_head q + of_nat i = of_nat (h + i)"
    using assms(2) by (simp add: mpsc_rep_def)
  then have idx: "ring_idx SIZE (mp_head q + of_nat i) = (h + i) mod unat SIZE"
    using assms(1) by (simp only: ring_idx_of_nat)
  have "(h + i) mod unat SIZE < length (mp_array q)"
    using ring pow2_pos [OF assms(1)] by (simp add: ring_holds_def)
  moreover have "i < unat SIZE" using ring i by (simp add: ring_holds_def)
  ultimately have "slot_data (mp_array q ! ((h + i) mod unat SIZE)) = Some (xs ! i)"
    using ring_holds_slot [OF ring, of i] i by simp
  with idx i show "mpsc_contents SIZE q ! i = xs ! i"
    using assms by (simp add: mpsc_contents_def mpsc_rep_diff)
qed

lemma mpsc_invI:
  "is_pow2 SIZE k \<Longrightarrow> mpsc_rep SIZE q h xs \<Longrightarrow> mpsc_inv SIZE q \<and> mpsc_contents SIZE q = xs"
  by (auto simp: mpsc_inv_def mpsc_rep_contents [of SIZE k])

lemma mpsc_inv_rep:
  assumes "mpsc_inv SIZE q"
  obtains k h where "is_pow2 SIZE k" "mpsc_rep SIZE q h (mpsc_contents SIZE q)"
proof -
  from assms obtain k h xs where k: "is_pow2 SIZE k" and rep: "mpsc_rep SIZE q h xs"
    by (auto simp: mpsc_inv_def)
  moreover have "mpsc_contents SIZE q = xs" using k rep by (rule mpsc_rep_contents)
  ultimately show thesis using that by blast
qed

lemma mpsc_inv_new:
  assumes "is_pow2 SIZE k"
  shows "mpsc_inv SIZE (mpsc_new SIZE)"
proof -
  have "mpsc_rep SIZE (mpsc_new SIZE) 0 []"
    by (simp add: mpsc_rep_def mpsc_new_def ring_holds_empty)
  with assms show ?thesis by (auto simp: mpsc_inv_def)
qed

lemma mpsc_contents_new [simp]: "mpsc_contents SIZE (mpsc_new SIZE) = []"
  by (simp add: mpsc_contents_def mpsc_new_def)

text \<open>
  A call of \<^verbatim>\<open>try_push\<close> by the only running thread, whose compare-exchange fails spuriously
  \<open>n\<close> times before it can succeed.
\<close>

definition mpsc_push_alone :: "sz_t \<Rightarrow> nat \<Rightarrow> 'a mpsc \<Rightarrow> 'a \<Rightarrow> (bool \<times> 'a mpsc) res" where
  "mpsc_push_alone SIZE n q x =
     bind_res (mpsc_try_push SIZE (replicate n True @ [False]) q x)
       (\<lambda>r. case r of Some y \<Rightarrow> Inr y | None \<Rightarrow> Inl Trap)"

lemma mpsc_push_alone_full:
  "SIZE \<le> mp_tail q - mp_head q \<Longrightarrow> mpsc_push_alone SIZE n q x = Inr (False, q)"
  using mpsc_claim_alone [of 1 SIZE q n "[]"]
  by (auto simp: mpsc_push_alone_def mpsc_try_push_def)

lemma mpsc_push_alone_room:
  "\<not> SIZE \<le> mp_tail q - mp_head q \<Longrightarrow>
   mpsc_push_alone SIZE n q x =
     bind_res (slot_construct (mp_array q) (ring_idx SIZE (mp_tail q)) x) (\<lambda>arr.
       Inr (True, q\<lparr>mp_tail := mp_tail q + 1,
                    mp_array := slot_set_ready arr (ring_idx SIZE (mp_tail q)) True\<rparr>))"
  using mpsc_claim_alone [of 1 SIZE q n "[]"]
  by (auto simp: mpsc_push_alone_def mpsc_try_push_def bind_res_assoc Let_def)

lemma mpsc_full_iff:
  assumes "is_pow2 SIZE k" "mpsc_rep SIZE q h xs"
  shows "SIZE \<le> mp_tail q - mp_head q \<longleftrightarrow> length xs = unat SIZE"
proof -
  have "length xs \<le> unat SIZE" using assms(2) by (simp add: mpsc_rep_def ring_holds_def)
  with mpsc_rep_diff [OF assms] show ?thesis by (auto simp: word_le_nat_alt)
qed

lemma slot_overwrite: "sl\<lparr>slot_data := d, slot_ready := b\<rparr> = \<lparr>slot_data = d, slot_ready = b\<rparr>"
  by (cases sl) simp

lemma set_update_ready:
  "\<forall>sl\<in>set arr. slot_ready sl \<longleftrightarrow> slot_data sl \<noteq> None \<Longrightarrow> slot_ready sl' \<longleftrightarrow> slot_data sl' \<noteq> None \<Longrightarrow>
   \<forall>sl\<in>set (arr[i := sl']). slot_ready sl \<longleftrightarrow> slot_data sl \<noteq> None"
  using set_update_subset_insert [of arr i sl'] by blast

lemma mpsc_push_rep:
  assumes k: "is_pow2 SIZE k" and rep: "mpsc_rep SIZE q h xs" and room: "length xs < unat SIZE"
  shows "\<exists>q'. mpsc_push_alone SIZE n q x = Inr (True, q') \<and> mpsc_rep SIZE q' h (xs @ [x])"
proof -
  let ?arr = "mp_array q" and ?i = "(h + length xs) mod unat SIZE"
  have ring: "ring_holds (unat SIZE) (map slot_data ?arr) h xs"
    and rdy: "\<forall>sl\<in>set ?arr. slot_ready sl \<longleftrightarrow> slot_data sl \<noteq> None"
    and tail: "mp_tail q = of_nat (h + length xs)"
    using rep by (auto simp: mpsc_rep_def)
  have idx: "ring_idx SIZE (mp_tail q) = ?i"
    using k by (simp only: tail ring_idx_of_nat)
  have bk: "?i < length ?arr" "slot_data (?arr ! ?i) = None"
    using ring_holds_back [OF ring room] by auto
  have arr: "slot_set_ready (?arr[?i := (?arr ! ?i)\<lparr>slot_data := Some x\<rparr>]) ?i True =
      ?arr[?i := \<lparr>slot_data = Some x, slot_ready = True\<rparr>]"
    using bk(1) by (simp add: slot_set_ready_def slot_overwrite)
  let ?q' = "q\<lparr>mp_tail := mp_tail q + 1, mp_array := ?arr[?i := \<lparr>slot_data = Some x, slot_ready = True\<rparr>]\<rparr>"
  have "\<not> SIZE \<le> mp_tail q - mp_head q"
    using mpsc_full_iff [OF k rep] room by simp
  then have run: "mpsc_push_alone SIZE n q x = Inr (True, ?q')"
    using bk by (simp add: mpsc_push_alone_room idx slot_construct_def arr)
  have "ring_holds (unat SIZE) (map slot_data (mp_array ?q')) h (xs @ [x])"
    using ring_holds_push [OF ring room, of x] by (simp add: map_update)
  moreover have "\<forall>sl\<in>set (mp_array ?q'). slot_ready sl \<longleftrightarrow> slot_data sl \<noteq> None"
    using set_update_ready [OF rdy, of "\<lparr>slot_data = Some x, slot_ready = True\<rparr>" ?i] by simp
  moreover have "mp_tail ?q' = of_nat (h + length (xs @ [x]))"
    by (simp add: tail)
  ultimately have "mpsc_rep SIZE ?q' h (xs @ [x])"
    using rep by (simp add: mpsc_rep_def)
  with run show ?thesis by blast
qed

lemma mpsc_pop_rep:
  assumes k: "is_pow2 SIZE k" and rep: "mpsc_rep SIZE q h (x # xs)"
  shows "\<exists>q'. mpsc_try_pop SIZE q = Inr (Some x, q') \<and> mpsc_rep SIZE q' (Suc h) xs"
proof -
  let ?arr = "mp_array q" and ?i = "h mod unat SIZE"
  have ring: "ring_holds (unat SIZE) (map slot_data ?arr) h (x # xs)"
    and rdy: "\<forall>sl\<in>set ?arr. slot_ready sl \<longleftrightarrow> slot_data sl \<noteq> None"
    and head: "mp_head q = of_nat h"
    using rep by (auto simp: mpsc_rep_def)
  have idx: "ring_idx SIZE (mp_head q) = ?i"
    using k by (simp only: head ring_idx_of_nat)
  have front: "?i < length ?arr" "slot_data (?arr ! ?i) = Some x"
    using ring_holds_front [OF ring] by auto
  then have is_rdy: "slot_ready (?arr ! ?i)" using rdy nth_mem by fastforce
  have arr: "slot_set_ready (?arr[?i := (?arr ! ?i)\<lparr>slot_data := None\<rparr>]) ?i False =
      ?arr[?i := \<lparr>slot_data = None, slot_ready = False\<rparr>]"
    using front(1) by (simp add: slot_set_ready_def slot_overwrite)
  let ?q' = "q\<lparr>mp_array := ?arr[?i := \<lparr>slot_data = None, slot_ready = False\<rparr>], mp_head := mp_head q + 1\<rparr>"
  have run: "mpsc_try_pop SIZE q = Inr (Some x, ?q')"
    using front is_rdy by (simp add: mpsc_try_pop_def idx slot_read_def slot_destroy_def Let_def arr)
  have "ring_holds (unat SIZE) (map slot_data (mp_array ?q')) (Suc h) xs"
    using ring_holds_pop [OF ring] by (simp add: map_update)
  moreover have "\<forall>sl\<in>set (mp_array ?q'). slot_ready sl \<longleftrightarrow> slot_data sl \<noteq> None"
    using set_update_ready [OF rdy, of "\<lparr>slot_data = None, slot_ready = False\<rparr>" ?i] by simp
  moreover have "mp_head ?q' = of_nat (Suc h)" "mp_tail ?q' = of_nat (Suc h + length xs)"
    using rep by (simp_all add: mpsc_rep_def)
  ultimately have "mpsc_rep SIZE ?q' (Suc h) xs"
    unfolding mpsc_rep_def by blast
  with run show ?thesis by blast
qed

lemma mpsc_pop_empty:
  assumes k: "is_pow2 SIZE k" and rep: "mpsc_rep SIZE q h []"
  shows "mpsc_try_pop SIZE q = Inr (None, q)"
proof -
  have "ring_idx SIZE (mp_head q) = h mod unat SIZE"
    using k rep by (simp add: mpsc_rep_def ring_idx_of_nat)
  moreover have ring: "ring_holds (unat SIZE) (map slot_data (mp_array q)) h []"
    using rep by (simp add: mpsc_rep_def)
  then have "h mod unat SIZE < length (mp_array q)" "slot_data (mp_array q ! (h mod unat SIZE)) = None"
    using ring_holds_back [OF ring] pow2_pos [OF k] by auto
  moreover from this have "\<not> slot_ready (mp_array q ! (h mod unat SIZE))"
    using rep nth_mem by (fastforce simp: mpsc_rep_def)
  ultimately show ?thesis by (simp add: mpsc_try_pop_def Let_def)
qed

interpretation mpsc: bounded_fifo "mpsc_push_alone SIZE n" "mpsc_try_pop SIZE" "mpsc_inv SIZE"
    "mpsc_contents SIZE" "unat SIZE" for SIZE n
proof unfold_locales
  fix q :: "'a mpsc" and x :: 'a
  assume inv: "mpsc_inv SIZE q" and room: "length (mpsc_contents SIZE q) < unat SIZE"
  then obtain k h where k: "is_pow2 SIZE k" and rep: "mpsc_rep SIZE q h (mpsc_contents SIZE q)"
    by (elim mpsc_inv_rep)
  from mpsc_push_rep [OF k rep room] obtain q' where
    q': "mpsc_push_alone SIZE n q x = Inr (True, q')" "mpsc_rep SIZE q' h (mpsc_contents SIZE q @ [x])"
    by blast
  then show "\<exists>q'. mpsc_push_alone SIZE n q x = Inr (True, q') \<and>
      mpsc_inv SIZE q' \<and> mpsc_contents SIZE q' = mpsc_contents SIZE q @ [x]"
    using mpsc_invI [OF k q'(2)] by auto
next
  fix q :: "'a mpsc" and x :: 'a
  assume inv: "mpsc_inv SIZE q" and full: "\<not> length (mpsc_contents SIZE q) < unat SIZE"
  then obtain k h where k: "is_pow2 SIZE k" and rep: "mpsc_rep SIZE q h (mpsc_contents SIZE q)"
    by (elim mpsc_inv_rep)
  have "length (mpsc_contents SIZE q) \<le> unat SIZE"
    using rep by (simp add: mpsc_rep_def ring_holds_def)
  with full have "SIZE \<le> mp_tail q - mp_head q"
    by (simp add: mpsc_full_iff [OF k rep])
  then show "mpsc_push_alone SIZE n q x = Inr (False, q)"
    by (rule mpsc_push_alone_full)
next
  fix q :: "'a mpsc" and x xs
  assume inv: "mpsc_inv SIZE q" and cs: "mpsc_contents SIZE q = x # xs"
  from inv obtain k h where k: "is_pow2 SIZE k" and "mpsc_rep SIZE q h (mpsc_contents SIZE q)"
    by (elim mpsc_inv_rep)
  then have rep: "mpsc_rep SIZE q h (x # xs)" by (simp only: cs)
  from mpsc_pop_rep [OF k rep] obtain q' where
    q': "mpsc_try_pop SIZE q = Inr (Some x, q')" "mpsc_rep SIZE q' (Suc h) xs"
    by blast
  then show "\<exists>q'. mpsc_try_pop SIZE q = Inr (Some x, q') \<and> mpsc_inv SIZE q' \<and> mpsc_contents SIZE q' = xs"
    using mpsc_invI [OF k q'(2)] by auto
next
  fix q :: "'a mpsc"
  assume inv: "mpsc_inv SIZE q" and cs: "mpsc_contents SIZE q = []"
  from inv obtain k h where k: "is_pow2 SIZE k" and "mpsc_rep SIZE q h (mpsc_contents SIZE q)"
    by (elim mpsc_inv_rep)
  then have "mpsc_rep SIZE q h []" by (simp only: cs)
  with k show "mpsc_try_pop SIZE q = Inr (None, q)" by (rule mpsc_pop_empty)
qed

section \<open>Producers and consumer as threads\<close>

text \<open>
  Any number of producer threads (numbered) run \<^verbatim>\<open>try_push\<close>, one consumer runs
  \<^verbatim>\<open>try_pop\<close>. A local copy of a counter is represented by the unbounded count it is the
  64-bit residue of; every comparison is made on the residues, as in the code. A load
  returns any value the counter has had, and a failed compare-exchange reloads such a
  value; what is assumed of the machine is only that no thread keeps a value while its
  counter moves on by \<open>2 ^ 64\<close>.
\<close>

datatype 'a mp_producer =
    MIdle
  | MLoop 'a nat sz_t          \<comment> \<open>\<^verbatim>\<open>tail\<close> is loaded, with the backoff counter\<close>
  | MCas 'a nat sz_t nat       \<comment> \<open>\<^verbatim>\<open>head\<close> is loaded too and there was room\<close>
  | MConstruct 'a nat          \<comment> \<open>the ticket is claimed\<close>
  | MReady 'a nat              \<comment> \<open>the element is constructed\<close>
  | MFault ub

datatype 'a mp_consumer =
    MCIdle
  | MCCheck
  | MCMove
  | MCDestroy 'a
  | MCUnready 'a
  | MCAdvance 'a
  | MCFault ub

text \<open>The life of a ticket: history only, the code does not store it.\<close>

datatype ticket_phase =
    Unclaimed | Claimed nat | Built nat | Published | Emptied | Cleared

record 'a mpsc_sys =
  mq :: "'a mpsc"
  prods :: "nat \<Rightarrow> 'a mp_producer"
  mcons :: "'a mp_consumer"
  c_head :: nat
  c_tail :: nat
  phase :: "nat \<Rightarrow> ticket_phase"
  tickets :: "'a list"
  delivered :: "'a list"

definition mpsc_sys_init :: "sz_t \<Rightarrow> 'a mpsc_sys \<Rightarrow> bool" where
  "mpsc_sys_init SIZE s \<longleftrightarrow>
     s = \<lparr>mq = mpsc_new SIZE, prods = (\<lambda>_. MIdle), mcons = MCIdle, c_head = 0, c_tail = 0,
          phase = (\<lambda>_. Unclaimed), tickets = [], delivered = []\<rparr>"

abbreviation (input) set_prod :: "'a mpsc_sys \<Rightarrow> nat \<Rightarrow> 'a mp_producer \<Rightarrow> 'a mpsc_sys" where
  "set_prod s p pc \<equiv> s\<lparr>prods := (prods s)(p := pc)\<rparr>"

abbreviation (input) set_array :: "'a mpsc_sys \<Rightarrow> 'a mp_slot list \<Rightarrow> 'a mpsc_sys" where
  "set_array s arr \<equiv> s\<lparr>mq := (mq s)\<lparr>mp_array := arr\<rparr>\<rparr>"

abbreviation (input) set_phase :: "'a mpsc_sys \<Rightarrow> nat \<Rightarrow> ticket_phase \<Rightarrow> 'a mpsc_sys" where
  "set_phase s i ph \<equiv> s\<lparr>phase := (phase s)(i := ph)\<rparr>"

inductive mpsc_step :: "sz_t \<Rightarrow> 'a mpsc_sys \<Rightarrow> 'a mpsc_sys \<Rightarrow> bool" for SIZE where
  mp_load_tail: "prods s p = MIdle \<Longrightarrow> t \<le> c_tail s \<Longrightarrow>
    mpsc_step SIZE s (set_prod s p (MLoop x t 1))"
| mp_full: "prods s p = MLoop x t b \<Longrightarrow> h \<le> c_head s \<Longrightarrow> SIZE \<le> of_nat t - of_nat h \<Longrightarrow>
    mpsc_step SIZE s (set_prod s p MIdle)"
| mp_room: "prods s p = MLoop x t b \<Longrightarrow> h \<le> c_head s \<Longrightarrow> \<not> SIZE \<le> of_nat t - of_nat h \<Longrightarrow> t < h + 2 ^ 64 \<Longrightarrow>
    mpsc_step SIZE s (set_prod s p (MCas x t b h))"
| mp_cas_ok: "prods s p = MCas x t b h \<Longrightarrow> mp_tail (mq s) = of_nat t \<Longrightarrow> c_tail s < t + 2 ^ 64 \<Longrightarrow>
    mpsc_step SIZE s (s\<lparr>mq := (mq s)\<lparr>mp_tail := of_nat t + 1\<rparr>, prods := (prods s)(p := MConstruct x t),
      c_tail := Suc (c_tail s), phase := (phase s)(t := Claimed p), tickets := tickets s @ [x]\<rparr>)"
| mp_cas_fail: "prods s p = MCas x t b h \<Longrightarrow> t' \<le> c_tail s \<Longrightarrow>
    mpsc_step SIZE s (set_prod s p (MLoop x t' (mpsc_backoff b)))"
| mp_construct: "prods s p = MConstruct x t \<Longrightarrow>
    slot_construct (mp_array (mq s)) (ring_idx SIZE (of_nat t)) x = Inr arr \<Longrightarrow>
    mpsc_step SIZE s (set_phase (set_prod (set_array s arr) p (MReady x t)) t (Built p))"
| mp_construct_fault: "prods s p = MConstruct x t \<Longrightarrow>
    slot_construct (mp_array (mq s)) (ring_idx SIZE (of_nat t)) x = Inl e \<Longrightarrow>
    mpsc_step SIZE s (set_prod s p (MFault e))"
| mp_ready: "prods s p = MReady x t \<Longrightarrow>
    mpsc_step SIZE s (set_phase (set_prod (set_array s
      (slot_set_ready (mp_array (mq s)) (ring_idx SIZE (of_nat t)) True)) p MIdle) t Published)"
| mc_load_head: "mcons s = MCIdle \<Longrightarrow> mpsc_step SIZE s (s\<lparr>mcons := MCCheck\<rparr>)"
| mc_not_ready: "mcons s = MCCheck \<Longrightarrow> mpsc_step SIZE s (s\<lparr>mcons := MCIdle\<rparr>)"
| mc_is_ready: "mcons s = MCCheck \<Longrightarrow>
    slot_ready (mp_array (mq s) ! ring_idx SIZE (mp_head (mq s))) \<Longrightarrow>
    mpsc_step SIZE s (s\<lparr>mcons := MCMove\<rparr>)"
| mc_move: "mcons s = MCMove \<Longrightarrow>
    slot_read (mp_array (mq s)) (ring_idx SIZE (mp_head (mq s))) = Inr v \<Longrightarrow>
    mpsc_step SIZE s (s\<lparr>mcons := MCDestroy v\<rparr>)"
| mc_move_fault: "mcons s = MCMove \<Longrightarrow>
    slot_read (mp_array (mq s)) (ring_idx SIZE (mp_head (mq s))) = Inl e \<Longrightarrow>
    mpsc_step SIZE s (s\<lparr>mcons := MCFault e\<rparr>)"
| mc_destroy: "mcons s = MCDestroy v \<Longrightarrow>
    slot_destroy (mp_array (mq s)) (ring_idx SIZE (mp_head (mq s))) = Inr arr \<Longrightarrow>
    mpsc_step SIZE s (set_phase ((set_array s arr)\<lparr>mcons := MCUnready v\<rparr>) (c_head s) Emptied)"
| mc_destroy_fault: "mcons s = MCDestroy v \<Longrightarrow>
    slot_destroy (mp_array (mq s)) (ring_idx SIZE (mp_head (mq s))) = Inl e \<Longrightarrow>
    mpsc_step SIZE s (s\<lparr>mcons := MCFault e\<rparr>)"
| mc_unready: "mcons s = MCUnready v \<Longrightarrow>
    mpsc_step SIZE s (set_phase ((set_array s
      (slot_set_ready (mp_array (mq s)) (ring_idx SIZE (mp_head (mq s))) False))\<lparr>mcons := MCAdvance v\<rparr>)
      (c_head s) Cleared)"
| mc_advance: "mcons s = MCAdvance v \<Longrightarrow>
    mpsc_step SIZE s (s\<lparr>mcons := MCIdle, mq := (mq s)\<lparr>mp_head := mp_head (mq s) + 1\<rparr>,
      c_head := Suc (c_head s), delivered := delivered s @ [v]\<rparr>)"

section \<open>The invariant\<close>

fun slot_matches :: "ticket_phase \<Rightarrow> 'a \<Rightarrow> 'a mp_slot \<Rightarrow> bool" where
  "slot_matches Unclaimed x sl \<longleftrightarrow> slot_data sl = None \<and> \<not> slot_ready sl"
| "slot_matches (Claimed _) x sl \<longleftrightarrow> slot_data sl = None \<and> \<not> slot_ready sl"
| "slot_matches (Built _) x sl \<longleftrightarrow> slot_data sl = Some x \<and> \<not> slot_ready sl"
| "slot_matches Published x sl \<longleftrightarrow> slot_data sl = Some x \<and> slot_ready sl"
| "slot_matches Emptied x sl \<longleftrightarrow> slot_data sl = None \<and> slot_ready sl"
| "slot_matches Cleared x sl \<longleftrightarrow> slot_data sl = None \<and> \<not> slot_ready sl"

text \<open>Counters, history and what the tickets before and after the window look like.\<close>

definition mpsc_counts_ok :: "sz_t \<Rightarrow> 'a mpsc_sys \<Rightarrow> bool" where
  "mpsc_counts_ok SIZE s \<longleftrightarrow>
     mp_head (mq s) = of_nat (c_head s) \<and> mp_tail (mq s) = of_nat (c_tail s) \<and>
     c_head s \<le> c_tail s \<and> c_tail s \<le> c_head s + unat SIZE \<and>
     length (mp_array (mq s)) = unat SIZE \<and>
     length (tickets s) = c_tail s \<and> delivered s = take (c_head s) (tickets s)"

definition mpsc_slots_ok ::
  "nat \<Rightarrow> nat \<Rightarrow> nat \<Rightarrow> (nat \<Rightarrow> ticket_phase) \<Rightarrow> 'a list \<Rightarrow> 'a mp_slot list \<Rightarrow> bool" where
  "mpsc_slots_ok c lo up ph tk arr \<longleftrightarrow>
     (\<forall>i. lo \<le> i \<longrightarrow> i < lo + c \<longrightarrow> slot_matches (ph i) (tk ! i) (arr ! (i mod c))) \<and>
     (\<forall>i. lo \<le> i \<longrightarrow> (ph i = Unclaimed \<longleftrightarrow> up \<le> i)) \<and>
     (\<forall>i. lo < i \<longrightarrow> ph i \<noteq> Emptied \<and> ph i \<noteq> Cleared)"

fun mp_producer_ok ::
  "nat \<Rightarrow> nat \<Rightarrow> nat \<Rightarrow> (nat \<Rightarrow> ticket_phase) \<Rightarrow> 'a list \<Rightarrow> nat \<Rightarrow> 'a mp_producer \<Rightarrow> bool" where
  "mp_producer_ok c lo up ph tk p MIdle \<longleftrightarrow> True"
| "mp_producer_ok c lo up ph tk p (MLoop x t b) \<longleftrightarrow> t \<le> up \<and> 1 \<le> unat b \<and> unat b \<le> 64"
| "mp_producer_ok c lo up ph tk p (MCas x t b h) \<longleftrightarrow>
     t \<le> up \<and> h \<le> lo \<and> (h \<le> t \<longrightarrow> t < h + c) \<and> 1 \<le> unat b \<and> unat b \<le> 64"
| "mp_producer_ok c lo up ph tk p (MConstruct x t) \<longleftrightarrow>
     lo \<le> t \<and> t < up \<and> ph t = Claimed p \<and> x = tk ! t"
| "mp_producer_ok c lo up ph tk p (MReady x t) \<longleftrightarrow>
     lo \<le> t \<and> t < up \<and> ph t = Built p \<and> x = tk ! t"
| "mp_producer_ok c lo up ph tk p (MFault e) \<longleftrightarrow> False"

fun mp_consumer_ok :: "ticket_phase \<Rightarrow> 'a \<Rightarrow> 'a mp_consumer \<Rightarrow> bool" where
  "mp_consumer_ok ph x MCIdle \<longleftrightarrow> ph \<noteq> Emptied \<and> ph \<noteq> Cleared"
| "mp_consumer_ok ph x MCCheck \<longleftrightarrow> ph \<noteq> Emptied \<and> ph \<noteq> Cleared"
| "mp_consumer_ok ph x MCMove \<longleftrightarrow> ph = Published"
| "mp_consumer_ok ph x (MCDestroy v) \<longleftrightarrow> ph = Published \<and> v = x"
| "mp_consumer_ok ph x (MCUnready v) \<longleftrightarrow> ph = Emptied \<and> v = x"
| "mp_consumer_ok ph x (MCAdvance v) \<longleftrightarrow> ph = Cleared \<and> v = x"
| "mp_consumer_ok ph x (MCFault e) \<longleftrightarrow> False"

definition mpsc_sys_inv :: "sz_t \<Rightarrow> 'a mpsc_sys \<Rightarrow> bool" where
  "mpsc_sys_inv SIZE s \<longleftrightarrow>
     mpsc_counts_ok SIZE s \<and>
     mpsc_slots_ok (unat SIZE) (c_head s) (c_tail s) (phase s) (tickets s) (mp_array (mq s)) \<and>
     mp_consumer_ok (phase s (c_head s)) (tickets s ! c_head s) (mcons s) \<and>
     (\<forall>p. mp_producer_ok (unat SIZE) (c_head s) (c_tail s) (phase s) (tickets s) p (prods s p))"

lemma mpsc_sys_inv_init:
  assumes "is_pow2 SIZE k" "mpsc_sys_init SIZE s"
  shows "mpsc_sys_inv SIZE s"
  using assms pow2_pos [OF assms(1)]
  by (simp add: mpsc_sys_init_def mpsc_sys_inv_def mpsc_counts_ok_def mpsc_slots_ok_def mpsc_new_def)

lemma slots_okD:
  "mpsc_slots_ok c lo up ph tk arr \<Longrightarrow> lo \<le> i \<Longrightarrow> i < lo + c \<Longrightarrow>
   slot_matches (ph i) (tk ! i) (arr ! (i mod c))"
  by (simp add: mpsc_slots_ok_def)

text \<open>How each part of the invariant survives a step of somebody else.\<close>

lemma slots_ok_update:
  assumes "mpsc_slots_ok c lo up ph tk arr" "length arr = c" "lo \<le> t" "t < lo + c"
    and "slot_matches f (tk ! t) sl" "f = Unclaimed \<longleftrightarrow> up \<le> t"
    and "f = Emptied \<or> f = Cleared \<Longrightarrow> t = lo"
  shows "mpsc_slots_ok c lo up (ph(t := f)) tk (arr[t mod c := sl])"
  unfolding mpsc_slots_ok_def
proof (intro conjI allI impI)
  fix i assume i: "lo \<le> i" "i < lo + c"
  show "slot_matches ((ph(t := f)) i) (tk ! i) (arr[t mod c := sl] ! (i mod c))"
  proof (cases "i = t")
    case True
    with assms i show ?thesis by simp
  next
    case False
    with i assms(3,4) have "t mod c \<noteq> i mod c"
      by (intro mod_window_neq [of lo]) auto
    with False assms(1) i show ?thesis by (simp add: mpsc_slots_ok_def)
  qed
qed (use assms in \<open>auto simp: mpsc_slots_ok_def\<close>)

lemma slots_ok_claim:
  assumes "mpsc_slots_ok c lo up ph tk arr" "length tk = up" "lo \<le> up" "up < lo + c"
  shows "mpsc_slots_ok c lo (Suc up) (ph(up := Claimed p)) (tk @ [x]) arr"
  unfolding mpsc_slots_ok_def
proof (intro conjI allI impI)
  fix i assume i: "lo \<le> i" "i < lo + c"
  with assms(1) have "slot_matches (ph i) (tk ! i) (arr ! (i mod c))"
    by (simp add: mpsc_slots_ok_def)
  moreover have "up < i \<Longrightarrow> ph i = Unclaimed" "ph up = Unclaimed"
    using assms(1,3) i by (auto simp: mpsc_slots_ok_def)
  ultimately show "slot_matches ((ph(up := Claimed p)) i) ((tk @ [x]) ! i) (arr ! (i mod c))"
    using assms(2) by (cases "i < up"; cases "i = up") (auto simp: nth_append)
qed (use assms in \<open>auto simp: mpsc_slots_ok_def le_Suc_eq Suc_le_eq less_le\<close>)

lemma slots_ok_advance:
  assumes "mpsc_slots_ok c lo up ph tk arr" "ph lo = Cleared" "up \<le> lo + c" "0 < c"
  shows "mpsc_slots_ok c (Suc lo) up ph tk arr"
  unfolding mpsc_slots_ok_def
proof (intro conjI allI impI)
  fix i assume i: "Suc lo \<le> i" "i < Suc lo + c"
  show "slot_matches (ph i) (tk ! i) (arr ! (i mod c))"
  proof (cases "i = lo + c")
    case True
    have "ph i = Unclaimed" using assms i True by (auto simp: mpsc_slots_ok_def)
    moreover have "slot_matches (ph lo) (tk ! lo) (arr ! (lo mod c))"
      using assms by (intro slots_okD) auto
    ultimately show ?thesis using True assms(2) by simp
  next
    case False
    with assms(1) i show ?thesis by (simp add: mpsc_slots_ok_def)
  qed
qed (use assms in \<open>auto simp: mpsc_slots_ok_def\<close>)

lemma producer_ok_phase:
  "mp_producer_ok c lo up ph tk q pc \<Longrightarrow> ph t \<noteq> Claimed q \<Longrightarrow> ph t \<noteq> Built q \<Longrightarrow>
   mp_producer_ok c lo up (ph(t := f)) tk q pc"
  by (cases pc) auto

lemma producer_ok_claim:
  "mp_producer_ok c lo up ph tk q pc \<Longrightarrow> length tk = up \<Longrightarrow>
   mp_producer_ok c lo (Suc up) (ph(up := f)) (tk @ [x]) q pc"
  by (cases pc) (auto simp: nth_append)

lemma producer_ok_advance:
  "mp_producer_ok c lo up ph tk q pc \<Longrightarrow> ph lo = Cleared \<Longrightarrow> mp_producer_ok c (Suc lo) up ph tk q pc"
  by (cases pc) (auto simp: le_Suc_eq Suc_le_eq le_less)

lemma consumer_ok_other:
  "mp_consumer_ok ph x pc \<Longrightarrow> ph = Claimed p \<or> ph = Built p \<Longrightarrow> f \<noteq> Emptied \<Longrightarrow> f \<noteq> Cleared \<Longrightarrow>
   mp_consumer_ok f x pc"
  by (cases pc) auto

lemmas mpsc_inv_defs = mpsc_sys_inv_def mpsc_counts_ok_def

text \<open>The ticket a producer works on, or the head of the consumer, in its slot.\<close>

lemma mpsc_slot_of:
  assumes "is_pow2 SIZE k" "mpsc_sys_inv SIZE s" "c_head s \<le> t" "t < c_head s + unat SIZE"
  shows "t mod unat SIZE < length (mp_array (mq s))"
    and "slot_matches (phase s t) (tickets s ! t) (mp_array (mq s) ! (t mod unat SIZE))"
  using assms slots_okD [of "unat SIZE" "c_head s" _ _ _ "mp_array (mq s)" t] pow2_pos [OF assms(1)]
  by (auto simp: mpsc_inv_defs)

lemma mpsc_cas_room:
  assumes k: "is_pow2 SIZE k" and inv: "mpsc_sys_inv SIZE s" and pc: "prods s p = MCas x t b h"
    and cas: "mp_tail (mq s) = of_nat t" and fresh: "c_tail s < t + 2 ^ 64"
  shows "t = c_tail s" "c_tail s < c_head s + unat SIZE"
proof -
  have ok: "t \<le> c_tail s" "h \<le> c_head s" "h \<le> t \<Longrightarrow> t < h + unat SIZE"
    using inv pc by (auto simp: mpsc_sys_inv_def dest!: spec [of _ p])
  have "(of_nat (c_tail s) :: u64_t) = of_nat t"
    using inv cas by (simp add: mpsc_inv_defs)
  moreover have "c_tail s - t < 2 ^ 64"
    using ok(1) fresh by (simp add: less_diff_conv2 add.commute)
  ultimately show t: "t = c_tail s"
    using count_eq_iff [OF ok(1)] by simp
  have "c_head s \<le> c_tail s" using inv by (simp add: mpsc_inv_defs)
  with ok t show "c_tail s < c_head s + unat SIZE" by simp
qed

lemma mpsc_inv_cas_ok:
  assumes k: "is_pow2 SIZE k" and inv: "mpsc_sys_inv SIZE s" and pc: "prods s p = MCas x t b h"
    and cas: "mp_tail (mq s) = of_nat t" and fresh: "c_tail s < t + 2 ^ 64"
  shows "mpsc_sys_inv SIZE (s\<lparr>mq := (mq s)\<lparr>mp_tail := of_nat t + 1\<rparr>,
    prods := (prods s)(p := MConstruct x t), c_tail := Suc (c_tail s),
    phase := (phase s)(t := Claimed p), tickets := tickets s @ [x]\<rparr>)"
proof -
  note room = mpsc_cas_room [OF assms]
  have len: "length (tickets s) = c_tail s" and le: "c_head s \<le> c_tail s"
    using inv by (auto simp: mpsc_inv_defs)
  have "phase s (c_tail s) = Unclaimed"
    using inv le by (simp add: mpsc_sys_inv_def mpsc_slots_ok_def)
  then have cons: "mp_consumer_ok (((phase s)(c_tail s := Claimed p)) (c_head s))
      ((tickets s @ [x]) ! c_head s) (mcons s)"
    using inv len le by (cases "mcons s"; cases "c_head s = c_tail s")
      (auto simp: mpsc_sys_inv_def nth_append)
  have prod: "mp_producer_ok (unat SIZE) (c_head s) (Suc (c_tail s)) ((phase s)(c_tail s := Claimed p))
      (tickets s @ [x]) q (prods s q)" for q
    using inv len by (intro producer_ok_claim) (auto simp: mpsc_sys_inv_def)
  have "mpsc_slots_ok (unat SIZE) (c_head s) (Suc (c_tail s)) ((phase s)(c_tail s := Claimed p))
      (tickets s @ [x]) (mp_array (mq s))"
    using inv len le room by (intro slots_ok_claim) (auto simp: mpsc_sys_inv_def)
  with prod cons show ?thesis
    using inv room len le by (auto simp: mpsc_inv_defs nth_append)
qed

lemma mpsc_inv_ticket_step:
  assumes k: "is_pow2 SIZE k" and inv: "mpsc_sys_inv SIZE s"
    and t: "c_head s \<le> t" "t < c_tail s" "phase s t = Claimed p \<or> phase s t = Built p"
    and match: "slot_matches f (tickets s ! t) sl" "f = Built p \<or> f = Published"
    and pc: "mp_producer_ok (unat SIZE) (c_head s) (c_tail s) ((phase s)(t := f)) (tickets s) p pc"
  shows "mpsc_sys_inv SIZE (s\<lparr>mq := (mq s)\<lparr>mp_array := (mp_array (mq s))[t mod unat SIZE := sl]\<rparr>,
    prods := (prods s)(p := pc), phase := (phase s)(t := f)\<rparr>)"
proof -
  have tc: "t < c_head s + unat SIZE" using inv t by (auto simp: mpsc_inv_defs)
  have "mpsc_slots_ok (unat SIZE) (c_head s) (c_tail s) ((phase s)(t := f)) (tickets s)
      ((mp_array (mq s))[t mod unat SIZE := sl])"
    using inv t(1,2) tc match by (intro slots_ok_update) (auto simp: mpsc_inv_defs)
  moreover have "mp_producer_ok (unat SIZE) (c_head s) (c_tail s) ((phase s)(t := f)) (tickets s) q (prods s q)"
    if "q \<noteq> p" for q
    using inv t(3) that by (intro producer_ok_phase) (auto simp: mpsc_sys_inv_def)
  moreover have "mp_consumer_ok (((phase s)(t := f)) (c_head s)) (tickets s ! c_head s) (mcons s)"
    using inv t(3) match(2) consumer_ok_other [of "phase s t" "tickets s ! t" "mcons s" p f]
    by (auto simp: mpsc_sys_inv_def)
  ultimately show ?thesis
    using inv pc by (simp add: mpsc_inv_defs)
qed

lemma mpsc_inv_head_step:
  assumes k: "is_pow2 SIZE k" and inv: "mpsc_sys_inv SIZE s"
    and ph: "phase s (c_head s) = Published \<or> phase s (c_head s) = Emptied"
    and match: "slot_matches f (tickets s ! c_head s) sl" "f = Emptied \<or> f = Cleared"
    and pc: "mp_consumer_ok f (tickets s ! c_head s) pc"
  shows "mpsc_sys_inv SIZE (s\<lparr>mq := (mq s)\<lparr>mp_array := (mp_array (mq s))[c_head s mod unat SIZE := sl]\<rparr>,
    mcons := pc, phase := (phase s)(c_head s := f)\<rparr>)"
proof -
  have lt: "c_head s < c_tail s"
    using inv ph by (auto simp: mpsc_sys_inv_def mpsc_slots_ok_def not_le [symmetric])
  have "mpsc_slots_ok (unat SIZE) (c_head s) (c_tail s) ((phase s)(c_head s := f)) (tickets s)
      ((mp_array (mq s))[c_head s mod unat SIZE := sl])"
    using inv lt match pow2_pos [OF k] by (intro slots_ok_update) (auto simp: mpsc_inv_defs)
  moreover have "mp_producer_ok (unat SIZE) (c_head s) (c_tail s) ((phase s)(c_head s := f)) (tickets s) q (prods s q)"
    for q
    using inv ph by (intro producer_ok_phase) (auto simp: mpsc_sys_inv_def)
  ultimately show ?thesis
    using inv pc by (simp add: mpsc_inv_defs)
qed

lemma mpsc_inv_set_prod:
  assumes "mpsc_sys_inv SIZE s"
    and "mp_producer_ok (unat SIZE) (c_head s) (c_tail s) (phase s) (tickets s) p pc"
  shows "mpsc_sys_inv SIZE (s\<lparr>prods := (prods s)(p := pc)\<rparr>)"
  using assms by (simp add: mpsc_inv_defs)

lemma mpsc_inv_set_cons:
  assumes "mpsc_sys_inv SIZE s" "mp_consumer_ok (phase s (c_head s)) (tickets s ! c_head s) pc"
  shows "mpsc_sys_inv SIZE (s\<lparr>mcons := pc\<rparr>)"
  using assms by (simp add: mpsc_inv_defs)

lemma mpsc_inv_advance:
  assumes k: "is_pow2 SIZE k" and inv: "mpsc_sys_inv SIZE s" and pc: "mcons s = MCAdvance v"
  shows "mpsc_sys_inv SIZE (s\<lparr>mcons := MCIdle, mq := (mq s)\<lparr>mp_head := mp_head (mq s) + 1\<rparr>,
    c_head := Suc (c_head s), delivered := delivered s @ [v]\<rparr>)"
proof -
  have ph: "phase s (c_head s) = Cleared" "v = tickets s ! c_head s"
    using inv pc by (auto simp: mpsc_sys_inv_def)
  then have lt: "c_head s < c_tail s"
    using inv by (auto simp: mpsc_sys_inv_def mpsc_slots_ok_def not_le [symmetric])
  have "mpsc_slots_ok (unat SIZE) (Suc (c_head s)) (c_tail s) (phase s) (tickets s) (mp_array (mq s))"
    using inv ph pow2_pos [OF k] by (intro slots_ok_advance) (auto simp: mpsc_inv_defs)
  moreover have "mp_producer_ok (unat SIZE) (Suc (c_head s)) (c_tail s) (phase s) (tickets s) q (prods s q)" for q
    using inv ph by (intro producer_ok_advance) (auto simp: mpsc_sys_inv_def)
  moreover have "mp_consumer_ok (phase s (Suc (c_head s))) (tickets s ! Suc (c_head s)) MCIdle"
    using inv by (auto simp: mpsc_sys_inv_def mpsc_slots_ok_def)
  ultimately show ?thesis
    using inv lt ph by (simp add: mpsc_inv_defs take_Suc_snoc add.commute)
qed

text \<open>What a producer finds in the slot of its ticket.\<close>

lemma mpsc_producer_slot:
  assumes k: "is_pow2 SIZE k" and inv: "mpsc_sys_inv SIZE s"
    and pc: "prods s p = MConstruct x t \<or> prods s p = MReady x t"
  shows "ring_idx SIZE (of_nat t) = t mod unat SIZE" "t mod unat SIZE < length (mp_array (mq s))"
    and "c_head s \<le> t" "t < c_tail s" "x = tickets s ! t"
    and "slot_matches (if prods s p = MConstruct x t then Claimed p else Built p) x
           (mp_array (mq s) ! (t mod unat SIZE))"
    and "phase s t = (if prods s p = MConstruct x t then Claimed p else Built p)"
proof -
  show "ring_idx SIZE (of_nat t) = t mod unat SIZE" using k by (rule ring_idx_of_nat)
  have "mp_producer_ok (unat SIZE) (c_head s) (c_tail s) (phase s) (tickets s) p (prods s p)"
    using inv by (simp add: mpsc_sys_inv_def)
  with pc show t: "c_head s \<le> t" "t < c_tail s" "x = tickets s ! t"
    "phase s t = (if prods s p = MConstruct x t then Claimed p else Built p)"
    by auto
  have "t < c_head s + unat SIZE" using inv t by (auto simp: mpsc_inv_defs)
  from mpsc_slot_of [OF k inv t(1) this] t
  show "t mod unat SIZE < length (mp_array (mq s))"
    "slot_matches (if prods s p = MConstruct x t then Claimed p else Built p) x
       (mp_array (mq s) ! (t mod unat SIZE))"
    by auto
qed

text \<open>What the consumer finds in the slot at the head.\<close>

lemma mpsc_head_slot:
  assumes k: "is_pow2 SIZE k" and inv: "mpsc_sys_inv SIZE s"
  shows "ring_idx SIZE (mp_head (mq s)) = c_head s mod unat SIZE"
    and "c_head s mod unat SIZE < length (mp_array (mq s))"
    and "slot_matches (phase s (c_head s)) (tickets s ! c_head s) (mp_array (mq s) ! (c_head s mod unat SIZE))"
    and "mp_consumer_ok (phase s (c_head s)) (tickets s ! c_head s) (mcons s)"
  using assms mpsc_slot_of [OF k inv, of "c_head s"] pow2_pos [OF k]
  by (auto simp: mpsc_inv_defs ring_idx_of_nat)

lemma mpsc_construct_run:
  assumes k: "is_pow2 SIZE k" and inv: "mpsc_sys_inv SIZE s" and pc: "prods s p = MConstruct x t"
  defines "i \<equiv> t mod unat SIZE"
  shows "slot_construct (mp_array (mq s)) (ring_idx SIZE (of_nat t)) x =
    Inr ((mp_array (mq s))[i := (mp_array (mq s) ! i)\<lparr>slot_data := Some x\<rparr>])"
  using mpsc_producer_slot [OF k inv disjI1 [OF pc]] pc by (simp add: slot_construct_def i_def)

lemma mpsc_destroy_run:
  assumes k: "is_pow2 SIZE k" and inv: "mpsc_sys_inv SIZE s" and pc: "mcons s = MCMove \<or> mcons s = MCDestroy v"
  defines "i \<equiv> c_head s mod unat SIZE"
  shows "slot_read (mp_array (mq s)) (ring_idx SIZE (mp_head (mq s))) = Inr (tickets s ! c_head s)"
    and "slot_destroy (mp_array (mq s)) (ring_idx SIZE (mp_head (mq s))) =
      Inr ((mp_array (mq s))[i := (mp_array (mq s) ! i)\<lparr>slot_data := None\<rparr>])"
  using mpsc_head_slot [OF k inv] pc by (auto simp: slot_read_def slot_destroy_def i_def)

text \<open>Each step keeps the invariant: first those of a producer, then those of the consumer.\<close>

lemma mpsc_producer_inv:
  "mpsc_sys_inv SIZE s \<Longrightarrow> mp_producer_ok (unat SIZE) (c_head s) (c_tail s) (phase s) (tickets s) p (prods s p)"
  by (simp add: mpsc_sys_inv_def)

lemma mpsc_inv_room:
  assumes inv: "mpsc_sys_inv SIZE s" and pc: "prods s p = MLoop x t b"
    and h: "h \<le> c_head s" "\<not> SIZE \<le> of_nat t - of_nat h" "t < h + 2 ^ 64"
  shows "mpsc_sys_inv SIZE (s\<lparr>prods := (prods s)(p := MCas x t b h)\<rparr>)"
proof (rule mpsc_inv_set_prod [OF inv])
  have "t < h + unat SIZE" if "h \<le> t"
  proof -
    have "t - h < 2 ^ 64" using h(3) that by (simp add: less_diff_conv2 add.commute)
    with h(2) unat_count_diff [OF that] show ?thesis by (simp add: word_le_nat_alt)
  qed
  with mpsc_producer_inv [OF inv, of p] h pc
  show "mp_producer_ok (unat SIZE) (c_head s) (c_tail s) (phase s) (tickets s) p (MCas x t b h)" by auto
qed

lemma mpsc_inv_cas_fail:
  assumes inv: "mpsc_sys_inv SIZE s" and pc: "prods s p = MCas x t b h" and t': "t' \<le> c_tail s"
  shows "mpsc_sys_inv SIZE (s\<lparr>prods := (prods s)(p := MLoop x t' (mpsc_backoff b))\<rparr>)"
  using mpsc_producer_inv [OF inv, of p] pc t' mpsc_backoff_bounds [of b] by (intro mpsc_inv_set_prod [OF inv]) auto

lemma mpsc_inv_construct:
  assumes k: "is_pow2 SIZE k" and inv: "mpsc_sys_inv SIZE s" and pc: "prods s p = MConstruct x t"
    and arr: "slot_construct (mp_array (mq s)) (ring_idx SIZE (of_nat t)) x = Inr arr"
  shows "mpsc_sys_inv SIZE (set_phase (set_prod (set_array s arr) p (MReady x t)) t (Built p))"
proof -
  note slot = mpsc_producer_slot [OF k inv disjI1 [OF pc]]
  have "arr = (mp_array (mq s))[t mod unat SIZE := (mp_array (mq s) ! (t mod unat SIZE))\<lparr>slot_data := Some x\<rparr>]"
    using arr mpsc_construct_run [OF k inv pc] by simp
  with pc slot mpsc_inv_ticket_step [OF k inv slot(3,4), of p "Built p" _ "MReady x t"] show ?thesis by simp
qed

lemma mpsc_inv_ready:
  assumes k: "is_pow2 SIZE k" and inv: "mpsc_sys_inv SIZE s" and pc: "prods s p = MReady x t"
  shows "mpsc_sys_inv SIZE (set_phase (set_prod (set_array s
      (slot_set_ready (mp_array (mq s)) (ring_idx SIZE (of_nat t)) True)) p MIdle) t Published)"
proof -
  note slot = mpsc_producer_slot [OF k inv disjI2 [OF pc]]
  with pc mpsc_inv_ticket_step [OF k inv slot(3,4), of p Published _ MIdle] show ?thesis by (simp add: slot_set_ready_def)
qed

lemma mpsc_inv_check:
  assumes k: "is_pow2 SIZE k" and inv: "mpsc_sys_inv SIZE s"
  shows "mcons s = MCIdle \<Longrightarrow> mpsc_sys_inv SIZE (s\<lparr>mcons := MCCheck\<rparr>)"
    and "mcons s = MCCheck \<Longrightarrow> mpsc_sys_inv SIZE (s\<lparr>mcons := MCIdle\<rparr>)"
    and "mcons s = MCCheck \<Longrightarrow> slot_ready (mp_array (mq s) ! ring_idx SIZE (mp_head (mq s))) \<Longrightarrow> mpsc_sys_inv SIZE (s\<lparr>mcons := MCMove\<rparr>)"
  using inv mpsc_head_slot [OF k inv] by (auto intro!: mpsc_inv_set_cons) (cases "phase s (c_head s)"; auto)

lemma mpsc_inv_move:
  assumes k: "is_pow2 SIZE k" and inv: "mpsc_sys_inv SIZE s" and pc: "mcons s = MCMove"
    and v: "slot_read (mp_array (mq s)) (ring_idx SIZE (mp_head (mq s))) = Inr v"
  shows "mpsc_sys_inv SIZE (s\<lparr>mcons := MCDestroy v\<rparr>)"
  using mpsc_head_slot(4) [OF k inv] mpsc_destroy_run(1) [OF k inv disjI1 [OF pc]] pc v by (auto intro: mpsc_inv_set_cons [OF inv])

lemma mpsc_inv_destroy:
  assumes k: "is_pow2 SIZE k" and inv: "mpsc_sys_inv SIZE s" and pc: "mcons s = MCDestroy v"
    and arr: "slot_destroy (mp_array (mq s)) (ring_idx SIZE (mp_head (mq s))) = Inr arr"
  shows "mpsc_sys_inv SIZE (set_phase ((set_array s arr)\<lparr>mcons := MCUnready v\<rparr>) (c_head s) Emptied)"
proof -
  have "arr = (mp_array (mq s))[c_head s mod unat SIZE := (mp_array (mq s) ! (c_head s mod unat SIZE))\<lparr>slot_data := None\<rparr>]"
    using arr mpsc_destroy_run(2) [OF k inv disjI2 [OF pc]] by simp
  with pc mpsc_head_slot [OF k inv] mpsc_inv_head_step [OF k inv, of Emptied _ "MCUnready v"] show ?thesis by simp
qed

lemma mpsc_inv_unready:
  assumes k: "is_pow2 SIZE k" and inv: "mpsc_sys_inv SIZE s" and pc: "mcons s = MCUnready v"
  shows "mpsc_sys_inv SIZE (set_phase ((set_array s
      (slot_set_ready (mp_array (mq s)) (ring_idx SIZE (mp_head (mq s))) False))\<lparr>mcons := MCAdvance v\<rparr>) (c_head s) Cleared)"
  using pc mpsc_head_slot [OF k inv] mpsc_inv_head_step [OF k inv, of Cleared _ "MCAdvance v"] by (simp add: slot_set_ready_def)

lemma mpsc_no_fault:
  assumes k: "is_pow2 SIZE k" and inv: "mpsc_sys_inv SIZE s"
  shows "prods s p = MConstruct x t \<Longrightarrow> slot_construct (mp_array (mq s)) (ring_idx SIZE (of_nat t)) x \<noteq> Inl e"
    and "mcons s = MCMove \<Longrightarrow> slot_read (mp_array (mq s)) (ring_idx SIZE (mp_head (mq s))) \<noteq> Inl e"
    and "mcons s = MCDestroy v \<Longrightarrow> slot_destroy (mp_array (mq s)) (ring_idx SIZE (mp_head (mq s))) \<noteq> Inl e"
  using mpsc_construct_run [OF k inv] mpsc_destroy_run [OF k inv] by auto

lemma mpsc_sys_inv_step:
  assumes k: "is_pow2 SIZE k" and step: "mpsc_step SIZE s t" and inv: "mpsc_sys_inv SIZE s"
  shows "mpsc_sys_inv SIZE t"
  using step
proof cases
  case (mp_load_tail p t' x)
  with mpsc_inv_set_prod [OF inv] show ?thesis by auto
next
  case (mp_full p x t' b h)
  with mpsc_inv_set_prod [OF inv] show ?thesis by auto
next
  case (mp_room p x t' b h)
  with mpsc_inv_room [OF inv] show ?thesis by blast
next
  case (mp_cas_fail p x t' b h t'')
  with mpsc_inv_cas_fail [OF inv] show ?thesis by blast
qed (use mpsc_no_fault [OF k inv] in \<open>blast intro: mpsc_inv_cas_ok [OF k inv] mpsc_inv_construct [OF k inv] mpsc_inv_ready [OF k inv]
  mpsc_inv_check [OF k inv] mpsc_inv_move [OF k inv] mpsc_inv_destroy [OF k inv] mpsc_inv_unready [OF k inv] mpsc_inv_advance [OF k inv]\<close>)+

interpretation mpsc_sys: inductive_invariant "mpsc_sys_init SIZE" "mpsc_step SIZE"
    "\<lambda>s. (\<exists>k. is_pow2 SIZE k) \<longrightarrow> mpsc_sys_inv SIZE s" for SIZE
  by unfold_locales (auto intro: mpsc_sys_inv_init mpsc_sys_inv_step)

lemma mpsc_reach_inv:
  "is_pow2 SIZE k \<Longrightarrow> reach (mpsc_sys_init SIZE) (mpsc_step SIZE) s \<Longrightarrow> mpsc_sys_inv SIZE s"
  using mpsc_sys.reach_inv by blast

section \<open>Calls that run alone\<close>

lemma relpowp_5I: "R a b \<Longrightarrow> R b c \<Longrightarrow> R c d \<Longrightarrow> R d e \<Longrightarrow> R e f \<Longrightarrow> (R ^^ 5) a f"
  by (simp add: numeral_eq_Suc) blast

lemma relpowp_6I: "R a b \<Longrightarrow> R b c \<Longrightarrow> R c d \<Longrightarrow> R d e \<Longrightarrow> R e f \<Longrightarrow> R f g \<Longrightarrow> (R ^^ 6) a g"
  by (simp add: numeral_eq_Suc) blast

lemma mpsc_solo_push:
  assumes k: "is_pow2 SIZE k" and inv: "mpsc_sys_inv SIZE s" and idle: "prods s p = MIdle"
    and room: "c_tail s < c_head s + unat SIZE"
  shows "\<exists>t. (mpsc_step SIZE ^^ 5) s t \<and> tickets t = tickets s @ [x] \<and> c_tail t = Suc (c_tail s) \<and>
    c_head t = c_head s \<and> mcons t = mcons s \<and> delivered t = delivered s \<and> prods t = prods s \<and>
    phase t (c_tail s) = Published"
proof -
  let ?T = "c_tail s"
  define s1 where "s1 = s\<lparr>prods := (prods s)(p := MLoop x ?T 1)\<rparr>"
  define s2 where "s2 = s1\<lparr>prods := (prods s1)(p := MCas x ?T 1 (c_head s))\<rparr>"
  define s3 where "s3 = s2\<lparr>mq := (mq s2)\<lparr>mp_tail := of_nat ?T + 1\<rparr>,
      prods := (prods s2)(p := MConstruct x ?T), c_tail := Suc (c_tail s2),
      phase := (phase s2)(?T := Claimed p), tickets := tickets s2 @ [x]\<rparr>"
  have cnt: "c_head s \<le> ?T" "mp_tail (mq s) = of_nat ?T" using inv by (auto simp: mpsc_inv_defs)
  have "?T - c_head s < unat SIZE" using room cnt(1) by linarith
  then have small: "?T - c_head s < 2 ^ 64" using pow2_le [OF k] by simp
  have step1: "mpsc_step SIZE s s1"
    unfolding s1_def using idle by (rule mpsc_step.mp_load_tail) simp
  have "\<not> SIZE \<le> of_nat ?T - of_nat (c_head s)"
    using unat_count_diff [OF cnt(1) small] \<open>?T - c_head s < unat SIZE\<close> by (simp add: word_le_nat_alt)
  moreover have "?T < c_head s + 2 ^ 64" using room pow2_le [OF k] by simp
  ultimately have step2: "mpsc_step SIZE s1 s2"
    unfolding s2_def by (intro mpsc_step.mp_room) (simp_all add: s1_def)
  have step3: "mpsc_step SIZE s2 s3"
    unfolding s3_def using cnt by (intro mpsc_step.mp_cas_ok) (simp_all add: s2_def s1_def)
  have inv3: "mpsc_sys_inv SIZE s3"
    using mpsc_sys_inv_step [OF k] step1 step2 step3 inv by blast
  have pc3: "prods s3 p = MConstruct x ?T" by (simp add: s3_def)
  obtain arr where arr: "slot_construct (mp_array (mq s3)) (ring_idx SIZE (of_nat ?T)) x = Inr arr"
    using mpsc_construct_run [OF k inv3 pc3] by blast
  define s4 where "s4 = s3\<lparr>mq := (mq s3)\<lparr>mp_array := arr\<rparr>, prods := (prods s3)(p := MReady x ?T),
      phase := (phase s3)(?T := Built p)\<rparr>"
  have step4: "mpsc_step SIZE s3 s4"
    using mpsc_step.mp_construct [OF pc3 arr] by (simp add: s4_def)
  have pc4: "prods s4 p = MReady x ?T" by (simp add: s4_def)
  have step5: "mpsc_step SIZE s4 (s4\<lparr>mq := (mq s4)\<lparr>mp_array :=
      slot_set_ready (mp_array (mq s4)) (ring_idx SIZE (of_nat ?T)) True\<rparr>,
      prods := (prods s4)(p := MIdle), phase := (phase s4)(?T := Published)\<rparr>)"
    using mpsc_step.mp_ready [OF pc4, of SIZE] by simp
  from relpowp_5I [where R = "mpsc_step SIZE", OF step1 step2 step3 step4 step5] show ?thesis
    by (intro exI conjI, assumption)
      (simp_all add: s4_def s3_def s2_def s1_def fun_upd_idem idle)
qed

lemma mpsc_solo_pop:
  assumes k: "is_pow2 SIZE k" and inv: "mpsc_sys_inv SIZE s" and idle: "mcons s = MCIdle"
    and pub: "phase s (c_head s) = Published"
  shows "\<exists>t. (mpsc_step SIZE ^^ 6) s t \<and> delivered t = delivered s @ [tickets s ! c_head s] \<and>
    c_head t = Suc (c_head s) \<and> c_tail t = c_tail s \<and> tickets t = tickets s \<and> prods t = prods s \<and>
    mcons t = MCIdle"
proof -
  let ?v = "tickets s ! c_head s"
  define s1 where "s1 = s\<lparr>mcons := MCCheck\<rparr>"
  define s2 where "s2 = s1\<lparr>mcons := MCMove\<rparr>"
  define s3 where "s3 = s2\<lparr>mcons := MCDestroy ?v\<rparr>"
  have step1: "mpsc_step SIZE s s1"
    unfolding s1_def using idle by (rule mpsc_step.mc_load_head)
  have "slot_ready (mp_array (mq s1) ! ring_idx SIZE (mp_head (mq s1)))"
    using mpsc_head_slot [OF k inv] pub by (simp add: s1_def)
  then have step2: "mpsc_step SIZE s1 s2"
    unfolding s2_def by (intro mpsc_step.mc_is_ready) (simp_all add: s1_def)
  have inv2: "mpsc_sys_inv SIZE s2"
    using mpsc_sys_inv_step [OF k] step1 step2 inv by blast
  have pc2: "mcons s2 = MCMove" by (simp add: s2_def)
  have step3: "mpsc_step SIZE s2 s3"
    unfolding s3_def using mpsc_destroy_run(1) [OF k inv2 disjI1 [OF pc2]] pc2
    by (intro mpsc_step.mc_move) (simp_all add: s2_def s1_def)
  have inv3: "mpsc_sys_inv SIZE s3"
    using mpsc_sys_inv_step [OF k step3 inv2] .
  have pc3: "mcons s3 = MCDestroy ?v" by (simp add: s3_def)
  obtain arr where arr: "slot_destroy (mp_array (mq s3)) (ring_idx SIZE (mp_head (mq s3))) = Inr arr"
    using mpsc_destroy_run(2) [OF k inv3 disjI2 [OF pc3]] by blast
  define s4 where "s4 = s3\<lparr>mq := (mq s3)\<lparr>mp_array := arr\<rparr>, mcons := MCUnready ?v,
      phase := (phase s3)(c_head s3 := Emptied)\<rparr>"
  define s5 where "s5 = s4\<lparr>mq := (mq s4)\<lparr>mp_array :=
      slot_set_ready (mp_array (mq s4)) (ring_idx SIZE (mp_head (mq s4))) False\<rparr>,
      mcons := MCAdvance ?v, phase := (phase s4)(c_head s4 := Cleared)\<rparr>"
  have step4: "mpsc_step SIZE s3 s4"
    using mpsc_step.mc_destroy [OF pc3 arr] by (simp add: s4_def)
  have step5: "mpsc_step SIZE s4 s5"
    using mpsc_step.mc_unready [of s4 ?v SIZE] by (simp add: s5_def s4_def)
  have step6: "mpsc_step SIZE s5 (s5\<lparr>mcons := MCIdle,
      mq := (mq s5)\<lparr>mp_head := mp_head (mq s5) + 1\<rparr>, c_head := Suc (c_head s5),
      delivered := delivered s5 @ [?v]\<rparr>)"
    by (rule mpsc_step.mc_advance) (simp add: s5_def)
  from relpowp_6I [where R = "mpsc_step SIZE", OF step1 step2 step3 step4 step5 step6] show ?thesis
    by (intro exI conjI, assumption) (simp_all add: s5_def s4_def s3_def s2_def s1_def)
qed

section \<open>Properties\<close>

lemma is_pow2_4: "is_pow2 4 2"
  by (simp add: is_pow2_def)

lemma mpsc_reach_init: "\<exists>s. reach (mpsc_sys_init SIZE) (mpsc_step SIZE) s \<and> mpsc_sys_init SIZE s"
  by (auto simp: mpsc_sys_init_def intro: reach_init)

text \<open>The template constraint admits exactly the powers of two.\<close>

lemma size_pow2_iff: "size_pow2 SIZE \<longleftrightarrow> (\<exists>k. is_pow2 SIZE k)"
proof
  assume "size_pow2 SIZE"
  then obtain k where k: "filter (bit SIZE) [0..<64] = [k]"
    by (auto simp: size_pow2_def popcount_def length_Suc_conv)
  then have bits: "i < 64 \<Longrightarrow> bit SIZE i \<longleftrightarrow> i = k" for i
  proof -
    assume "i < 64"
    then have "bit SIZE i \<longleftrightarrow> i \<in> set (filter (bit SIZE) [0..<64])" by simp
    with k show ?thesis by simp
  qed
  have "k \<in> set (filter (bit SIZE) [0..<64])" by (simp add: k)
  then have k64: "k < 64" by simp
  have "SIZE = 2 ^ k"
    by (rule bit_word_eqI) (use bits k64 in \<open>auto simp: bit_exp_iff\<close>)
  with k64 show "\<exists>k. is_pow2 SIZE k" by (auto simp: is_pow2_def)
next
  assume "\<exists>k. is_pow2 SIZE k"
  then obtain k where k: "k < 64" "SIZE = 2 ^ k" by (auto simp: is_pow2_def)
  have "filter (bit SIZE) [0..<64] = filter (\<lambda>i. i = k) [0..<64]"
    by (rule filter_cong) (use k in \<open>auto simp: bit_exp_iff\<close>)
  also have "length \<dots> = card {i. i < 64 \<and> i = k}"
    by (subst distinct_card [symmetric]) (auto intro!: arg_cong [of _ _ card])
  also have "{i. i < 64 \<and> i = k} = {k}" using k(1) by auto
  finally show "size_pow2 SIZE" by (simp add: size_pow2_def popcount_def)
qed

lemma size_pow2_4: "size_pow2 4"
  using is_pow2_4 size_pow2_iff by blast

text \<open>
  C7. MPSCQueue refines a bounded FIFO when called from one thread at a time. For every
  admitted \<^verbatim>\<open>SIZE\<close> and any number of spurious failures of \<^verbatim>\<open>compare_exchange_weak\<close> in each
  call, every sequence of \<^verbatim>\<open>try_push\<close> and \<^verbatim>\<open>try_pop\<close> calls on a fresh queue runs without a
  fault and answers as a list of at most \<^verbatim>\<open>SIZE\<close> elements does.
\<close>

theorem mpsc_refines_fifo:
  assumes "size_pow2 SIZE"
  shows "\<exists>q. queue_run (mpsc_push_alone SIZE n) (mpsc_try_pop SIZE) (mpsc_new SIZE) ps =
               Inr (fst (fifo_run (unat SIZE) [] ps), q) \<and>
             mpsc_contents SIZE q = snd (fifo_run (unat SIZE) [] ps)"
proof -
  obtain k where "is_pow2 SIZE k" using assms by (auto simp: size_pow2_iff)
  from mpsc.run_refines [OF mpsc_inv_new [OF this], of n ps] show ?thesis by auto
qed

theorem mpsc_refines_fifo_witness:
  "\<exists>q. queue_run (mpsc_push_alone 4 3) (mpsc_try_pop 4) (mpsc_new 4) [Enq (7::int), Deq, Deq, Enq 8] =
         Inr ([Pushed True, Popped (Some 7), Popped None, Pushed True], q) \<and> mpsc_contents 4 q = [8]"
  using mpsc_refines_fifo [OF size_pow2_4, of 3 "[Enq (7::int), Deq, Deq, Enq 8]"] by auto

text \<open>
  C8. Concurrent safety of MPSCQueue. In every interleaving of any number of producers and
  one consumer, with stale loads and with counters that wrap, the delivered elements are
  the claimed ones in ticket order (none lost, duplicated or overwritten), never more than
  \<^verbatim>\<open>SIZE\<close> tickets are open, no producer constructs over a live element, the consumer never
  touches a dead one, and the backoff counter stays between 1 and 64.
\<close>

theorem mpsc_fifo_safety:
  assumes "size_pow2 SIZE" "reach (mpsc_sys_init SIZE) (mpsc_step SIZE) s"
  shows "delivered s = take (length (delivered s)) (tickets s) \<and>
    length (tickets s) \<le> length (delivered s) + unat SIZE \<and>
    (\<nexists>e. mcons s = MCFault e) \<and> (\<nexists>p e. prods s p = MFault e) \<and>
    (\<forall>p x t b. prods s p = MLoop x t b \<longrightarrow> 1 \<le> unat b \<and> unat b \<le> 64)"
proof -
  obtain k where "is_pow2 SIZE k" using assms(1) by (auto simp: size_pow2_iff)
  from mpsc_reach_inv [OF this assms(2)] have inv: "mpsc_sys_inv SIZE s" .
  then have prod: "mp_producer_ok (unat SIZE) (c_head s) (c_tail s) (phase s) (tickets s) p (prods s p)" for p
    by (simp add: mpsc_sys_inv_def)
  have "prods s p \<noteq> MFault e" for p e using prod [of p] by auto
  moreover have "1 \<le> unat b \<and> unat b \<le> 64" if "prods s p = MLoop x t b" for p x t b
    using prod [of p] that by simp
  moreover have "mcons s \<noteq> MCFault e" for e using inv by (auto simp: mpsc_sys_inv_def)
  ultimately show ?thesis using inv by (simp add: mpsc_inv_defs)
qed

text \<open>One element goes through the queue while producer 0 holds the tail it loaded before.\<close>

lemma mpsc_stale_reach:
  assumes k: "is_pow2 SIZE k"
  shows "\<exists>s. reach (mpsc_sys_init SIZE) (mpsc_step SIZE) s \<and> prods s 0 = MLoop y 0 1 \<and>
    tickets s = [x] \<and> delivered s = [x] \<and> c_head s = 1 \<and> c_tail s = 1"
proof -
  obtain s0 :: "'a mpsc_sys" where r0: "reach (mpsc_sys_init SIZE) (mpsc_step SIZE) s0"
    and i0: "mpsc_sys_init SIZE s0"
    using mpsc_reach_init by blast
  let ?s1 = "s0\<lparr>prods := (prods s0)(0 := MLoop y 0 1)\<rparr>"
  have "mpsc_step SIZE s0 ?s1"
    using i0 by (intro mpsc_step.mp_load_tail) (auto simp: mpsc_sys_init_def)
  with r0 have r1: "reach (mpsc_sys_init SIZE) (mpsc_step SIZE) ?s1" by (rule reach_step)
  have f1: "prods ?s1 1 = MIdle" "c_tail ?s1 < c_head ?s1 + unat SIZE" "tickets ?s1 = []"
    "delivered ?s1 = []" "mcons ?s1 = MCIdle" "c_head ?s1 = 0" "c_tail ?s1 = 0" "prods ?s1 0 = MLoop y 0 1"
    using i0 pow2_pos [OF k] by (auto simp: mpsc_sys_init_def)
  from mpsc_solo_push [OF k mpsc_reach_inv [OF k r1] f1(1,2), of x]
  obtain s2 where s2: "(mpsc_step SIZE ^^ 5) ?s1 s2" "tickets s2 = [x]" "c_tail s2 = 1" "c_head s2 = 0"
      "mcons s2 = MCIdle" "delivered s2 = []" "prods s2 0 = MLoop y 0 1" "phase s2 0 = Published"
    unfolding f1 by auto
  have r2: "reach (mpsc_sys_init SIZE) (mpsc_step SIZE) s2" using r1 s2(1) by (rule reach_relpowp)
  from mpsc_solo_pop [OF k mpsc_reach_inv [OF k r2] s2(5)]
  obtain s3 where s3: "(mpsc_step SIZE ^^ 6) s2 s3" "delivered s3 = [x]" "c_head s3 = 1" "c_tail s3 = 1"
      "tickets s3 = [x]" "prods s3 0 = MLoop y 0 1"
    using s2 by auto
  from r2 s3(1) have "reach (mpsc_sys_init SIZE) (mpsc_step SIZE) s3" by (rule reach_relpowp)
  with s3 show ?thesis by blast
qed

theorem mpsc_fifo_safety_witness:
  "\<exists>s. reach (mpsc_sys_init 4) (mpsc_step 4) s \<and> tickets s = [7::int] \<and> delivered s = [7] \<and>
     delivered s = take (length (delivered s)) (tickets s) \<and> (\<nexists>e. mcons s = MCFault e)"
proof -
  obtain s :: "int mpsc_sys" where s: "reach (mpsc_sys_init 4) (mpsc_step 4) s"
      "tickets s = [7]" "delivered s = [7]"
    using mpsc_stale_reach [OF is_pow2_4, of 9 7] by blast
  then show ?thesis using mpsc_fifo_safety [OF size_pow2_4 s(1)] by blast
qed

text \<open>
  C9. Exclusive slots. Two producers that have claimed tickets write to different slots of
  \<^verbatim>\<open>m_array\<close>, and none of them to the slot the consumer is emptying.
\<close>

theorem mpsc_exclusive_slots:
  assumes "size_pow2 SIZE" "reach (mpsc_sys_init SIZE) (mpsc_step SIZE) s"
    and "prods s p = MConstruct x t \<or> prods s p = MReady x t"
  shows "(\<forall>q y u. q \<noteq> p \<and> (prods s q = MConstruct y u \<or> prods s q = MReady y u) \<longrightarrow>
      ring_idx SIZE (of_nat t) \<noteq> ring_idx SIZE (of_nat u)) \<and>
    (\<forall>v. mcons s = MCMove \<or> mcons s = MCDestroy v \<or> mcons s = MCUnready v \<longrightarrow>
      ring_idx SIZE (of_nat t) \<noteq> ring_idx SIZE (mp_head (mq s)))"
proof -
  obtain k where k: "is_pow2 SIZE k" using assms(1) by (auto simp: size_pow2_iff)
  have inv: "mpsc_sys_inv SIZE s" using mpsc_reach_inv [OF k assms(2)] .
  then have up: "c_tail s \<le> c_head s + unat SIZE" by (simp add: mpsc_inv_defs)
  note pt = mpsc_producer_slot [OF k inv assms(3)]
  have neq: "ring_idx SIZE (of_nat t) \<noteq> ring_idx SIZE (of_nat u)"
    if "c_head s \<le> u" "u < c_head s + unat SIZE" "phase s u \<noteq> phase s t" for u
  proof -
    have "t mod unat SIZE \<noteq> u mod unat SIZE"
      using that pt(3,4) up by (intro mod_window_neq [of "c_head s"]) auto
    then show ?thesis by (simp add: ring_idx_of_nat [OF k])
  qed
  have "ring_idx SIZE (of_nat t) \<noteq> ring_idx SIZE (of_nat u)"
    if "q \<noteq> p" "prods s q = MConstruct y u \<or> prods s q = MReady y u" for q y u
    using mpsc_producer_slot [OF k inv that(2)] pt(7) that(1) up
    by (intro neq) (auto split: if_splits)
  moreover have "ring_idx SIZE (of_nat t) \<noteq> ring_idx SIZE (mp_head (mq s))"
    if "mcons s = MCMove \<or> mcons s = MCDestroy v \<or> mcons s = MCUnready v" for v
    using neq [of "c_head s"] mpsc_head_slot [OF k inv] that pt(7) pow2_pos [OF k] inv
    by (auto simp: mpsc_inv_defs split: if_splits)
  ultimately show ?thesis by blast
qed

theorem mpsc_exclusive_slots_witness:
  "\<exists>s x. reach (mpsc_sys_init 4) (mpsc_step 4) s \<and> prods s 0 = MConstruct x 0 \<and> x = (7::int) \<and>
     (\<forall>q y u. q \<noteq> 0 \<and> (prods s q = MConstruct y u \<or> prods s q = MReady y u) \<longrightarrow>
       ring_idx 4 (of_nat 0) \<noteq> ring_idx 4 (of_nat u))"
proof -
  obtain s0 :: "int mpsc_sys" where r0: "reach (mpsc_sys_init 4) (mpsc_step 4) s0"
    and i0: "mpsc_sys_init 4 s0"
    using mpsc_reach_init by blast
  let ?s1 = "s0\<lparr>prods := (prods s0)(0 := MLoop 7 0 1)\<rparr>"
  have "mpsc_step 4 s0 ?s1"
    using i0 by (intro mpsc_step.mp_load_tail) (auto simp: mpsc_sys_init_def)
  with r0 have r1: "reach (mpsc_sys_init 4) (mpsc_step 4) ?s1" by (rule reach_step)
  let ?s2 = "?s1\<lparr>prods := (prods ?s1)(0 := MCas 7 0 1 0)\<rparr>"
  have "mpsc_step 4 ?s1 ?s2"
    by (rule mpsc_step.mp_room [of _ _ _ _ _ 0]) (simp_all add: word_le_nat_alt)
  with r1 have r2: "reach (mpsc_sys_init 4) (mpsc_step 4) ?s2" by (rule reach_step)
  let ?s3 = "?s2\<lparr>mq := (mq ?s2)\<lparr>mp_tail := of_nat 0 + 1\<rparr>, prods := (prods ?s2)(0 := MConstruct 7 0),
      c_tail := Suc (c_tail ?s2), phase := (phase ?s2)(0 := Claimed 0), tickets := tickets ?s2 @ [7]\<rparr>"
  have "mpsc_step 4 ?s2 ?s3"
    by (rule mpsc_step.mp_cas_ok [of _ _ _ _ 1 0])
      (use i0 in \<open>simp_all add: mpsc_sys_init_def mpsc_new_def\<close>)
  with r2 have r3: "reach (mpsc_sys_init 4) (mpsc_step 4) ?s3" by (rule reach_step)
  have pc: "prods ?s3 0 = MConstruct 7 0" by simp
  from mpsc_exclusive_slots [OF size_pow2_4 r3 disjI1 [OF pc]] r3 pc show ?thesis by blast
qed

text \<open>
  A push can be refused although the queue is empty. While one producer is between its
  load of \<^verbatim>\<open>m_tail\<close> and its load of \<^verbatim>\<open>m_head\<close>, another producer and the consumer move one
  element through; the difference \<^verbatim>\<open>tail - head\<close> then wraps below zero, the test
  \<^verbatim>\<open>tail - head >= SIZE\<close> succeeds on the current head, and \<^verbatim>\<open>try_push\<close> returns false with
  no element in the queue.
\<close>

theorem mpsc_spurious_full:
  assumes "size_pow2 SIZE"
  shows "\<exists>s t. reach (mpsc_sys_init SIZE) (mpsc_step SIZE) s \<and> c_head s = c_tail s \<and>
    length (delivered s) = length (tickets s) \<and>
    prods s 0 = MLoop y 0 1 \<and> SIZE \<le> of_nat 0 - mp_head (mq s) \<and>
    mpsc_step SIZE s t \<and> prods t 0 = MIdle \<and> tickets t = tickets s"
proof -
  obtain k where k: "is_pow2 SIZE k" using assms by (auto simp: size_pow2_iff)
  obtain s where s: "reach (mpsc_sys_init SIZE) (mpsc_step SIZE) s" "prods s 0 = MLoop y 0 1"
      "tickets s = [y]" "delivered s = [y]" "c_head s = 1" "c_tail s = 1"
    using mpsc_stale_reach [OF k, of y y] by blast
  have head: "mp_head (mq s) = of_nat (c_head s)"
    using mpsc_reach_inv [OF k s(1)] by (simp add: mpsc_inv_defs)
  have full: "SIZE \<le> of_nat 0 - of_nat (c_head s)"
    by (simp add: s(5))
  have "mpsc_step SIZE s (s\<lparr>prods := (prods s)(0 := MIdle)\<rparr>)"
    using s(2) order_refl full by (rule mpsc_step.mp_full)
  with s full head show ?thesis
    by (intro exI [of _ s] exI [of _ "s\<lparr>prods := (prods s)(0 := MIdle)\<rparr>"]) simp
qed

theorem mpsc_spurious_full_witness:
  "\<exists>s t. reach (mpsc_sys_init 4) (mpsc_step 4) s \<and> c_head s = c_tail s \<and>
    length (delivered s) = length (tickets s) \<and>
    prods s 0 = MLoop (7::int) 0 1 \<and> 4 \<le> of_nat 0 - mp_head (mq s) \<and>
    mpsc_step 4 s t \<and> prods t 0 = MIdle \<and> tickets t = tickets s"
  by (rule mpsc_spurious_full [OF size_pow2_4])

end
