(* ===== verification/MPSC_Progress.thy ===== *)
theory MPSC_Progress
  imports MPSC_Queue
begin

text \<open>
  Progress of the multi-producer queue of \<^verbatim>\<open>MPSC_Queue\<close>. A producer whose ticket is claimed and
  not published yet is still at work on it, so the queue never holds a slot that nobody will
  publish: from every reachable state each pending call can end by itself and everything that
  was claimed can be delivered.
\<close>

section \<open>Who publishes a ticket\<close>

definition tickets_owned :: "'a mpsc_sys \<Rightarrow> bool" where
  "tickets_owned s \<longleftrightarrow> (\<forall>t p. (phase s t = Claimed p \<longrightarrow> (\<exists>x. prods s p = MConstruct x t)) \<and>
     (phase s t = Built p \<longrightarrow> (\<exists>x. prods s p = MReady x t)))"

definition mpsc_live_inv :: "sz_t \<Rightarrow> 'a mpsc_sys \<Rightarrow> bool" where
  "mpsc_live_inv SIZE s \<longleftrightarrow> mpsc_sys_inv SIZE s \<and> tickets_owned s"

lemma tickets_ownedD:
  assumes "tickets_owned s" "phase s t = Claimed p \<or> phase s t = Built p"
  shows "\<exists>x. prods s p = (if phase s t = Claimed p then MConstruct x t else MReady x t)"
  using assms by (auto simp: tickets_owned_def)

text \<open>A producer that owns no ticket can go anywhere that needs none.\<close>

lemma tickets_owned_move:
  assumes "tickets_owned s" "\<nexists>x t. prods s p = MConstruct x t \<or> prods s p = MReady x t"
  shows "tickets_owned (s\<lparr>prods := (prods s)(p := pc)\<rparr>)"
  using assms by (auto simp: tickets_owned_def) metis+

lemma tickets_owned_phase:
  "tickets_owned s \<Longrightarrow> phase s' = (phase s)(t := ph) \<Longrightarrow> ph \<in> {Published, Emptied, Cleared} \<Longrightarrow> prods s' = prods s \<Longrightarrow>
   tickets_owned s'"
  by (auto simp: tickets_owned_def)

lemma tickets_owned_same: "tickets_owned s \<Longrightarrow> phase s' = phase s \<Longrightarrow> prods s' = prods s \<Longrightarrow> tickets_owned s'"
  by (simp add: tickets_owned_def)

text \<open>A producer has one ticket at a time, and the ticket changes with it.\<close>

lemma tickets_owned_ticket:
  assumes own: "tickets_owned s" and ph: "phase s' = (phase s)(t := ph)" and pr: "prods s' = (prods s)(p := pc)"
    and mine: "\<And>u q x. phase s u = Claimed q \<or> phase s u = Built q \<Longrightarrow> q = p \<Longrightarrow> u = t"
    and new: "(\<exists>x. ph = Claimed p \<and> pc = MConstruct x t) \<or> (\<exists>x. ph = Built p \<and> pc = MReady x t) \<or> ph = Published"
  shows "tickets_owned s'"
  unfolding tickets_owned_def
proof (intro allI conjI impI)
  fix u q
  have other: "prods s' q = prods s q \<and> phase s' u = phase s u" if "u \<noteq> t" "phase s u = Claimed q \<or> phase s u = Built q"
    using mine [OF that(2)] that(1) by (auto simp: ph pr)
  show "\<exists>x. prods s' q = MConstruct x u" if "phase s' u = Claimed q"
  proof (cases "u = t")
    case True
    with that new show ?thesis by (auto simp: ph pr)
  next
    case False
    with that other have "phase s u = Claimed q" "prods s' q = prods s q" by (simp_all add: ph)
    with own show ?thesis by (simp add: tickets_owned_def)
  qed
  show "\<exists>x. prods s' q = MReady x u" if "phase s' u = Built q"
  proof (cases "u = t")
    case True
    with that new show ?thesis by (auto simp: ph pr)
  next
    case False
    with that other have "phase s u = Built q" "prods s' q = prods s q" by (simp_all add: ph)
    with own show ?thesis by (simp add: tickets_owned_def)
  qed
qed

lemma tickets_owned_step:
  assumes k: "is_pow2 SIZE k" and inv: "mpsc_sys_inv SIZE s" and own: "tickets_owned s" and st: "mpsc_step SIZE s s'"
  shows "tickets_owned s'"
  using st
proof cases
  case (mp_cas_ok p x t b h)
  show ?thesis
  proof (rule tickets_owned_ticket [OF own])
    show "phase s' = (phase s)(t := Claimed p)" "prods s' = (prods s)(p := MConstruct x t)" using mp_cas_ok by simp_all
    show "u = t" if "phase s u = Claimed q \<or> phase s u = Built q" "q = p" for u q
      using tickets_ownedD [OF own that(1)] that(2) mp_cas_ok by (auto split: if_splits)
  qed simp
next
  case (mp_construct p x t arr)
  show ?thesis
  proof (rule tickets_owned_ticket [OF own])
    show "phase s' = (phase s)(t := Built p)" "prods s' = (prods s)(p := MReady x t)" using mp_construct by simp_all
    show "u = t" if "phase s u = Claimed q \<or> phase s u = Built q" "q = p" for u q
      using tickets_ownedD [OF own that(1)] that(2) mp_construct by (auto split: if_splits)
  qed simp
next
  case (mp_ready p x t)
  show ?thesis
  proof (rule tickets_owned_ticket [OF own])
    show "phase s' = (phase s)(t := Published)" "prods s' = (prods s)(p := MIdle)" using mp_ready by simp_all
    show "u = t" if "phase s u = Claimed q \<or> phase s u = Built q" "q = p" for u q
      using tickets_ownedD [OF own that(1)] that(2) mp_ready by (auto split: if_splits)
  qed simp
next
  case (mp_construct_fault p x t e)
  with mpsc_construct_run [OF k inv] show ?thesis by simp
next
  case (mp_load_tail p t x)
  from tickets_owned_move [OF own] mp_load_tail(2) show ?thesis unfolding mp_load_tail(1) by simp
next
  case (mp_full p x t b h)
  from tickets_owned_move [OF own] mp_full(2) show ?thesis unfolding mp_full(1) by simp
next
  case (mp_room p x t b h)
  from tickets_owned_move [OF own] mp_room(2) show ?thesis unfolding mp_room(1) by simp
next
  case (mp_cas_fail p x t b h t')
  from tickets_owned_move [OF own] mp_cas_fail(2) show ?thesis unfolding mp_cas_fail(1) by simp
next
  case (mc_destroy v arr)
  show ?thesis unfolding mc_destroy(1) by (rule tickets_owned_phase [OF own, of _ "c_head s" Emptied]) simp_all
next
  case (mc_unready v)
  show ?thesis unfolding mc_unready(1) by (rule tickets_owned_phase [OF own, of _ "c_head s" Cleared]) simp_all
qed (rule tickets_owned_same [OF own]; simp)+

lemma mpsc_live_step: "is_pow2 SIZE k \<Longrightarrow> mpsc_live_inv SIZE s \<Longrightarrow> mpsc_step SIZE s t \<Longrightarrow> mpsc_live_inv SIZE t"
  by (auto simp: mpsc_live_inv_def intro: mpsc_sys_inv_step tickets_owned_step)

lemma mpsc_live_steps: "is_pow2 SIZE k \<Longrightarrow> (mpsc_step SIZE)\<^sup>*\<^sup>* s t \<Longrightarrow> mpsc_live_inv SIZE s \<Longrightarrow> mpsc_live_inv SIZE t"
  by (rotate_tac, induction rule: rtranclp_induct) (auto intro: mpsc_live_step)

interpretation mpsc_live: inductive_invariant "mpsc_sys_init SIZE" "mpsc_step SIZE"
  "\<lambda>s. (\<exists>k. is_pow2 SIZE k) \<longrightarrow> mpsc_live_inv SIZE s" for SIZE
proof
  show "(\<exists>k. is_pow2 SIZE k) \<longrightarrow> mpsc_live_inv SIZE s" if "mpsc_sys_init SIZE s" for s :: "'a mpsc_sys"
    using that mpsc_sys_inv_init [of SIZE _ s] by (auto simp: mpsc_live_inv_def tickets_owned_def mpsc_sys_init_def)
  show "(\<exists>k. is_pow2 SIZE k) \<longrightarrow> mpsc_live_inv SIZE t"
    if "(\<exists>k. is_pow2 SIZE k) \<longrightarrow> mpsc_live_inv SIZE s" "mpsc_step SIZE s t" for s t :: "'a mpsc_sys"
    using that by (auto intro: mpsc_live_step)
qed

section \<open>A producer alone\<close>

definition solo_frame :: "nat \<Rightarrow> 'a mpsc_sys \<Rightarrow> 'a mpsc_sys \<Rightarrow> bool" where
  "solo_frame p s t \<longleftrightarrow> (\<forall>q. q \<noteq> p \<longrightarrow> prods t q = prods s q) \<and> mcons t = mcons s"

definition finishes :: "sz_t \<Rightarrow> nat \<Rightarrow> nat \<Rightarrow> 'a mpsc_sys \<Rightarrow> bool" where
  "finishes SIZE p n s \<longleftrightarrow> (\<exists>m\<le>n. \<exists>t. (mpsc_step SIZE ^^ m) s t \<and> prods t p = MIdle \<and> solo_frame p s t)"

lemma finishes_idle: "prods s p = MIdle \<Longrightarrow> finishes SIZE p n s"
  unfolding finishes_def by (intro exI [of _ 0]) (auto simp: solo_frame_def)

lemma finishes_mono: "finishes SIZE p m s \<Longrightarrow> m \<le> n \<Longrightarrow> finishes SIZE p n s"
  unfolding finishes_def by (meson le_trans)

lemma finishes_step:
  assumes "mpsc_step SIZE s u" "solo_frame p s u" "finishes SIZE p n u"
  shows "finishes SIZE p (Suc n) s"
proof -
  from assms(3) obtain m t where m: "m \<le> n" "(mpsc_step SIZE ^^ m) u t" "prods t p = MIdle" "solo_frame p u t"
    by (auto simp: finishes_def)
  have "(mpsc_step SIZE ^^ Suc m) s t" using assms(1) m(2) by (rule relpowp_Suc_I2)
  with m assms(2) show ?thesis unfolding finishes_def by (intro exI [of _ "Suc m"]) (auto simp: solo_frame_def)
qed

lemma finishes_ready: "prods s p = MReady x t \<Longrightarrow> finishes SIZE p 1 s"
  using finishes_step [OF mp_ready [of s p x t SIZE], where p = p and n = 0] by (simp add: solo_frame_def finishes_idle)

lemma finishes_construct:
  assumes "is_pow2 SIZE k" "mpsc_sys_inv SIZE s" "prods s p = MConstruct x t"
  shows "finishes SIZE p 2 s"
proof -
  have "finishes SIZE p (Suc 1) s"
    by (rule finishes_step [OF mp_construct [OF assms(3) mpsc_construct_run [OF assms]] _ finishes_ready])
      (simp_all add: solo_frame_def)
  then show ?thesis by (simp add: numeral_2_eq_2)
qed

lemma finishes_cas_current:
  assumes k: "is_pow2 SIZE k" and inv: "mpsc_sys_inv SIZE s" and pc: "prods s p = MCas x (c_tail s) b h"
  shows "finishes SIZE p 3 s"
proof -
  have tail: "mp_tail (mq s) = of_nat (c_tail s)" using inv by (simp add: mpsc_inv_defs)
  have lt: "c_tail s < c_tail s + 2 ^ 64" by simp
  note st = mp_cas_ok [OF pc tail lt]
  have "finishes SIZE p (Suc 2) s"
    by (rule finishes_step [OF st _ finishes_construct [OF k mpsc_sys_inv_step [OF k st inv]]]) (simp_all add: solo_frame_def)
  then show ?thesis by (simp add: numeral_eq_Suc)
qed

text \<open>With the current tail a round of the loop ends the call: refused when full, else the claim succeeds.\<close>

lemma finishes_loop_current:
  assumes k: "is_pow2 SIZE k" and inv: "mpsc_sys_inv SIZE s" and pc: "prods s p = MLoop x (c_tail s) b"
  shows "finishes SIZE p 4 s"
proof (cases "SIZE \<le> of_nat (c_tail s) - of_nat (c_head s)")
  case True
  have "finishes SIZE p (Suc 0) s"
    by (rule finishes_step [OF mp_full [OF pc order_refl True]]) (simp_all add: solo_frame_def finishes_idle)
  then show ?thesis by (rule finishes_mono) simp
next
  case False
  have "c_tail s < c_head s + 2 ^ 64" using inv pow2_le [OF k] pow2_pos [OF k] by (auto simp: mpsc_inv_defs)
  note st = mp_room [OF pc order_refl False this]
  have "finishes SIZE p (Suc 3) s"
    by (rule finishes_step [OF st _ finishes_cas_current [OF k mpsc_sys_inv_step [OF k st inv]]]) (simp_all add: solo_frame_def)
  then show ?thesis by (simp add: numeral_eq_Suc)
qed

lemma finishes_cas:
  assumes k: "is_pow2 SIZE k" and inv: "mpsc_sys_inv SIZE s" and pc: "prods s p = MCas x t b h"
  shows "finishes SIZE p 5 s"
proof -
  note st = mp_cas_fail [OF pc order_refl]
  have "finishes SIZE p (Suc 4) s"
    by (rule finishes_step [OF st _ finishes_loop_current [OF k mpsc_sys_inv_step [OF k st inv]]]) (simp_all add: solo_frame_def)
  then show ?thesis by (simp add: numeral_eq_Suc)
qed

lemma finishes_loop:
  assumes k: "is_pow2 SIZE k" and inv: "mpsc_sys_inv SIZE s" and pc: "prods s p = MLoop x t b"
  shows "finishes SIZE p 6 s"
proof (cases "SIZE \<le> of_nat t - of_nat (c_head s)")
  case True
  have "finishes SIZE p (Suc 0) s"
    by (rule finishes_step [OF mp_full [OF pc order_refl True]]) (simp_all add: solo_frame_def finishes_idle)
  then show ?thesis by (rule finishes_mono) simp
next
  case False
  have "mp_producer_ok (unat SIZE) (c_head s) (c_tail s) (phase s) (tickets s) p (prods s p)"
    using inv by (simp add: mpsc_sys_inv_def)
  then have "t < c_head s + 2 ^ 64" using inv pow2_le [OF k] pow2_pos [OF k] by (auto simp: mpsc_inv_defs pc)
  note st = mp_room [OF pc order_refl False this]
  have "finishes SIZE p (Suc 5) s"
    by (rule finishes_step [OF st _ finishes_cas [OF k mpsc_sys_inv_step [OF k st inv]]]) (simp_all add: solo_frame_def)
  then show ?thesis by (simp add: numeral_eq_Suc)
qed

lemma finishes_any:
  assumes k: "is_pow2 SIZE k" and inv: "mpsc_sys_inv SIZE s"
  shows "finishes SIZE p 6 s"
proof (cases "prods s p")
  case MIdle
  then show ?thesis by (rule finishes_idle)
next
  case (MFault e)
  have "mp_producer_ok (unat SIZE) (c_head s) (c_tail s) (phase s) (tickets s) p (prods s p)"
    using inv by (simp add: mpsc_sys_inv_def)
  with MFault show ?thesis by simp
next
  case (MLoop x t b)
  then show ?thesis by (rule finishes_loop [OF assms])
next
  case (MCas x t b h)
  from finishes_cas [OF assms this] show ?thesis by (rule finishes_mono) simp
next
  case (MConstruct x t)
  from finishes_construct [OF assms this] show ?thesis by (rule finishes_mono) simp
next
  case (MReady x t)
  from finishes_ready [OF this] show ?thesis by (rule finishes_mono) simp
qed

section \<open>Nothing stays in the queue\<close>

lemma one_step: "R s t \<Longrightarrow> P t \<Longrightarrow> \<exists>t. R\<^sup>*\<^sup>* s t \<and> P t"
  by blast

text \<open>A pop that has begun can be completed by the consumer alone.\<close>

lemma consumer_advance: "mcons s = MCAdvance v \<Longrightarrow> \<exists>t. (mpsc_step SIZE)\<^sup>*\<^sup>* s t \<and> mcons t = MCIdle \<and> tickets t = tickets s"
  using one_step [of "mpsc_step SIZE" s _ "\<lambda>t. mcons t = MCIdle \<and> tickets t = tickets s", OF mc_advance] by simp

lemma consumer_unready:
  assumes "mcons s = MCUnready v"
  shows "\<exists>t. (mpsc_step SIZE)\<^sup>*\<^sup>* s t \<and> mcons t = MCIdle \<and> tickets t = tickets s"
proof -
  obtain u where u: "mpsc_step SIZE s u" "mcons u = MCAdvance v" "tickets u = tickets s" using mc_unready [OF assms] by fastforce
  with consumer_advance [OF u(2)] show ?thesis by (metis converse_rtranclp_into_rtranclp)
qed

lemma consumer_destroy:
  assumes "is_pow2 SIZE k" "mpsc_sys_inv SIZE s" "mcons s = MCDestroy v"
  shows "\<exists>t. (mpsc_step SIZE)\<^sup>*\<^sup>* s t \<and> mcons t = MCIdle \<and> tickets t = tickets s"
proof -
  obtain u where u: "mpsc_step SIZE s u" "mcons u = MCUnready v" "tickets u = tickets s"
    using mc_destroy [OF assms(3) mpsc_destroy_run(2) [OF assms(1,2) disjI2 [OF assms(3)]]] by fastforce
  with consumer_unready [OF u(2)] show ?thesis by (metis converse_rtranclp_into_rtranclp)
qed

lemma consumer_move:
  assumes k: "is_pow2 SIZE k" and inv: "mpsc_sys_inv SIZE s" and pc: "mcons s = MCMove"
  shows "\<exists>t. (mpsc_step SIZE)\<^sup>*\<^sup>* s t \<and> mcons t = MCIdle \<and> tickets t = tickets s"
proof -
  note st = mc_move [OF pc mpsc_destroy_run(1) [OF k inv disjI1 [OF pc]]]
  obtain u where u: "mpsc_step SIZE s u" "mcons u = MCDestroy (tickets s ! c_head s)" "tickets u = tickets s" using st by fastforce
  with consumer_destroy [OF k mpsc_sys_inv_step [OF k u(1) inv] u(2)] show ?thesis by (metis converse_rtranclp_into_rtranclp)
qed

lemma consumer_finishes:
  assumes k: "is_pow2 SIZE k" and inv: "mpsc_sys_inv SIZE s"
  shows "\<exists>t. (mpsc_step SIZE)\<^sup>*\<^sup>* s t \<and> mcons t = MCIdle \<and> tickets t = tickets s"
proof (cases "mcons s")
  case MCCheck
  then show ?thesis
    using one_step [of "mpsc_step SIZE" s _ "\<lambda>t. mcons t = MCIdle \<and> tickets t = tickets s", OF mc_not_ready] by simp
next
  case (MCFault e)
  then show ?thesis using mpsc_head_slot(4) [OF assms] by simp
next
  case MCIdle
  then show ?thesis by blast
qed (simp_all add: consumer_move [OF assms] consumer_destroy [OF assms] consumer_unready consumer_advance)

text \<open>The head ticket is published, or its producer publishes it next.\<close>

lemma publish_head:
  assumes k: "is_pow2 SIZE k" and live: "mpsc_live_inv SIZE s" and idle: "mcons s = MCIdle" and ne: "c_head s < c_tail s"
  shows "\<exists>t. (mpsc_step SIZE)\<^sup>*\<^sup>* s t \<and> mcons t = MCIdle \<and> tickets t = tickets s \<and> c_head t = c_head s \<and> c_tail t = c_tail s \<and>
    phase t (c_head s) = Published"
proof -
  have inv: "mpsc_sys_inv SIZE s" and own: "tickets_owned s" using live by (simp_all add: mpsc_live_inv_def)
  have publish: "\<exists>u. mpsc_step SIZE t u \<and> mcons u = MCIdle \<and> tickets u = tickets s \<and> c_head u = c_head s \<and> c_tail u = c_tail s \<and>
      phase u (c_head s) = Published"
    if "prods t p = MReady x (c_head s)" "mcons t = MCIdle" "tickets t = tickets s" "c_head t = c_head s" "c_tail t = c_tail s" for t p x
    using mp_ready [OF that(1), of SIZE] that(2-) by (fastforce simp: fun_upd_def)
  have "phase s (c_head s) \<noteq> Unclaimed" using inv ne by (auto simp: mpsc_sys_inv_def mpsc_slots_ok_def)
  moreover have "phase s (c_head s) \<noteq> Emptied \<and> phase s (c_head s) \<noteq> Cleared" using mpsc_head_slot(4) [OF k inv] idle by simp
  ultimately consider (pub) "phase s (c_head s) = Published" | (built) p where "phase s (c_head s) = Built p"
    | (claimed) p where "phase s (c_head s) = Claimed p" by (cases "phase s (c_head s)") auto
  then show ?thesis
  proof cases
    case pub
    with idle show ?thesis by blast
  next
    case (built p)
    then obtain x where "prods s p = MReady x (c_head s)" using own by (auto simp: tickets_owned_def)
    with publish [of s p x] idle show ?thesis by (meson r_into_rtranclp)
  next
    case (claimed p)
    then obtain x where pc: "prods s p = MConstruct x (c_head s)" using own by (auto simp: tickets_owned_def)
    obtain u where u: "mpsc_step SIZE s u" "prods u p = MReady x (c_head s)" "mcons u = MCIdle" "tickets u = tickets s"
        "c_head u = c_head s" "c_tail u = c_tail s"
      using mp_construct [OF pc mpsc_construct_run [OF k inv pc]] idle by fastforce
    from publish [OF u(2-)] u(1) show ?thesis by (meson converse_rtranclp_into_rtranclp r_into_rtranclp)
  qed
qed

lemma drain_idle:
  assumes k: "is_pow2 SIZE k"
  shows "mpsc_live_inv SIZE s \<Longrightarrow> mcons s = MCIdle \<Longrightarrow> \<exists>t. (mpsc_step SIZE)\<^sup>*\<^sup>* s t \<and> tickets t = tickets s \<and> delivered t = tickets s"
proof (induction "c_tail s - c_head s" arbitrary: s rule: less_induct)
  case less
  have inv: "mpsc_sys_inv SIZE s" using less.prems by (simp add: mpsc_live_inv_def)
  show ?case
  proof (cases "c_head s < c_tail s")
    case False
    with inv have "delivered s = tickets s" by (auto simp: mpsc_inv_defs)
    then show ?thesis by blast
  next
    case True
    from publish_head [OF k less.prems True] obtain u where
      u: "(mpsc_step SIZE)\<^sup>*\<^sup>* s u" "mcons u = MCIdle" "tickets u = tickets s" "c_head u = c_head s" "c_tail u = c_tail s"
        "phase u (c_head u) = Published" by metis
    have lu: "mpsc_live_inv SIZE u" by (rule mpsc_live_steps [OF k u(1) less.prems(1)])
    then have iu: "mpsc_sys_inv SIZE u" by (simp add: mpsc_live_inv_def)
    from mpsc_solo_pop [OF k iu u(2,6)] obtain v where
      v: "(mpsc_step SIZE ^^ 6) u v" "c_head v = Suc (c_head s)" "c_tail v = c_tail s" "tickets v = tickets s" "mcons v = MCIdle"
      using u by auto
    have sv: "(mpsc_step SIZE)\<^sup>*\<^sup>* u v" using v(1) by (rule relpowp_imp_rtranclp)
    have "\<exists>t. (mpsc_step SIZE)\<^sup>*\<^sup>* v t \<and> tickets t = tickets v \<and> delivered t = tickets v"
      using True v by (intro less.hyps mpsc_live_steps [OF k sv lu]) simp_all
    with u(1) sv v(4) show ?thesis by (metis rtranclp_trans)
  qed
qed

section \<open>Properties\<close>

text \<open>
  C10. Progress of MPSCQueue. From every reachable state, whatever the others are in the middle
  of: every call of \<^verbatim>\<open>try_push\<close> can return within six steps of its own producer; an idle
  producer that finds room inserts in five; and there is a run that claims no further ticket
  and delivers every element whose ticket was claimed, in ticket order: no claimed slot is ever
  left behind.\<close>

theorem mpsc_progress:
  assumes "size_pow2 SIZE" and "reach (mpsc_sys_init SIZE) (mpsc_step SIZE) s"
  shows "(\<exists>m\<le>6. \<exists>t. (mpsc_step SIZE ^^ m) s t \<and> prods t p = MIdle \<and> (\<forall>q. q \<noteq> p \<longrightarrow> prods t q = prods s q) \<and> mcons t = mcons s) \<and>
    (prods s p = MIdle \<and> length (tickets s) < length (delivered s) + unat SIZE \<longrightarrow>
      (\<exists>t. (mpsc_step SIZE ^^ 5) s t \<and> tickets t = tickets s @ [x] \<and> prods t = prods s \<and> mcons t = mcons s)) \<and>
    (\<exists>t. (mpsc_step SIZE)\<^sup>*\<^sup>* s t \<and> tickets t = tickets s \<and> delivered t = tickets s)"
proof -
  obtain k where k: "is_pow2 SIZE k" using assms(1) by (auto simp: size_pow2_iff)
  have live: "mpsc_live_inv SIZE s" using mpsc_live.reach_inv [OF assms(2)] k by blast
  then have inv: "mpsc_sys_inv SIZE s" by (simp add: mpsc_live_inv_def)
  then have len: "length (tickets s) = c_tail s" "length (delivered s) = c_head s" by (auto simp: mpsc_inv_defs)
  from consumer_finishes [OF k inv] obtain u where
    u: "(mpsc_step SIZE)\<^sup>*\<^sup>* s u" "mcons u = MCIdle" "tickets u = tickets s" by blast
  from drain_idle [OF k mpsc_live_steps [OF k u(1) live] u(2)] u have
    "\<exists>t. (mpsc_step SIZE)\<^sup>*\<^sup>* s t \<and> tickets t = tickets s \<and> delivered t = tickets s" by (metis rtranclp_trans)
  moreover have "\<exists>t. (mpsc_step SIZE ^^ 5) s t \<and> tickets t = tickets s @ [x] \<and> prods t = prods s \<and> mcons t = mcons s"
    if "prods s p = MIdle" "length (tickets s) < length (delivered s) + unat SIZE"
    using mpsc_solo_push [OF k inv that(1), of x] that(2) len by auto
  ultimately show ?thesis using finishes_any [OF k inv, of p] unfolding finishes_def solo_frame_def by blast
qed

theorem mpsc_progress_witness:
  "\<exists>(s :: int mpsc_sys) t. reach (mpsc_sys_init 4) (mpsc_step 4) s \<and> tickets s = [7] \<and> delivered s = [] \<and>
     (mpsc_step 4)\<^sup>*\<^sup>* s t \<and> delivered t = [7]"
proof -
  obtain s0 :: "int mpsc_sys" where r0: "reach (mpsc_sys_init 4) (mpsc_step 4) s0" and i: "mpsc_sys_init 4 s0"
    using mpsc_reach_init by blast
  from i have "prods s0 0 = MIdle" "tickets s0 = []" "delivered s0 = []" "c_head s0 = 0" "c_tail s0 = 0"
    by (simp_all add: mpsc_sys_init_def)
  then obtain s where s: "(mpsc_step 4 ^^ 5) s0 s" "tickets s = [7]" "delivered s = []"
    using mpsc_solo_push [OF is_pow2_4 mpsc_reach_inv [OF is_pow2_4 r0], of 0 7] by auto
  have r: "reach (mpsc_sys_init 4) (mpsc_step 4) s" using r0 s(1) by (rule reach_relpowp)
  from mpsc_progress [OF size_pow2_4 r] s r show ?thesis by metis
qed

end
