(* ===== verification/MPSC_Bench.thy ===== *)
theory MPSC_Bench
  imports MPSC_Progress "HOL-Library.Multiset"
begin

text \<open>
  The benchmark \<^verbatim>\<open>BM_MPSCQueue_ManyProducersOneConsumer\<close> of \<^verbatim>\<open>benchmarks/MPSCQueue_bench.cc\<close>, a client of the
  multi-producer queue: four threads insert the numbers below 256, each repeating a call that is refused,
  and the main thread counts 1024 removals and joins them. It runs on the steps of \<^verbatim>\<open>MPSC_Queue\<close>. The queue outlives
  the iterations of the benchmark: an iteration starts from any state in which no call is under way and the queue is
  empty. The loop counters stay far below \<open>2 ^ 64\<close> and are natural numbers.
\<close>

section \<open>The program\<close>

definition BENCH_N :: sz_t where
  "BENCH_N = push_bit 10 1"

definition N_PER_PRODUCER :: nat where
  "N_PER_PRODUCER = unat (drop_bit 2 BENCH_N)"

text \<open>\<open>before\<close> is what earlier iterations put through the queue.\<close>

record bench =
  bq :: "int mpsc_sys"
  bi :: "nat \<Rightarrow> nat"
  bpopped :: nat
  before :: "int list"

definition quiescent :: "'a mpsc_sys \<Rightarrow> bool" where
  "quiescent s \<longleftrightarrow> prods s = (\<lambda>_. MIdle) \<and> mcons s = MCIdle \<and> delivered s = tickets s"

definition bench_start :: "bench \<Rightarrow> bool" where
  "bench_start e \<longleftrightarrow> reach (mpsc_sys_init BENCH_N) (mpsc_step BENCH_N) (bq e) \<and> quiescent (bq e) \<and>
     bi e = (\<lambda>_. 0) \<and> bpopped e = 0 \<and> before e = tickets (bq e)"

text \<open>A call of \<^verbatim>\<open>try_push\<close> or \<^verbatim>\<open>try_pop\<close> returns true with its last step.\<close>

definition push_done :: "'a mpsc_sys \<Rightarrow> 'a mpsc_sys \<Rightarrow> nat \<Rightarrow> bool" where
  "push_done s t p \<longleftrightarrow> (case prods s p of MReady _ _ \<Rightarrow> prods t p = MIdle | _ \<Rightarrow> False)"

definition pop_done :: "'a mpsc_sys \<Rightarrow> 'a mpsc_sys \<Rightarrow> bool" where
  "pop_done s t \<longleftrightarrow> (case mcons s of MCAdvance _ \<Rightarrow> mcons t = MCIdle | _ \<Rightarrow> False)"

text \<open>Which calls the threads make: there are four producers, their loops and their arguments, and the loop of the main thread.\<close>

definition bench_calls :: "bench \<Rightarrow> int mpsc_sys \<Rightarrow> bool" where
  "bench_calls e q \<longleftrightarrow>
     (\<forall>p. prods (bq e) p = MIdle \<longrightarrow>
        (case prods q p of MIdle \<Rightarrow> True | MLoop x _ _ \<Rightarrow> p < 4 \<and> bi e p < N_PER_PRODUCER \<and> x = int (bi e p) | _ \<Rightarrow> False)) \<and>
     (mcons (bq e) = MCIdle \<longrightarrow> mcons q = MCIdle \<or> bpopped e < unat BENCH_N)"

definition bench_after :: "bench \<Rightarrow> int mpsc_sys \<Rightarrow> bench" where
  "bench_after e q = e\<lparr>bq := q, bi := (\<lambda>p. if push_done (bq e) q p then bi e p + 1 else bi e p),
     bpopped := (if pop_done (bq e) q then bpopped e + 1 else bpopped e)\<rparr>"

inductive bench_step :: "bench \<Rightarrow> bench \<Rightarrow> bool" where
  bench_queue: "mpsc_step BENCH_N (bq e) q \<Longrightarrow> bench_calls e q \<Longrightarrow> bench_step e (bench_after e q)"

inductive_cases bench_step_elim: "bench_step e e'"

text \<open>The loops of all threads are left.\<close>

definition bench_joined :: "bench \<Rightarrow> bool" where
  "bench_joined e \<longleftrightarrow> (\<forall>p<4. prods (bq e) p = MIdle \<and> \<not> bi e p < N_PER_PRODUCER) \<and> mcons (bq e) = MCIdle \<and> \<not> bpopped e < unat BENCH_N"

section \<open>Invariant\<close>

lemma bench_pow2: "is_pow2 BENCH_N 10"
  by (simp add: is_pow2_def BENCH_N_def)

lemma bench_size [simp]: "unat BENCH_N = 1024" "N_PER_PRODUCER = 256"
  by (simp_all add: BENCH_N_def N_PER_PRODUCER_def drop_bit_eq_div)

definition producer_arg :: "nat \<Rightarrow> nat \<Rightarrow> int mp_producer \<Rightarrow> bool" where
  "producer_arg p i pc \<longleftrightarrow>
     (case pc of
        MIdle \<Rightarrow> True
      | MLoop x _ _ \<Rightarrow> p < 4 \<and> i < 256 \<and> x = int i
      | MCas x _ _ _ \<Rightarrow> p < 4 \<and> i < 256 \<and> x = int i
      | MConstruct x _ \<Rightarrow> p < 4 \<and> i < 256 \<and> x = int i
      | MReady x _ \<Rightarrow> p < 4 \<and> i < 256 \<and> x = int i
      | MFault _ \<Rightarrow> False)"

text \<open>How many tickets a producer has claimed: one more than its finished calls while it owns a slot.\<close>

definition claims :: "nat \<Rightarrow> int mp_producer \<Rightarrow> nat" where
  "claims i pc = (case pc of MConstruct _ _ \<Rightarrow> i + 1 | MReady _ _ \<Rightarrow> i + 1 | _ \<Rightarrow> i)"

definition claimed_items :: "bench \<Rightarrow> int multiset" where
  "claimed_items e = (\<Sum>p<4. mset (map int [0..<claims (bi e p) (prods (bq e) p)]))"

definition bench_inv :: "bench \<Rightarrow> bool" where
  "bench_inv e \<longleftrightarrow> mpsc_live_inv BENCH_N (bq e) \<and> (\<forall>p. producer_arg p (bi e p) (prods (bq e) p) \<and> bi e p \<le> 256) \<and>
     (\<exists>xs. tickets (bq e) = before e @ xs \<and> mset xs = claimed_items e) \<and> c_head (bq e) = length (before e) + bpopped e \<and>
     (mcons (bq e) \<noteq> MCIdle \<longrightarrow> bpopped e < 1024)"

lemma lessThan_4: "{..<4 :: nat} = {0, 1, 2, 3}"
  by auto

lemma claimed_size: "size (claimed_items e) = (\<Sum>p<4. claims (bi e p) (prods (bq e) p))"
  by (simp add: claimed_items_def lessThan_4)

text \<open>One producer's count changes by one, the others stay.\<close>

lemma claimed_more:
  fixes p :: nat
  assumes "p < 4" "c' p = Suc (c p)" "\<And>q. q \<noteq> p \<Longrightarrow> c' q = c q"
  shows "(\<Sum>p<(4 :: nat). mset (map int [0..<c' p])) = add_mset (int (c p)) (\<Sum>p<4. mset (map int [0..<c p]))"
proof -
  have "(\<Sum>q\<in>{..<4} - {p}. mset (map int [0..<c' q])) = (\<Sum>q\<in>{..<4} - {p}. mset (map int [0..<c q]))"
    using assms(3) by (intro sum.cong) auto
  then show ?thesis using assms(1,2) by (simp add: sum.remove [of "{..<4}" p] atLeast0_lessThan_Suc)
qed

lemma bench_counts:
  assumes "bench_inv e"
  shows "c_tail (bq e) = length (before e) + (\<Sum>p<4. claims (bi e p) (prods (bq e) p))"
    "c_head (bq e) = length (before e) + bpopped e" "c_head (bq e) \<le> c_tail (bq e)"
    "mpsc_sys_inv BENCH_N (bq e)" "tickets_owned (bq e)" "(\<Sum>p<4. claims (bi e p) (prods (bq e) p)) \<le> 1024"
proof -
  obtain xs where xs: "tickets (bq e) = before e @ xs" "mset xs = claimed_items e" using assms by (auto simp: bench_inv_def)
  show inv: "mpsc_sys_inv BENCH_N (bq e)" "tickets_owned (bq e)" using assms by (simp_all add: bench_inv_def mpsc_live_inv_def)
  then have l: "length (tickets (bq e)) = c_tail (bq e)" and le: "c_head (bq e) \<le> c_tail (bq e)" by (auto simp: mpsc_inv_defs)
  show "c_head (bq e) \<le> c_tail (bq e)" by (rule le)
  have "length xs = (\<Sum>p<4. claims (bi e p) (prods (bq e) p))" using xs(2) claimed_size [of e] by (metis size_mset)
  with l xs(1) show "c_tail (bq e) = length (before e) + (\<Sum>p<4. claims (bi e p) (prods (bq e) p))" by simp
  show "c_head (bq e) = length (before e) + bpopped e" using assms by (simp add: bench_inv_def)
  have "claims (bi e p) (prods (bq e) p) \<le> 256" for p
  proof -
    have "producer_arg p (bi e p) (prods (bq e) p)" "bi e p \<le> 256" using assms by (simp_all add: bench_inv_def)
    then show ?thesis by (auto simp: claims_def producer_arg_def split: mp_producer.splits)
  qed
  then have "(\<Sum>p<4. claims (bi e p) (prods (bq e) p)) \<le> (\<Sum>p<(4 :: nat). 256)" by (intro sum_mono)
  then show "(\<Sum>p<4. claims (bi e p) (prods (bq e) p)) \<le> 1024" by simp
qed

text \<open>What a step does to the arguments, the claims and the head, for each kind of step.\<close>

lemma bench_args_step:
  assumes inv: "mpsc_sys_inv BENCH_N (bq e)" and step: "mpsc_step BENCH_N (bq e) q" and calls: "bench_calls e q"
    and args: "producer_arg p (bi e p) (prods (bq e) p) \<and> bi e p \<le> 256"
  shows "producer_arg p (bi (bench_after e q) p) (prods q p) \<and> bi (bench_after e q) p \<le> 256"
proof -
  have idle: "producer_arg p (bi e p) (prods q p)" if "prods (bq e) p = MIdle"
    using calls that by (auto simp: bench_calls_def producer_arg_def split: mp_producer.splits)
  show ?thesis
    using step mpsc_no_fault(1) [OF bench_pow2 inv] args idle
    by cases (auto simp: bench_after_def push_done_def producer_arg_def split: mp_producer.splits if_splits)
qed

lemma bench_claims_step:
  assumes inv: "mpsc_sys_inv BENCH_N (bq e)" and step: "mpsc_step BENCH_N (bq e) q" and args: "\<And>p. producer_arg p (bi e p) (prods (bq e) p)"
  defines "c \<equiv> \<lambda>p. claims (bi e p) (prods (bq e) p)" and "c' \<equiv> \<lambda>p. claims (bi (bench_after e q) p) (prods q p)"
  shows "(tickets q = tickets (bq e) \<and> c' = c) \<or>
    (\<exists>p<4. tickets q = tickets (bq e) @ [int (c p)] \<and> c' p = Suc (c p) \<and> (\<forall>q. q \<noteq> p \<longrightarrow> c' q = c q))"
  using step
proof cases
  case (mp_cas_ok p x t b h)
  with args [of p] show ?thesis
    by (intro disjI2 exI [of _ p]) (auto simp: c_def c'_def claims_def bench_after_def push_done_def producer_arg_def split: mp_producer.splits)
next
  case (mp_construct_fault p x t err)
  with mpsc_no_fault(1) [OF bench_pow2 inv] show ?thesis by blast
qed (auto simp: c_def c'_def claims_def bench_after_def push_done_def fun_eq_iff split: mp_producer.splits)

lemma bench_head_step:
  assumes "mpsc_step BENCH_N (bq e) q" "bench_calls e q" "mcons (bq e) \<noteq> MCIdle \<longrightarrow> bpopped e < 1024"
  shows "c_head q + bpopped e = c_head (bq e) + bpopped (bench_after e q)" "mcons q \<noteq> MCIdle \<longrightarrow> bpopped (bench_after e q) < 1024"
  using assms by (cases, auto simp: bench_after_def pop_done_def bench_calls_def split: mp_consumer.splits)+

lemma bench_inv_step:
  assumes "bench_inv e" "bench_step e e'"
  shows "bench_inv e'"
proof -
  obtain q where q: "mpsc_step BENCH_N (bq e) q" "bench_calls e q" and e': "e' = bench_after e q"
    using assms(2) by (auto elim: bench_step_elim)
  have args: "producer_arg p (bi e p) (prods (bq e) p) \<and> bi e p \<le> 256" for p using assms(1) by (simp add: bench_inv_def)
  obtain xs where xs: "tickets (bq e) = before e @ xs" "mset xs = claimed_items e" using assms(1) by (auto simp: bench_inv_def)
  have "\<exists>xs. tickets q = before e @ xs \<and> mset xs = claimed_items e'"
    using bench_claims_step [OF bench_counts(4) [OF assms(1)] q(1) conjunct1 [OF args]]
  proof (elim disjE exE conjE)
    assume "tickets q = tickets (bq e)" "(\<lambda>p. claims (bi (bench_after e q) p) (prods q p)) = (\<lambda>p. claims (bi e p) (prods (bq e) p))"
    with xs show ?thesis unfolding claimed_items_def e' by (simp add: bench_after_def fun_eq_iff)
  next
    fix p assume p: "p < 4" "tickets q = tickets (bq e) @ [int (claims (bi e p) (prods (bq e) p))]"
      "claims (bi (bench_after e q) p) (prods q p) = Suc (claims (bi e p) (prods (bq e) p))"
      "\<forall>r. r \<noteq> p \<longrightarrow> claims (bi (bench_after e q) r) (prods q r) = claims (bi e r) (prods (bq e) r)"
    have "claimed_items e' = add_mset (int (claims (bi e p) (prods (bq e) p))) (claimed_items e)"
      unfolding claimed_items_def e' by (rule claimed_more [OF p(1)]) (use p(3,4) in \<open>simp_all add: bench_after_def\<close>)
    with xs p(2) show ?thesis by (intro exI [of _ "xs @ [int (claims (bi e p) (prods (bq e) p))]"]) simp
  qed
  moreover have "mpsc_live_inv BENCH_N q" using mpsc_live_step [OF bench_pow2 _ q(1)] assms(1) by (simp add: bench_inv_def)
  moreover note bench_args_step [OF bench_counts(4) [OF assms(1)] q args] bench_head_step [OF q] bench_counts(2) [OF assms(1)]
  ultimately show ?thesis using assms(1) unfolding e' by (simp add: bench_inv_def bench_after_def)
qed

interpretation bench: inductive_invariant bench_start bench_step bench_inv
proof
  show "bench_inv e" if e: "bench_start e" for e
  proof -
    have live: "mpsc_live_inv BENCH_N (bq e)" using e mpsc_live.reach_inv [of BENCH_N "bq e"] bench_pow2 by (auto simp: bench_start_def)
    then have "c_head (bq e) = length (tickets (bq e))"
      using e by (auto simp: bench_start_def quiescent_def mpsc_live_inv_def mpsc_inv_defs)
    with e live show ?thesis
      by (auto simp: bench_start_def quiescent_def bench_inv_def producer_arg_def claimed_items_def claims_def)
  qed
qed (rule bench_inv_step)

section \<open>The benchmark can finish\<close>

text \<open>How far a call of \<^verbatim>\<open>try_push\<close> is; one that works with an old tail has a round of its loop more to go.\<close>

definition push_phase :: "nat \<Rightarrow> 'a mp_producer \<Rightarrow> nat" where
  "push_phase up pc = (case pc of
      MIdle \<Rightarrow> 7 | MLoop _ t _ \<Rightarrow> if t = up then 4 else 6 | MCas _ t _ _ \<Rightarrow> if t = up then 3 else 5
    | MConstruct _ _ \<Rightarrow> 2 | MReady _ _ \<Rightarrow> 1 | MFault _ \<Rightarrow> 0)"

definition pop_phase :: "'a mp_consumer \<Rightarrow> nat" where
  "pop_phase pc = (case pc of
      MCIdle \<Rightarrow> 6 | MCCheck \<Rightarrow> 5 | MCMove \<Rightarrow> 4 | MCDestroy _ \<Rightarrow> 3 | MCUnready _ \<Rightarrow> 2 | MCAdvance _ \<Rightarrow> 1 | MCFault _ \<Rightarrow> 0)"

definition producer_rank :: "bench \<Rightarrow> nat \<Rightarrow> nat" where
  "producer_rank e p = 7 * (256 - bi e p) + push_phase (c_tail (bq e)) (prods (bq e) p)"

definition bench_rank :: "bench \<Rightarrow> nat" where
  "bench_rank e = 7 * (1024 - (c_tail (bq e) - length (before e))) + (\<Sum>p<4. producer_rank e p) +
     6 * (1024 - bpopped e) + pop_phase (mcons (bq e))"

lemma sum_one_less:
  fixes f g :: "nat \<Rightarrow> nat"
  assumes "p < 4" "f p < g p" "\<And>r. r \<noteq> p \<Longrightarrow> f r \<le> g r + d"
  shows "(\<Sum>r<4. f r) < (\<Sum>r<4. g r) + 3 * d"
proof -
  have "(\<Sum>r\<in>{..<4} - {p}. f r) \<le> (\<Sum>r\<in>{..<4} - {p}. g r + d)" using assms(3) by (intro sum_mono) auto
  also have "\<dots> = (\<Sum>r\<in>{..<4} - {p}. g r) + 3 * d" using assms(1) by (simp add: sum.distrib card_Diff_singleton)
  finally show ?thesis using assms(1,2) by (simp add: sum.remove [of "{..<4}" p])
qed

lemma bench_advance:
  assumes "bench_inv e" "mpsc_step BENCH_N (bq e) q" "bench_calls e q" "bench_rank (bench_after e q) < bench_rank e"
  shows "\<exists>e'. bench_step e e' \<and> bench_inv e' \<and> bench_rank e' < bench_rank e"
  using assms bench_inv_step [OF assms(1)] bench_queue [OF assms(2,3)] by blast

text \<open>A step of one producer that claims nothing, and one of the consumer.\<close>

lemma bench_producer_moves:
  assumes e: "bench_inv e" and step: "mpsc_step BENCH_N (bq e) q" and p: "p < 4"
    and q: "prods q = (prods (bq e))(p := pc)" "c_tail q = c_tail (bq e)" "mcons q = mcons (bq e)"
    and idle: "prods (bq e) p = MIdle \<Longrightarrow> \<exists>t b. pc = MLoop (int (bi e p)) t b \<and> bi e p < 256"
    and less: "producer_rank (bench_after e q) p < producer_rank e p"
  shows "\<exists>e'. bench_step e e' \<and> bench_inv e' \<and> bench_rank e' < bench_rank e"
proof (rule bench_advance [OF e step])
  show "bench_calls e q" using idle p q by (auto simp: bench_calls_def split: mp_producer.splits)
  have "producer_rank (bench_after e q) r \<le> producer_rank e r + 0" if "r \<noteq> p" for r
    using that q(1,2) by (auto simp: producer_rank_def bench_after_def push_done_def split: mp_producer.splits)
  from sum_one_less [of p "producer_rank (bench_after e q)" "producer_rank e" 0, OF p less this] q show "bench_rank (bench_after e q) < bench_rank e"
    by (auto simp: bench_rank_def bench_after_def pop_done_def split: mp_consumer.splits)
qed

lemma bench_consumer_moves:
  assumes e: "bench_inv e" and step: "mpsc_step BENCH_N (bq e) q"
    and q: "prods q = prods (bq e)" "c_tail q = c_tail (bq e)"
    and less: "bpopped e < 1024" "pop_phase (mcons q) < pop_phase (mcons (bq e)) \<or> pop_done (bq e) q"
  shows "\<exists>e'. bench_step e e' \<and> bench_inv e' \<and> bench_rank e' < bench_rank e"
proof (rule bench_advance [OF e step])
  show "bench_calls e q" using q less(1) by (auto simp: bench_calls_def split: mp_producer.splits)
  have "producer_rank (bench_after e q) = producer_rank e"
    using q by (auto simp: producer_rank_def bench_after_def push_done_def fun_eq_iff split: mp_producer.splits)
  moreover have "6 * (1024 - bpopped (bench_after e q)) + pop_phase (mcons q) < 6 * (1024 - bpopped e) + pop_phase (mcons (bq e))"
    using less by (auto simp: bench_after_def pop_done_def pop_phase_def split: mp_consumer.splits)
  ultimately show "bench_rank (bench_after e q) < bench_rank e" using q(2) by (simp add: bench_rank_def bench_after_def)
qed

text \<open>The producer that owns a ticket can construct and publish its element.\<close>

lemma bench_owner:
  assumes e: "bench_inv e" and pc: "prods (bq e) p = MConstruct x t \<or> prods (bq e) p = MReady x t"
  shows "\<exists>e'. bench_step e e' \<and> bench_inv e' \<and> bench_rank e' < bench_rank e"
proof -
  have arg: "p < 4" "bi e p < 256" using e pc by (auto simp: bench_inv_def producer_arg_def dest!: spec [of _ p])
  from pc show ?thesis
  proof
    assume c: "prods (bq e) p = MConstruct x t"
    show ?thesis
      by (rule bench_producer_moves [OF e mp_construct [OF c mpsc_construct_run [OF bench_pow2 bench_counts(4) [OF e] c]] arg(1)])
        (use c arg in \<open>auto simp: producer_rank_def bench_after_def push_done_def push_phase_def\<close>)
  next
    assume c: "prods (bq e) p = MReady x t"
    show ?thesis
      by (rule bench_producer_moves [OF e mp_ready [OF c] arg(1)])
        (use c arg in \<open>auto simp: producer_rank_def bench_after_def push_done_def push_phase_def\<close>)
  qed
qed

text \<open>A claim costs the other producers at most a round of their loops.\<close>

lemma bench_claim:
  assumes e: "bench_inv e" and pc: "prods (bq e) p = MCas x (c_tail (bq e)) b h"
  shows "\<exists>e'. bench_step e e' \<and> bench_inv e' \<and> bench_rank e' < bench_rank e"
proof -
  let ?q = "bq e"
  let ?s = "?q\<lparr>mq := (mq ?q)\<lparr>mp_tail := of_nat (c_tail ?q) + 1\<rparr>, prods := (prods ?q)(p := MConstruct x (c_tail ?q)),
    c_tail := Suc (c_tail ?q), phase := (phase ?q)(c_tail ?q := Claimed p), tickets := tickets ?q @ [x]\<rparr>"
  have p: "p < 4" using e pc by (auto simp: bench_inv_def producer_arg_def dest!: spec [of _ p])
  have step: "mpsc_step BENCH_N ?q ?s"
    by (rule mp_cas_ok [OF pc]) (use bench_counts(4) [OF e] in \<open>simp_all add: mpsc_inv_defs\<close>)
  have calls: "bench_calls e ?s" using pc by (auto simp: bench_calls_def split: mp_producer.splits)
  have inv: "bench_inv (bench_after e ?s)" by (rule bench_inv_step [OF e bench_queue [OF step calls]])
  have "Suc (c_tail ?q) \<le> length (before e) + 1024" using bench_counts(1,6) [OF inv] by (simp add: bench_after_def)
  moreover have "length (before e) \<le> c_tail ?q" using bench_counts(1) [OF e] by simp
  moreover have "(\<Sum>r<4. producer_rank (bench_after e ?s) r) < (\<Sum>r<4. producer_rank e r) + 3 * 2"
    by (rule sum_one_less [OF p]) (auto simp: producer_rank_def bench_after_def push_done_def push_phase_def pc split: mp_producer.splits)
  ultimately have "bench_rank (bench_after e ?s) < bench_rank e"
    by (auto simp: bench_rank_def bench_after_def pop_done_def split: mp_consumer.splits)
  with step calls show ?thesis by (intro bench_advance [OF e])
qed

text \<open>With the queue empty, an unfinished producer comes a step further.\<close>

lemma bench_producer:
  assumes e: "bench_inv e" and p: "p < 4" "prods (bq e) p \<noteq> MIdle \<or> bi e p < 256" and empty: "c_head (bq e) = c_tail (bq e)"
  shows "\<exists>e'. bench_step e e' \<and> bench_inv e' \<and> bench_rank e' < bench_rank e"
proof (cases "prods (bq e) p")
  case MIdle
  show ?thesis
    by (rule bench_producer_moves [OF e mp_load_tail [OF MIdle order_refl, of _ "int (bi e p)"] p(1)])
      (use MIdle p in \<open>auto simp: producer_rank_def bench_after_def push_done_def push_phase_def\<close>)
next
  case (MLoop x t b)
  have "t \<le> c_head (bq e)" using mpsc_producer_inv [OF bench_counts(4) [OF e], of p] MLoop empty by simp
  moreover have "\<not> BENCH_N \<le> of_nat t - of_nat t" using bench_size(1) by (auto simp: word_le_nat_alt simp del: bench_size(1))
  ultimately show ?thesis
    by (intro bench_producer_moves [OF e mp_room [OF MLoop, of t] p(1)])
      (use MLoop p in \<open>auto simp: producer_rank_def bench_after_def push_done_def push_phase_def\<close>)
next
  case (MCas x t b h)
  show ?thesis
  proof (cases "t = c_tail (bq e)")
    case True
    with MCas show ?thesis by (intro bench_claim [OF e]) simp
  next
    case False
    show ?thesis
      by (rule bench_producer_moves [OF e mp_cas_fail [OF MCas order_refl] p(1)])
        (use MCas p False in \<open>auto simp: producer_rank_def bench_after_def push_done_def push_phase_def\<close>)
  qed
next
  case (MFault u)
  with mpsc_producer_inv [OF bench_counts(4) [OF e], of p] show ?thesis by simp
qed (auto intro: bench_owner [OF e])

text \<open>With elements claimed, the consumer comes further, or the owner of the ticket it waits for.\<close>

lemma bench_check:
  assumes e: "bench_inv e" and some: "c_head (bq e) < c_tail (bq e)" and pc: "mcons (bq e) = MCCheck"
  shows "\<exists>e'. bench_step e e' \<and> bench_inv e' \<and> bench_rank e' < bench_rank e"
proof -
  let ?q = "bq e"
  note inv = bench_counts(4) [OF e]
  note head = mpsc_head_slot [OF bench_pow2 inv]
  have claimed: "phase ?q (c_head ?q) \<noteq> Unclaimed" using inv some by (auto simp: mpsc_sys_inv_def mpsc_slots_ok_def)
  show ?thesis
  proof (cases "phase ?q (c_head ?q)")
    case Published
    then have "slot_ready (mp_array (mq ?q) ! ring_idx BENCH_N (mp_head (mq ?q)))" using head(1,3) by simp
    from mc_is_ready [OF pc this] show ?thesis
      by (rule bench_consumer_moves [OF e]) (use bench_counts(1,2,6) [OF e] some pc in \<open>simp_all add: pop_phase_def\<close>)
  next
    case (Claimed p)
    with bench_counts(5) [OF e] obtain x where "prods ?q p = MConstruct x (c_head ?q)" by (auto simp: tickets_owned_def)
    then show ?thesis by (rule bench_owner [OF e disjI1])
  next
    case (Built p)
    with bench_counts(5) [OF e] obtain x where "prods ?q p = MReady x (c_head ?q)" by (auto simp: tickets_owned_def)
    then show ?thesis by (rule bench_owner [OF e disjI2])
  qed (use head(4) pc claimed in simp_all)
qed

lemma bench_consumer:
  assumes e: "bench_inv e" and some: "c_head (bq e) < c_tail (bq e)"
  shows "\<exists>e'. bench_step e e' \<and> bench_inv e' \<and> bench_rank e' < bench_rank e"
proof -
  let ?q = "bq e"
  note inv = bench_counts(4) [OF e]
  note head = mpsc_head_slot [OF bench_pow2 inv]
  have lt: "bpopped e < 1024" using bench_counts(1,2,6) [OF e] some by linarith
  show ?thesis
  proof (cases "mcons ?q")
    case MCIdle
    show ?thesis by (rule bench_consumer_moves [OF e mc_load_head [OF MCIdle]]) (use lt MCIdle in \<open>simp_all add: pop_phase_def\<close>)
  next
    case MCCheck
    then show ?thesis by (rule bench_check [OF e some])
  next
    case MCMove
    from mc_move [OF MCMove mpsc_destroy_run(1) [OF bench_pow2 inv disjI1 [OF MCMove]]] show ?thesis
      by (rule bench_consumer_moves [OF e]) (use lt MCMove in \<open>simp_all add: pop_phase_def\<close>)
  next
    case (MCDestroy v)
    from mc_destroy [OF MCDestroy mpsc_destroy_run(2) [OF bench_pow2 inv disjI2 [OF MCDestroy]]] show ?thesis
      by (rule bench_consumer_moves [OF e]) (use lt MCDestroy in \<open>simp_all add: pop_phase_def\<close>)
  next
    case (MCUnready v)
    from mc_unready [OF MCUnready] show ?thesis
      by (rule bench_consumer_moves [OF e]) (use lt MCUnready in \<open>simp_all add: pop_phase_def\<close>)
  next
    case (MCAdvance v)
    from mc_advance [OF MCAdvance] show ?thesis
      by (rule bench_consumer_moves [OF e]) (use lt MCAdvance in \<open>simp_all add: pop_done_def\<close>)
  qed (use head(4) in simp)
qed

text \<open>Whoever has ended has claimed all its tickets, and an empty queue then means that all are popped.\<close>

lemma bench_unfinished:
  assumes e: "bench_inv e" "\<not> bench_joined e" and empty: "c_head (bq e) = c_tail (bq e)"
  shows "\<exists>p<4. prods (bq e) p \<noteq> MIdle \<or> bi e p < 256"
proof (rule ccontr)
  assume "\<not> ?thesis"
  then have all: "prods (bq e) p = MIdle \<and> \<not> bi e p < 256" if "p < 4" for p using that by blast
  moreover have "bi e p \<le> 256" for p using e(1) by (simp add: bench_inv_def)
  ultimately have "claims (bi e p) (prods (bq e) p) = 256" if "p < 4" for p using that by (simp add: claims_def le_antisym not_less)
  then have "(\<Sum>p<4. claims (bi e p) (prods (bq e) p)) = 1024" by simp
  then have "bpopped e = 1024" using bench_counts(1,2) [OF e(1)] empty by simp
  with e all show False by (auto simp: bench_joined_def bench_inv_def)
qed

interpretation bench_end: helpful_system bench_step bench_inv bench_rank bench_joined
proof
  fix e assume e: "bench_inv e" "\<not> bench_joined e"
  show "\<exists>e'. bench_step e e' \<and> bench_inv e' \<and> bench_rank e' < bench_rank e"
  proof (cases "c_head (bq e) < c_tail (bq e)")
    case True
    with e(1) show ?thesis by (rule bench_consumer)
  next
    case False
    then have empty: "c_head (bq e) = c_tail (bq e)" using bench_counts(3) [OF e(1)] by simp
    from bench_unfinished [OF e empty] bench_producer [OF e(1) _ _ empty] show ?thesis by blast
  qed
qed

lemma bench_rank_le: "bench_rank e \<le> 20514"
proof -
  have "producer_rank e p \<le> 1799" for p by (auto simp: producer_rank_def push_phase_def split: mp_producer.splits)
  then have "(\<Sum>p<4. producer_rank e p) \<le> (\<Sum>p<(4 :: nat). 1799)" by (intro sum_mono)
  moreover have "pop_phase (mcons (bq e)) \<le> 6" by (auto simp: pop_phase_def split: mp_consumer.splits)
  ultimately show ?thesis by (simp add: bench_rank_def)
qed

section \<open>The benchmark without consumer\<close>

text \<open>
  \<^verbatim>\<open>BM_MPSCQueue_Push\<close>: one thread inserts as many numbers as the queue has slots and ignores the answers; the
  compare-exchange of call \<open>i\<close> fails spuriously \<open>n i\<close> times.
\<close>

fun bench_push_loop :: "(nat \<Rightarrow> nat) \<Rightarrow> nat \<Rightarrow> nat \<Rightarrow> int mpsc \<Rightarrow> int mpsc res" where
  "bench_push_loop n i 0 q = Inr q"
| "bench_push_loop n i (Suc m) q = bind_res (mpsc_push_alone BENCH_N (n i) q (int i)) (\<lambda>(_, q). bench_push_loop n (Suc i) m q)"

definition bench_push :: "(nat \<Rightarrow> nat) \<Rightarrow> int mpsc res" where
  "bench_push n = bench_push_loop n 0 (unat BENCH_N) (mpsc_new BENCH_N)"

lemma bench_push_loop_exact:
  "mpsc_inv BENCH_N q \<Longrightarrow> length (mpsc_contents BENCH_N q) + m \<le> 1024 \<Longrightarrow>
   \<exists>q'. bench_push_loop n i m q = Inr q' \<and> mpsc_inv BENCH_N q' \<and> mpsc_contents BENCH_N q' = mpsc_contents BENCH_N q @ map int [i..<i + m]"
proof (induction m arbitrary: i q)
  case (Suc m)
  obtain q1 where q1: "mpsc_push_alone BENCH_N (n i) q (int i) = Inr (True, q1)" "mpsc_inv BENCH_N q1"
    "mpsc_contents BENCH_N q1 = mpsc_contents BENCH_N q @ [int i]"
    using mpsc.push_room [OF Suc.prems(1), of "n i" "int i"] Suc.prems(2) by auto
  from Suc.IH [OF q1(2), of "Suc i"] Suc.prems(2) q1 show ?case by (auto simp: upt_conv_Cons)
qed simp

text \<open>No insertion is refused: the queue ends up full, with all numbers in order, and refuses the next.\<close>

theorem bench_push_fills:
  "\<exists>q. bench_push n = Inr q \<and> mpsc_contents BENCH_N q = map int [0..<1024] \<and> (\<forall>k x. mpsc_push_alone BENCH_N k q x = Inr (False, q))"
proof -
  obtain q where q: "bench_push n = Inr q" "mpsc_inv BENCH_N q" "mpsc_contents BENCH_N q = map int [0..<1024]"
    using bench_push_loop_exact [OF mpsc_inv_new [OF bench_pow2], of 1024 n 0] by (auto simp: bench_push_def)
  moreover have "mpsc_push_alone BENCH_N k q x = Inr (False, q)" for k x by (rule mpsc.push_full [OF q(2)]) (simp add: q(3))
  ultimately show ?thesis by blast
qed

section \<open>Properties\<close>

lemma bench_joined_result:
  assumes e: "bench_inv e" "bench_joined e"
  shows "quiescent (bq e)" "\<exists>xs. delivered (bq e) = before e @ xs \<and> mset xs = (\<Sum>p<(4 :: nat). mset (map int [0..<256]))"
proof -
  have p: "prods (bq e) p = MIdle" "bi e p = 256" if "p < 4" for p
    using e that by (simp_all add: bench_joined_def bench_inv_def le_antisym not_less)
  have "prods (bq e) p = MIdle" for p
  proof (cases "p < 4")
    case False
    have "producer_arg p (bi e p) (prods (bq e) p)" using e(1) by (simp add: bench_inv_def)
    with False show ?thesis by (auto simp: producer_arg_def split: mp_producer.splits)
  qed (rule p)
  moreover have claim: "claims (bi e p) (prods (bq e) p) = 256" if "p < 4" for p using p [OF that] by (simp add: claims_def)
  then have sum: "(\<Sum>p<4. claims (bi e p) (prods (bq e) p)) = 1024" by simp
  then have "c_head (bq e) = c_tail (bq e)"
    using bench_counts(1-3) [OF e(1)] e(2) by (simp add: bench_joined_def)
  then have all: "delivered (bq e) = tickets (bq e)" using bench_counts(4) [OF e(1)] by (simp add: mpsc_inv_defs)
  ultimately show "quiescent (bq e)" using e(2) by (simp add: quiescent_def bench_joined_def fun_eq_iff)
  have "claimed_items e = (\<Sum>p<(4 :: nat). mset (map int [0..<256]))"
    unfolding claimed_items_def by (rule sum.cong) (simp_all add: claim del: upt_rec_numeral)
  with e(1) all show "\<exists>xs. delivered (bq e) = before e @ xs \<and> mset xs = (\<Sum>p<(4 :: nat). mset (map int [0..<256]))"
    by (auto simp: bench_inv_def)
qed

text \<open>
  C11. The benchmark of four producers delivers everything and can always finish. Whatever its threads have done
  so far, in an iteration that finds the queue empty, the main thread has counted exactly the elements it removed, and all threads can
  still leave their loops, within 20514 further steps; when they have, the queue is empty again, no call
  is under way, so that the next iteration starts from the same situation, and what was removed in this iteration
  is each number below 256 exactly four times.\<close>

theorem bench_complete:
  assumes "reach bench_start bench_step e"
  shows "length (delivered (bq e)) = length (before e) + bpopped e \<and>
    (\<exists>n\<le>20514. \<exists>e'. (bench_step ^^ n) e e' \<and> bench_joined e') \<and>
    (bench_joined e \<longrightarrow> quiescent (bq e) \<and>
      (\<exists>xs. delivered (bq e) = before e @ xs \<and> mset xs = (\<Sum>p<(4 :: nat). mset (map int [0..<256]))))"
proof -
  have inv: "bench_inv e" using assms by (rule bench.reach_inv)
  have "length (delivered (bq e)) = length (before e) + bpopped e"
    using bench_counts(2-4) [OF inv] by (simp add: mpsc_inv_defs min_def)
  moreover have "\<exists>n\<le>20514. \<exists>e'. (bench_step ^^ n) e e' \<and> bench_joined e'"
    using bench_end.reaches_goal [OF inv] bench_rank_le [of e] order_trans by blast
  ultimately show ?thesis using bench_joined_result [OF inv] by blast
qed

theorem bench_complete_witness:
  "\<exists>e. reach bench_start bench_step e \<and> delivered (bq e) = [] \<and> (\<exists>n\<le>20514. \<exists>e'. (bench_step ^^ n) e e' \<and> bench_joined e')"
proof -
  obtain q :: "int mpsc_sys" where q: "mpsc_sys_init BENCH_N q" by (auto simp: mpsc_sys_init_def)
  let ?e = "\<lparr>bq = q, bi = (\<lambda>_. 0), bpopped = 0, before = []\<rparr>"
  have r: "reach bench_start bench_step ?e"
    by (rule reach_init) (use q in \<open>simp add: bench_start_def quiescent_def reach_init mpsc_sys_init_def\<close>)
  have d: "delivered q = []" using q by (simp add: mpsc_sys_init_def)
  from bench_complete [OF r] r d show ?thesis by (intro exI [of _ ?e]) simp
qed

end
