(* ===== verification/MPSC_Pair.thy ===== *)
theory MPSC_Pair
  imports MPSC_Bench
begin

text \<open>
  The two benchmarks of \<^verbatim>\<open>benchmarks/MPSCQueue_bench.cc\<close> with one producer thread, on a new queue in each iteration:
  \<^verbatim>\<open>BM_MPSCQueue_PushOnePopOne\<close>, whose main thread pops until it has counted all elements, and
  \<^verbatim>\<open>BM_MPSCQueue_PushAllThenPopAll\<close>, whose second thread makes as many calls as there are elements, whatever they
  answer. In both the producer makes one call for each number and ignores the answer. The parameter \<open>again\<close> says
  whether a pop that found nothing is repeated. Being the only thread that writes \<^verbatim>\<open>m_tail\<close>, the producer
  reads its own last value.
\<close>

section \<open>The programs\<close>

record pair =
  pq :: "int mpsc_sys"
  push_i :: nat
  pop_i :: nat

definition pair_start :: "pair \<Rightarrow> bool" where
  "pair_start e \<longleftrightarrow> mpsc_sys_init BENCH_N (pq e) \<and> push_i e = 0 \<and> pop_i e = 0"

definition push_returned :: "'a mpsc_sys \<Rightarrow> 'a mpsc_sys \<Rightarrow> nat \<Rightarrow> bool" where
  "push_returned s t p \<longleftrightarrow> prods s p \<noteq> MIdle \<and> prods t p = MIdle"

definition pop_returned :: "'a mpsc_sys \<Rightarrow> 'a mpsc_sys \<Rightarrow> bool" where
  "pop_returned s t \<longleftrightarrow> mcons s \<noteq> MCIdle \<and> mcons t = MCIdle"

definition pair_calls :: "pair \<Rightarrow> int mpsc_sys \<Rightarrow> bool" where
  "pair_calls e q \<longleftrightarrow>
     (\<forall>p. prods (pq e) p = MIdle \<longrightarrow>
        (case prods q p of MIdle \<Rightarrow> True | MLoop x _ _ \<Rightarrow> p = 0 \<and> push_i e < unat BENCH_N \<and> x = int (push_i e) | _ \<Rightarrow> False)) \<and>
     (mcons (pq e) = MCIdle \<longrightarrow> mcons q = MCIdle \<or> pop_i e < unat BENCH_N)"

definition own_tail :: "'a mpsc_sys \<Rightarrow> bool" where
  "own_tail q \<longleftrightarrow> (case prods q 0 of MLoop _ t _ \<Rightarrow> t = c_tail q | _ \<Rightarrow> True)"

definition pair_after :: "bool \<Rightarrow> pair \<Rightarrow> int mpsc_sys \<Rightarrow> pair" where
  "pair_after again e q = e\<lparr>pq := q, push_i := (if push_returned (pq e) q 0 then push_i e + 1 else push_i e),
     pop_i := (if (if again then pop_done (pq e) q else pop_returned (pq e) q) then pop_i e + 1 else pop_i e)\<rparr>"

inductive pair_step :: "bool \<Rightarrow> pair \<Rightarrow> pair \<Rightarrow> bool" for again where
  pair_queue: "mpsc_step BENCH_N (pq e) q \<Longrightarrow> pair_calls e q \<Longrightarrow> own_tail q \<Longrightarrow> pair_step again e (pair_after again e q)"

inductive_cases pair_step_elim: "pair_step again e e'"

definition pair_joined :: "pair \<Rightarrow> bool" where
  "pair_joined e \<longleftrightarrow> prods (pq e) 0 = MIdle \<and> \<not> push_i e < unat BENCH_N \<and> mcons (pq e) = MCIdle \<and> \<not> pop_i e < unat BENCH_N"

section \<open>Invariant\<close>

lemma pq_pair_after [simp]: "pq (pair_after again e q) = q"
  by (simp add: pair_after_def)

definition pair_arg :: "nat \<Rightarrow> nat \<Rightarrow> int mp_producer \<Rightarrow> bool" where
  "pair_arg i up pc \<longleftrightarrow>
     (case pc of
        MIdle \<Rightarrow> i \<le> 1024
      | MLoop x t _ \<Rightarrow> i < 1024 \<and> x = int i \<and> t = up
      | MCas x t _ _ \<Rightarrow> i < 1024 \<and> x = int i \<and> t = up
      | MConstruct _ _ \<Rightarrow> i < 1024
      | MReady _ _ \<Rightarrow> i < 1024
      | MFault _ \<Rightarrow> False)"

definition pair_inv :: "bool \<Rightarrow> pair \<Rightarrow> bool" where
  "pair_inv again e \<longleftrightarrow> mpsc_live_inv BENCH_N (pq e) \<and> (\<forall>p. p \<noteq> 0 \<longrightarrow> prods (pq e) p = MIdle) \<and>
     pair_arg (push_i e) (c_tail (pq e)) (prods (pq e) 0) \<and>
     tickets (pq e) = map int [0..<claims (push_i e) (prods (pq e) 0)] \<and>
     c_head (pq e) \<le> pop_i e \<and> (again \<longrightarrow> c_head (pq e) = pop_i e) \<and> (mcons (pq e) \<noteq> MCIdle \<longrightarrow> pop_i e < 1024)"

lemma pair_counts:
  assumes "pair_inv again e"
  shows "mpsc_sys_inv BENCH_N (pq e)" "tickets_owned (pq e)" "c_tail (pq e) = claims (push_i e) (prods (pq e) 0)"
    "c_head (pq e) \<le> c_tail (pq e)" "c_tail (pq e) \<le> 1024"
proof -
  show "mpsc_sys_inv BENCH_N (pq e)" "tickets_owned (pq e)" using assms by (simp_all add: pair_inv_def mpsc_live_inv_def)
  then have "length (tickets (pq e)) = c_tail (pq e)" and le: "c_head (pq e) \<le> c_tail (pq e)" by (auto simp: mpsc_inv_defs)
  with assms show up: "c_tail (pq e) = claims (push_i e) (prods (pq e) 0)" by (simp add: pair_inv_def)
  show "c_head (pq e) \<le> c_tail (pq e)" by (rule le)
  show "c_tail (pq e) \<le> 1024" unfolding up
    using assms by (auto simp: pair_inv_def pair_arg_def claims_def split: mp_producer.splits)
qed

text \<open>With its own tail and fewer elements in all than slots, the producer never finds the queue full.\<close>

lemma pair_room:
  assumes e: "pair_inv again e" and pc: "prods (pq e) 0 = MLoop x t b" and h: "h \<le> c_head (pq e)"
  shows "\<not> BENCH_N \<le> of_nat t - of_nat h" "t < h + 2 ^ 64"
proof -
  have t: "h \<le> t" "t < 1024" using pair_counts(3-5) [OF e] e pc h by (auto simp: pair_inv_def pair_arg_def claims_def)
  then have "of_nat t - of_nat h = (of_nat (t - h) :: sz_t)" by simp
  moreover have "unat (of_nat (t - h) :: sz_t) = t - h" using t by (simp add: unsigned_of_nat take_bit_eq_mod del: of_nat_diff)
  ultimately have "unat (of_nat t - of_nat h :: sz_t) < unat BENCH_N" using t by simp
  then show "\<not> BENCH_N \<le> of_nat t - of_nat h" by (simp only: word_le_nat_alt not_le)
  show "t < h + 2 ^ 64" using t(2) by simp
qed

lemma pair_others:
  assumes "pair_inv again e" "prods (pq e) p = pc" "pc \<noteq> MIdle"
  shows "p = 0"
  using assms by (auto simp: pair_inv_def)

lemma pair_producer_step:
  assumes e: "pair_inv again e" and step: "mpsc_step BENCH_N (pq e) q" and calls: "pair_calls e q" "own_tail q"
  shows "(\<forall>p. p \<noteq> 0 \<longrightarrow> prods q p = MIdle) \<and> pair_arg (push_i (pair_after again e q)) (c_tail q) (prods q 0) \<and>
    tickets q = map int [0..<claims (push_i (pair_after again e q)) (prods q 0)]"
proof -
  have inv: "\<And>p. p \<noteq> 0 \<Longrightarrow> prods (pq e) p = MIdle" "pair_arg (push_i e) (c_tail (pq e)) (prods (pq e) 0)"
    "tickets (pq e) = map int [0..<claims (push_i e) (prods (pq e) 0)]" using e by (simp_all add: pair_inv_def)
  note defs = pair_after_def push_returned_def pair_arg_def claims_def pair_calls_def own_tail_def
  from step show ?thesis
  proof cases
    case (mp_load_tail p t x)
    then have "p = 0 \<and> push_i e < 1024 \<and> x = int (push_i e)" using calls(1) by (auto simp: pair_calls_def dest: spec [of _ p])
    with mp_load_tail inv calls(2) show ?thesis by (auto simp: defs)
  next
    case (mp_full p x t b h)
    with pair_others [OF e, of p] pair_room(1) [OF e, of x t b h] show ?thesis by auto
  next
    case (mp_room p x t b h)
    with pair_others [OF e, of p] inv show ?thesis by (auto simp: defs)
  next
    case (mp_cas_ok p x t b h)
    with pair_others [OF e, of p] inv show ?thesis by (auto simp: defs)
  next
    case (mp_cas_fail p x t b h t')
    with pair_others [OF e, of p] inv calls(2) show ?thesis by (auto simp: defs)
  next
    case (mp_construct p x t arr)
    with pair_others [OF e, of p] inv show ?thesis by (auto simp: defs)
  next
    case (mp_construct_fault p x t err)
    with mpsc_no_fault(1) [OF bench_pow2 pair_counts(1) [OF e]] show ?thesis by blast
  next
    case (mp_ready p x t)
    with pair_others [OF e, of p] inv show ?thesis by (auto simp: defs)
  qed (use inv in \<open>auto simp: defs split: mp_producer.splits\<close>)
qed

lemma pair_consumer_step:
  assumes e: "pair_inv again e" and step: "mpsc_step BENCH_N (pq e) q" and calls: "pair_calls e q"
  shows "c_head q \<le> pop_i (pair_after again e q) \<and> (again \<longrightarrow> c_head q = pop_i (pair_after again e q)) \<and>
    (mcons q \<noteq> MCIdle \<longrightarrow> pop_i (pair_after again e q) < 1024)"
proof -
  have inv: "c_head (pq e) \<le> pop_i e" "again \<longrightarrow> c_head (pq e) = pop_i e" "mcons (pq e) \<noteq> MCIdle \<longrightarrow> pop_i e < 1024"
    using e by (simp_all add: pair_inv_def)
  from step inv calls show ?thesis
    by cases (auto simp: pair_after_def pop_returned_def pop_done_def pair_calls_def split: mp_consumer.splits)
qed

interpretation pair: inductive_invariant pair_start "pair_step again" "pair_inv again" for again
proof
  show "pair_inv again e" if "pair_start e" for e
  proof -
    have "mpsc_live_inv BENCH_N (pq e)"
      using that mpsc_live.reach_inv [OF reach_init, of BENCH_N "pq e"] bench_pow2 by (auto simp: pair_start_def)
    with that show ?thesis by (simp add: pair_start_def pair_inv_def mpsc_sys_init_def pair_arg_def claims_def)
  qed
  show "pair_inv again e'" if e: "pair_inv again e" and s: "pair_step again e e'" for e e'
  proof -
    obtain q where q: "mpsc_step BENCH_N (pq e) q" "pair_calls e q" "own_tail q" and e': "e' = pair_after again e q"
      using s by (auto elim: pair_step_elim)
    have "mpsc_live_inv BENCH_N q" using mpsc_live_step [OF bench_pow2 _ q(1)] e by (simp add: pair_inv_def)
    with pair_producer_step [OF e q] pair_consumer_step [OF e q(1,2)] show ?thesis by (simp add: e' pair_inv_def)
  qed
qed

section \<open>The programs can finish\<close>

definition pair_rank :: "pair \<Rightarrow> nat" where
  "pair_rank e = 7 * (1024 - push_i e) + push_phase (c_tail (pq e)) (prods (pq e) 0) +
     6 * (1024 - pop_i e) + pop_phase (mcons (pq e))"

lemma pair_advance:
  assumes "pair_inv again e" "mpsc_step BENCH_N (pq e) q" "pair_calls e q" "own_tail q" "pair_rank (pair_after again e q) < pair_rank e"
  shows "\<exists>e'. pair_step again e e' \<and> pair_inv again e' \<and> pair_rank e' < pair_rank e"
  using assms pair.inv_step [OF assms(1)] pair_queue [OF assms(2-4)] by blast

lemmas pair_defs = pair_calls_def own_tail_def pair_after_def pair_rank_def push_returned_def push_phase_def

lemma pair_producer:
  assumes e: "pair_inv again e" and go: "prods (pq e) 0 \<noteq> MIdle \<or> push_i e < 1024"
  shows "\<exists>e'. pair_step again e e' \<and> pair_inv again e' \<and> pair_rank e' < pair_rank e"
proof -
  let ?q = "pq e"
  note inv = pair_counts(1) [OF e]
  have arg: "pair_arg (push_i e) (c_tail ?q) (prods ?q 0)" using e by (simp add: pair_inv_def)
  have same: "\<not> (if again then pop_done ?q q else pop_returned ?q q)" if "mcons q = mcons ?q" for q
    using that by (auto simp: pop_done_def pop_returned_def split: mp_consumer.splits)
  show ?thesis
  proof (cases "prods ?q 0")
    case MIdle
    with go same show ?thesis
      by (intro pair_advance [OF e mp_load_tail [OF MIdle order_refl, of _ "int (push_i e)"]]) (auto simp: pair_defs split: mp_producer.splits)
  next
    case (MLoop x t b)
    with same arg show ?thesis
      by (intro pair_advance [OF e mp_room [OF MLoop order_refl pair_room [OF e MLoop order_refl]]])
        (auto simp: pair_defs pair_arg_def split: mp_producer.splits)
  next
    case (MCas x t b h)
    then have t: "t = c_tail ?q" using arg by (simp add: pair_arg_def)
    have "mp_tail (mq ?q) = of_nat t" "c_tail ?q < t + 2 ^ 64" using inv t by (simp_all add: mpsc_inv_defs)
    with MCas same t show ?thesis
      by (intro pair_advance [OF e mp_cas_ok [OF MCas]]) (auto simp: pair_defs split: mp_producer.splits)
  next
    case (MConstruct x t)
    with same show ?thesis
      by (intro pair_advance [OF e mp_construct [OF MConstruct mpsc_construct_run [OF bench_pow2 inv MConstruct]]])
        (auto simp: pair_defs split: mp_producer.splits)
  next
    case (MReady x t)
    with same arg show ?thesis
      by (intro pair_advance [OF e mp_ready [OF MReady]]) (auto simp: pair_defs pair_arg_def split: mp_producer.splits)
  next
    case (MFault u)
    with arg show ?thesis by (simp add: pair_arg_def)
  qed
qed

text \<open>When the producer is done, everything it inserted is published.\<close>

lemma pair_published:
  assumes e: "pair_inv again e" and fin: "prods (pq e) 0 = MIdle" "push_i e = 1024" and go: "pop_i e < 1024"
    and pc: "mcons (pq e) = MCIdle \<or> mcons (pq e) = MCCheck"
  shows "slot_ready (mp_array (mq (pq e)) ! ring_idx BENCH_N (mp_head (mq (pq e))))"
proof -
  let ?q = "pq e"
  note inv = pair_counts(1) [OF e] and head = mpsc_head_slot [OF bench_pow2 pair_counts(1) [OF e]]
  have "c_head ?q < c_tail ?q" using e pair_counts(3) [OF e] fin go by (simp add: pair_inv_def claims_def)
  then have "phase ?q (c_head ?q) \<noteq> Unclaimed" using inv by (auto simp: mpsc_sys_inv_def mpsc_slots_ok_def)
  moreover have "phase ?q (c_head ?q) \<noteq> Emptied \<and> phase ?q (c_head ?q) \<noteq> Cleared" using head(4) pc by auto
  moreover have idle: "prods ?q p = MIdle" for p using e fin(1) by (cases "p = 0") (simp_all add: pair_inv_def)
  then have "phase ?q (c_head ?q) \<noteq> Claimed p \<and> phase ?q (c_head ?q) \<noteq> Built p" for p
    using pair_counts(2) [OF e] by (auto simp: tickets_owned_def)
  ultimately have "phase ?q (c_head ?q) = Published" by (cases "phase ?q (c_head ?q)") auto
  with head(1,3) show ?thesis by simp
qed

lemma pair_consumer_moves:
  assumes e: "pair_inv again e" and step: "mpsc_step BENCH_N (pq e) q" and q: "prods q = prods (pq e)" "c_tail q = c_tail (pq e)"
    and fin: "prods (pq e) 0 = MIdle" and go: "pop_i e < 1024"
    and less: "mcons q \<noteq> MCIdle \<and> pop_phase (mcons q) < pop_phase (mcons (pq e)) \<or> pop_done (pq e) q"
  shows "\<exists>e'. pair_step again e e' \<and> pair_inv again e' \<and> pair_rank e' < pair_rank e"
proof (rule pair_advance [OF e step])
  show "pair_calls e q" using q go by (auto simp: pair_calls_def split: mp_producer.splits)
  show "own_tail q" using q fin by (simp add: own_tail_def)
  show "pair_rank (pair_after again e q) < pair_rank e"
    using q fin go less by (auto simp: pair_rank_def pair_after_def push_returned_def pop_done_def pop_returned_def pop_phase_def split: mp_consumer.splits)
qed

lemma pair_consumer:
  assumes e: "pair_inv again e" and fin: "prods (pq e) 0 = MIdle" "push_i e = 1024" and go: "mcons (pq e) \<noteq> MCIdle \<or> pop_i e < 1024"
  shows "\<exists>e'. pair_step again e e' \<and> pair_inv again e' \<and> pair_rank e' < pair_rank e"
proof -
  have lt: "pop_i e < 1024" using e go by (auto simp: pair_inv_def)
  note inv = pair_counts(1) [OF e] and moves = pair_consumer_moves [OF e _ _ _ fin(1) lt]
  show ?thesis
  proof (cases "mcons (pq e)")
    case MCIdle
    from mc_load_head [OF MCIdle] show ?thesis by (rule moves) (simp_all add: MCIdle pop_phase_def)
  next
    case MCCheck
    from mc_is_ready [OF MCCheck pair_published [OF e fin lt disjI2 [OF MCCheck]]] show ?thesis
      by (rule moves) (simp_all add: MCCheck pop_phase_def)
  next
    case MCMove
    from mc_move [OF MCMove mpsc_destroy_run(1) [OF bench_pow2 inv disjI1 [OF MCMove]]] show ?thesis
      by (rule moves) (simp_all add: MCMove pop_phase_def)
  next
    case (MCDestroy v)
    from mc_destroy [OF MCDestroy mpsc_destroy_run(2) [OF bench_pow2 inv disjI2 [OF MCDestroy]]] show ?thesis
      by (rule moves) (simp_all add: MCDestroy pop_phase_def)
  next
    case (MCUnready v)
    from mc_unready [OF MCUnready] show ?thesis by (rule moves) (simp_all add: MCUnready pop_phase_def)
  next
    case (MCAdvance v)
    from mc_advance [OF MCAdvance] show ?thesis by (rule moves) (simp_all add: MCAdvance pop_done_def)
  next
    case (MCFault u)
    with mpsc_head_slot(4) [OF bench_pow2 inv] show ?thesis by simp
  qed
qed

interpretation pair_end: helpful_system "pair_step again" "pair_inv again" pair_rank pair_joined for again
proof
  fix e assume e: "pair_inv again e" "\<not> pair_joined e"
  show "\<exists>e'. pair_step again e e' \<and> pair_inv again e' \<and> pair_rank e' < pair_rank e"
  proof (cases "prods (pq e) 0 \<noteq> MIdle \<or> push_i e < 1024")
    case True
    then show ?thesis by (rule pair_producer [OF e(1)])
  next
    case False
    with e have "prods (pq e) 0 = MIdle" "push_i e = 1024" by (auto simp: pair_inv_def pair_arg_def)
    with e show ?thesis by (intro pair_consumer [OF e(1)]) (auto simp: pair_joined_def)
  qed
qed

lemma pair_rank_le: "pair_rank e \<le> 13325"
proof -
  have "push_phase (c_tail (pq e)) (prods (pq e) 0) \<le> 7" by (auto simp: push_phase_def split: mp_producer.splits)
  moreover have "pop_phase (mcons (pq e)) \<le> 6" by (auto simp: pop_phase_def split: mp_consumer.splits)
  ultimately show ?thesis by (simp add: pair_rank_def)
qed

section \<open>Properties\<close>

text \<open>
  One producer, one consumer. Both benchmarks can always finish, and no insertion is ever refused: when the
  threads have left their loops all numbers were inserted, in order. What was removed is an initial part of them,
  and all of them when the consumer repeats the calls that found nothing.\<close>

theorem pair_complete:
  assumes "reach pair_start (pair_step again) e"
  shows "(\<exists>n\<le>13325. \<exists>e'. (pair_step again ^^ n) e e' \<and> pair_joined e') \<and>
    (pair_joined e \<longrightarrow> tickets (pq e) = map int [0..<1024] \<and> delivered (pq e) = map int [0..<c_head (pq e)] \<and>
      (again \<longrightarrow> delivered (pq e) = map int [0..<1024]))"
proof -
  have inv: "pair_inv again e" using assms by (rule pair.reach_inv)
  have fin: "\<exists>n\<le>13325. \<exists>e'. (pair_step again ^^ n) e e' \<and> pair_joined e'"
    using pair_end.reaches_goal [OF inv] pair_rank_le [of e] order_trans by blast
  have res: "tickets (pq e) = map int [0..<1024] \<and> delivered (pq e) = map int [0..<c_head (pq e)] \<and>
      (again \<longrightarrow> c_head (pq e) = 1024)" if j: "pair_joined e"
  proof -
    have i: "push_i e = 1024" using inv j by (auto simp: pair_joined_def pair_inv_def pair_arg_def)
    then have t: "tickets (pq e) = map int [0..<1024]" using inv j by (simp add: pair_joined_def pair_inv_def claims_def del: upt_rec_numeral)
    have up: "c_tail (pq e) = 1024" using pair_counts(3) [OF inv] i j by (simp add: pair_joined_def claims_def)
    then have "delivered (pq e) = map int [0..<c_head (pq e)]"
      using pair_counts(1,4) [OF inv] t by (simp add: mpsc_inv_defs take_map take_upt del: upt_rec_numeral)
    moreover have "c_head (pq e) = 1024" if again
      using inv j that pair_counts(4) [OF inv] up by (auto simp: pair_joined_def pair_inv_def)
    ultimately show ?thesis using t by blast
  qed
  from fin res show ?thesis by auto
qed

theorem pair_complete_witness:
  "\<exists>e. reach pair_start (pair_step True) e \<and> (\<exists>n\<le>13325. \<exists>e'. (pair_step True ^^ n) e e' \<and> pair_joined e')"
proof -
  obtain q :: "int mpsc_sys" where q: "mpsc_sys_init BENCH_N q" by (auto simp: mpsc_sys_init_def)
  have "reach pair_start (pair_step True) \<lparr>pq = q, push_i = 0, pop_i = 0\<rparr>" by (rule reach_init) (simp add: pair_start_def q)
  with pair_complete [OF this] show ?thesis by blast
qed

end
