(* ===== verification/Order_Book.thy ===== *)
theory Order_Book
  imports Fiah_Prelude "HOL-Library.Multiset"
begin

text \<open>
  The limit order book of \<^verbatim>\<open>include/fiah/structs/Orderbook.hh\<close>: orders, trades, the two
  price-sorted sides, insertion by binary search, matching and cancellation. The
  specification keeps the resting orders in one list in order of arrival and describes
  matching by price, then time; the book is shown to implement it.
\<close>

section \<open>Orders and trades\<close>

datatype side = BUY | SELL

record order =
  get_id :: u64_t
  get_level :: int
  is_buy :: bool
  get_qty :: int
  get_side :: side

definition Order :: "u64_t \<Rightarrow> int \<Rightarrow> bool \<Rightarrow> int \<Rightarrow> order" where
  "Order orderId level isBuy quantity =
     \<lparr>get_id = orderId, get_level = level, is_buy = isBuy, get_qty = quantity,
      get_side = (if isBuy then BUY else SELL)\<rparr>"

definition set_qty :: "order \<Rightarrow> int \<Rightarrow> order" where
  "set_qty ord new_qty = ord\<lparr>get_qty := new_qty\<rparr>"

record trade =
  OrderIdA :: u64_t
  OrderIdB :: u64_t
  AggressorOrderId :: u64_t
  AggressorIsBuy :: bool
  Level :: int
  Size :: int

section \<open>The book\<close>

text \<open>Both sides keep their best order at the end of the vector.\<close>

record orderbook =
  bids :: "order list"
  asks :: "order list"

definition Orderbook :: orderbook where
  "Orderbook = \<lparr>bids = [], asks = []\<rparr>"

definition can_match :: "order \<Rightarrow> order \<Rightarrow> bool" where
  "can_match buy sell \<longleftrightarrow> get_level buy \<ge> get_level sell"

definition is_dupe :: "orderbook \<Rightarrow> order \<Rightarrow> bool" where
  "is_dupe book ord \<longleftrightarrow>
     (let is_match = (\<lambda>x. get_id x = get_id ord)
      in list_ex is_match (bids book) \<or> list_ex is_match (asks book))"

text \<open>
  \<^verbatim>\<open>std::ranges::lower_bound\<close>: halve the range \<open>[first, first + len)\<close> until it is empty.
\<close>

function lower_bound_loop :: "('a \<Rightarrow> bool) \<Rightarrow> 'a list \<Rightarrow> nat \<Rightarrow> nat \<Rightarrow> nat" where
  "lower_bound_loop before xs first len =
     (if len = 0 then first
      else (let half = len div 2; mid = first + half
            in if before (xs ! mid)
               then lower_bound_loop before xs (mid + 1) (len - half - 1)
               else lower_bound_loop before xs first half))"
  by pat_completeness auto

termination
  by (relation "measure (\<lambda>(before, xs, first, len). len)") auto

declare lower_bound_loop.simps [simp del]

definition lower_bound :: "order list \<Rightarrow> int \<Rightarrow> (int \<Rightarrow> int \<Rightarrow> bool) \<Rightarrow> nat" where
  "lower_bound xs v lt = lower_bound_loop (\<lambda>x. lt (get_level x) v) xs 0 (length xs)"

definition vector_insert :: "'a list \<Rightarrow> nat \<Rightarrow> 'a \<Rightarrow> 'a list" where
  "vector_insert xs pos x = take pos xs @ x # drop pos xs"

definition insert_order :: "orderbook \<Rightarrow> order \<Rightarrow> orderbook" where
  "insert_order book ord =
     (if is_dupe book ord then book
      else if is_buy ord
      then (let pos = lower_bound (bids book) (get_level ord) (<)
            in book\<lparr>bids := vector_insert (bids book) pos ord\<rparr>)
      else (let pos = lower_bound (asks book) (get_level ord) (>)
            in book\<lparr>asks := vector_insert (asks book) pos ord\<rparr>))"

section \<open>Matching\<close>

definition mk_trade :: "order \<Rightarrow> order \<Rightarrow> int \<Rightarrow> trade" where
  "mk_trade incoming best trade_size =
     (let trade_price = (if is_buy incoming then get_level best else get_level incoming);
          aggressor_id = get_id incoming;
          aggressor_is_buy = is_buy incoming;
          bid_order_id = (if is_buy incoming then get_id incoming else get_id best);
          ask_order_id = (if is_buy incoming then get_id best else get_id incoming)
      in \<lparr>OrderIdA = bid_order_id, OrderIdB = ask_order_id, AggressorOrderId = aggressor_id,
          AggressorIsBuy = aggressor_is_buy, Level = trade_price, Size = trade_size\<rparr>)"

definition crosses :: "order \<Rightarrow> order \<Rightarrow> bool" where
  "crosses incoming best =
     (if is_buy incoming then can_match incoming best else can_match best incoming)"

text \<open>
  The loop of \<^verbatim>\<open>AddOrder\<close> over the opposite side, the quantity still open and the trades
  sent so far. It ends because every round empties the last order of the side or the
  open quantity.
\<close>

function match_loop ::
  "order \<Rightarrow> order list \<Rightarrow> int \<Rightarrow> trade list \<Rightarrow> (order list \<times> int \<times> trade list) res" where
  "match_loop incoming opposite_side remaining trades =
     (if \<not> (opposite_side \<noteq> [] \<and> remaining > 0) then Inr (opposite_side, remaining, trades)
      else
        let best = last opposite_side
        in if \<not> crosses incoming best then Inr (opposite_side, remaining, trades)
           else
             let trade_size = min (get_qty best) remaining;
                 trades' = trades @ [mk_trade incoming best trade_size]
             in bind_res (sub32 (get_qty best) trade_size) (\<lambda>q.
                  bind_res (sub32 remaining trade_size) (\<lambda>rem.
                    if q = 0 then match_loop incoming (butlast opposite_side) rem trades'
                    else match_loop incoming (butlast opposite_side @ [set_qty best q]) rem trades')))"
  by pat_completeness auto

termination
  by (relation "measure (\<lambda>(incoming, opp, remaining, trades).
        length opp + (if remaining > 0 then 1 else 0))")
    (auto simp: sub32_def min_def split: if_splits)

declare match_loop.simps [simp del]

definition AddOrder :: "orderbook \<Rightarrow> order \<Rightarrow> (trade list \<times> orderbook) res" where
  "AddOrder book incoming =
     (if is_dupe book incoming then Inr ([], book)
      else
        let opposite_side = (if is_buy incoming then asks book else bids book)
        in bind_res (match_loop incoming opposite_side (get_qty incoming) []) (\<lambda>(opp, remaining, trades).
             let book' = (if is_buy incoming then book\<lparr>asks := opp\<rparr> else book\<lparr>bids := opp\<rparr>)
             in Inr (trades,
                  if remaining > 0 then insert_order book' (set_qty incoming remaining)
                  else book')))"

text \<open>\<^verbatim>\<open>find_if\<close> followed by \<^verbatim>\<open>erase\<close>: the first order with that id goes.\<close>

fun erase_first :: "(order \<Rightarrow> bool) \<Rightarrow> order list \<Rightarrow> order list option" where
  "erase_first P [] = None"
| "erase_first P (x # xs) = (if P x then Some xs else map_option ((#) x) (erase_first P xs))"

definition CancelOrder :: "orderbook \<Rightarrow> u64_t \<Rightarrow> orderbook" where
  "CancelOrder book order_id =
     (let id_match = (\<lambda>x. get_id x = order_id)
      in case erase_first id_match (bids book) of
           Some bs \<Rightarrow> book\<lparr>bids := bs\<rparr>
         | None \<Rightarrow> (case erase_first id_match (asks book) of
                      Some as \<Rightarrow> book\<lparr>asks := as\<rparr>
                    | None \<Rightarrow> book))"

section \<open>Specification: price-time priority over arrival order\<close>

text \<open>
  The resting orders, oldest first. An incoming order meets the orders of the other side
  that its limit reaches, best price first and older first at equal prices (the sort is
  stable), and takes what it can from each in turn.
\<close>

definition price_key :: "order \<Rightarrow> order \<Rightarrow> int" where
  "price_key incoming x = (if is_buy incoming then get_level x else - get_level x)"

definition priority :: "order \<Rightarrow> order list \<Rightarrow> order list" where
  "priority incoming resting =
     sort_key (price_key incoming) (filter (\<lambda>x. is_buy x \<noteq> is_buy incoming) resting)"

fun fill :: "int \<Rightarrow> order list \<Rightarrow> (order \<times> int) list" where
  "fill open_qty [] = []"
| "fill open_qty (x # xs) =
     (if open_qty \<le> 0 then []
      else (x, min (get_qty x) open_qty) # fill (open_qty - min (get_qty x) open_qty) xs)"

definition filled :: "(order \<times> int) list \<Rightarrow> u64_t \<Rightarrow> int" where
  "filled fs i = sum_list (map snd (filter (\<lambda>(x, n). get_id x = i) fs))"

definition reduce :: "(order \<times> int) list \<Rightarrow> order \<Rightarrow> order" where
  "reduce fs x = x\<lparr>get_qty := get_qty x - filled fs (get_id x)\<rparr>"

definition rest_after :: "(order \<times> int) list \<Rightarrow> order list \<Rightarrow> order list" where
  "rest_after fs xs = filter (\<lambda>x. get_qty x > 0) (map (reduce fs) xs)"

definition spec_add :: "order list \<Rightarrow> order \<Rightarrow> trade list \<times> order list" where
  "spec_add resting incoming =
     (if get_id incoming \<in> get_id ` set resting then ([], resting)
      else
        let fs = fill (get_qty incoming) (filter (crosses incoming) (priority incoming resting));
            remaining = get_qty incoming - sum_list (map snd fs)
        in (map (\<lambda>(x, n). mk_trade incoming x n) fs,
            rest_after fs resting @ (if remaining > 0 then [set_qty incoming remaining] else [])))"

definition spec_cancel :: "order list \<Rightarrow> u64_t \<Rightarrow> order list" where
  "spec_cancel resting i = filter (\<lambda>x. get_id x \<noteq> i) resting"

section \<open>Binary search finds the partition point\<close>

lemma takeWhile_boundary:
  assumes "n \<le> length xs" "\<And>i. i < n \<Longrightarrow> P (xs ! i)" "\<And>i. n \<le> i \<Longrightarrow> i < length xs \<Longrightarrow> \<not> P (xs ! i)"
  shows "length (takeWhile P xs) = n"
proof (rule antisym)
  show "length (takeWhile P xs) \<le> n"
  proof (rule ccontr)
    assume "\<not> length (takeWhile P xs) \<le> n"
    then have lt: "n < length (takeWhile P xs)" by simp
    then have "P (xs ! n)" by (metis nth_mem set_takeWhileD takeWhile_nth)
    moreover have "n < length xs" using lt length_takeWhile_le by (rule less_le_trans)
    ultimately show False using assms(3) [of n] by simp
  qed
  show "n \<le> length (takeWhile P xs)" using assms(1,2) by (intro length_takeWhile_less_P_nth) auto
qed

lemma lower_bound_loop_partition:
  assumes "first + len \<le> length xs"
    and "\<And>i. i < first \<Longrightarrow> before (xs ! i)"
    and "\<And>i. first + len \<le> i \<Longrightarrow> i < length xs \<Longrightarrow> \<not> before (xs ! i)"
    and "\<And>i j. i \<le> j \<Longrightarrow> j < length xs \<Longrightarrow> before (xs ! j) \<Longrightarrow> before (xs ! i)"
  shows "lower_bound_loop before xs first len = length (takeWhile before xs)"
  using assms
proof (induction before xs first len rule: lower_bound_loop.induct)
  case (1 before xs first len)
  show ?case
  proof (cases "len = 0")
    case True
    with 1(3-5) show ?thesis by (subst takeWhile_boundary [of first]) (simp_all add: lower_bound_loop.simps)
  next
    case False
    define mid where "mid = first + len div 2"
    have mid: "mid < first + len" "mid < length xs" using False 1(3) by (auto simp: mid_def)
    show ?thesis
    proof (cases "before (xs ! mid)")
      case True
      have "lower_bound_loop before xs (mid + 1) (len - len div 2 - 1) = length (takeWhile before xs)"
      proof (rule 1(1) [OF False refl mid_def True])
        show "mid + 1 + (len - len div 2 - 1) \<le> length xs" using False 1(3) by (simp add: mid_def)
        show "before (xs ! i)" if "i < mid + 1" for i using 1(6) [of i mid] that mid True by simp
        show "\<not> before (xs ! i)" if "mid + 1 + (len - len div 2 - 1) \<le> i" "i < length xs" for i
          using 1(5) [of i] that False by (simp add: mid_def)
      qed (use 1(6) in blast)
      with False True show ?thesis by (subst lower_bound_loop.simps) (simp add: Let_def mid_def)
    next
      case nb: False
      have "lower_bound_loop before xs first (len div 2) = length (takeWhile before xs)"
      proof (rule 1(2) [OF False refl mid_def nb])
        show "first + len div 2 \<le> length xs" using 1(3) by simp
        show "\<not> before (xs ! i)" if "first + len div 2 \<le> i" "i < length xs" for i
          using 1(6) [of mid i] that nb by (auto simp: mid_def)
      qed (use 1(4,6) in blast)+
      with False nb show ?thesis by (subst lower_bound_loop.simps) (simp add: Let_def mid_def)
    qed
  qed
qed

lemma takeWhile_rev_sorted:
  fixes f :: "'a \<Rightarrow> int"
  assumes "sorted (map f xs)"
  shows "takeWhile (\<lambda>a. f a > c) (rev xs) = rev (filter (\<lambda>a. f a > c) xs)"
    and "dropWhile (\<lambda>a. f a > c) (rev xs) = rev (filter (\<lambda>a. f a \<le> c) xs)"
proof -
  have "takeWhile (\<lambda>a. f a > c) (rev xs) = rev (filter (\<lambda>a. f a > c) xs) \<and>
        dropWhile (\<lambda>a. f a > c) (rev xs) = rev (filter (\<lambda>a. f a \<le> c) xs)"
    using assms
  proof (induction xs)
    case (Cons a xs)
    show ?case
    proof (cases "f a > c")
      case True
      then have "\<forall>x \<in> set xs. f x > c" using Cons.prems by auto
      with True show ?thesis
        by (auto simp: takeWhile_append2 dropWhile_append2 filter_empty_conv not_le
            intro!: filter_True [symmetric])
    next
      case False
      with Cons show ?thesis
        by (cases "\<forall>x \<in> set xs. f x > c")
          (auto simp: takeWhile_append1 takeWhile_append2 dropWhile_append1 dropWhile_append2
            takeWhile_append dropWhile_append filter_empty_conv not_le)
    qed
  qed simp
  then show "takeWhile (\<lambda>a. f a > c) (rev xs) = rev (filter (\<lambda>a. f a > c) xs)"
    and "dropWhile (\<lambda>a. f a > c) (rev xs) = rev (filter (\<lambda>a. f a \<le> c) xs)" by auto
qed

text \<open>Sorting stably after appending puts the new element behind its equals.\<close>

lemma sort_key_snoc:
  fixes f :: "'a \<Rightarrow> int"
  shows "sort_key f (xs @ [x]) =
     filter (\<lambda>a. f a \<le> f x) (sort_key f xs) @ x # filter (\<lambda>a. f a > f x) (sort_key f xs)"
    (is "_ = ?r")
proof (rule properties_for_sort_key)
  have "mset (filter (\<lambda>a. f a \<le> f x) xs) + mset (filter (\<lambda>a. f x < f a) xs) = mset xs"
    by (induction xs) auto
  then show "mset ?r = mset (xs @ [x])" by (simp add: filter_sort [symmetric] del: filter_sort) 
  have s: "sorted (map f (sort_key f xs))" by simp
  show "sorted (map f ?r)"
    using sorted_filter [OF s, of "\<lambda>a. f a \<le> f x"] sorted_filter [OF s, of "\<lambda>a. f a > f x"]
    by (auto simp: sorted_append)
  show "filter (\<lambda>a. f k = f a) ?r = filter (\<lambda>a. f k = f a) (xs @ [x])" if "k \<in> set ?r" for k
  proof -
    have st: "filter (\<lambda>a. f k = f a) (sort_key f xs) = filter (\<lambda>a. f k = f a) xs"
      using sort_key_stable [of f "f k" xs] by (simp add: eq_commute)
    show ?thesis
    proof (cases "f k \<le> f x")
      case True
      then have "filter (\<lambda>a. f k = f a \<and> f a \<le> f x) (sort_key f xs) = filter (\<lambda>a. f k = f a) xs"
        using st by (metis (mono_tags, lifting) filter_cong)
      moreover have "filter (\<lambda>a. f k = f a \<and> f x < f a) (sort_key f xs) = []"
        using True by (auto simp: filter_empty_conv)
      ultimately show ?thesis by (simp add: conj_commute)
    next
      case False
      then have "filter (\<lambda>a. f k = f a \<and> f x < f a) (sort_key f xs) = filter (\<lambda>a. f k = f a) xs"
        using st by (metis (mono_tags, lifting) filter_cong not_le)
      moreover have "filter (\<lambda>a. f k = f a \<and> f a \<le> f x) (sort_key f xs) = []"
        using False by (auto simp: filter_empty_conv)
      ultimately show ?thesis using False by (simp add: conj_commute)
    qed
  qed
qed

section \<open>A side of the book as a stably sorted list\<close>

text \<open>
  Read from the back, a side is the stable sort of its orders in arrival order: asks by
  ascending level, bids by descending level.
\<close>

definition side_holds :: "bool \<Rightarrow> order list \<Rightarrow> order list \<Rightarrow> bool" where
  "side_holds buy_side xs resting \<longleftrightarrow>
     rev xs = sort_key (\<lambda>x. if buy_side then - get_level x else get_level x)
                (filter (\<lambda>x. is_buy x = buy_side) resting)"

definition holds :: "orderbook \<Rightarrow> order list \<Rightarrow> bool" where
  "holds book resting \<longleftrightarrow> side_holds True (bids book) resting \<and> side_holds False (asks book) resting"

definition resting_ok :: "order list \<Rightarrow> bool" where
  "resting_ok resting \<longleftrightarrow>
     distinct (map get_id resting) \<and>
     (\<forall>x \<in> set resting. 0 < get_qty x \<and> int32 (get_qty x))"

lemma side_holds_set: "side_holds b xs resting \<Longrightarrow> set xs = {x \<in> set resting. is_buy x = b}"
  unfolding side_holds_def by (metis set_filter set_rev set_sort)

lemma holds_set: "holds book resting \<Longrightarrow> set (bids book) \<union> set (asks book) = set resting"
  by (auto simp: holds_def dest!: side_holds_set)

lemma is_dupe_holds:
  assumes "holds book resting"
  shows "is_dupe book ord \<longleftrightarrow> get_id ord \<in> get_id ` set resting"
  unfolding holds_set [OF assms, symmetric]
  by (auto simp: is_dupe_def list_ex_iff Let_def image_iff bex_Un eq_commute)

lemma ids_sides:
  assumes "holds book resting" "resting_ok resting"
  shows "get_id ` set (bids book) \<inter> get_id ` set (asks book) = {}"
proof -
  have "set (bids book) = {x \<in> set resting. is_buy x}" "set (asks book) = {x \<in> set resting. \<not> is_buy x}"
    using assms(1) side_holds_set by (auto simp: holds_def)
  moreover have "inj_on get_id (set resting)" using assms(2) by (simp add: resting_ok_def distinct_map)
  ultimately show ?thesis by (auto dest: inj_onD)
qed

text \<open>Insertion at the position of the binary search.\<close>

lemma lower_bound_before:
  assumes "\<And>i j. i \<le> j \<Longrightarrow> j < length xs \<Longrightarrow> lt (get_level (xs ! j)) v \<Longrightarrow> lt (get_level (xs ! i)) v"
  shows "vector_insert xs (lower_bound xs v lt) x =
    takeWhile (\<lambda>x. lt (get_level x) v) xs @ x # dropWhile (\<lambda>x. lt (get_level x) v) xs"
proof -
  have "lower_bound xs v lt = length (takeWhile (\<lambda>x. lt (get_level x) v) xs)"
    unfolding lower_bound_def by (rule lower_bound_loop_partition) (use assms in auto)
  then show ?thesis
    by (simp add: vector_insert_def takeWhile_eq_take [symmetric] dropWhile_eq_drop [symmetric])
qed

lemma side_insert_holds:
  assumes "side_holds (is_buy ord) xs resting"
    and lt: "lt = (if is_buy ord then (<) else (>))"
  shows "side_holds (is_buy ord) (vector_insert xs (lower_bound xs (get_level ord) lt) ord) (resting @ [ord])"
proof -
  define f :: "order \<Rightarrow> int" where "f = (\<lambda>x. if is_buy ord then - get_level x else get_level x)"
  define S where "S = sort_key f (filter (\<lambda>x. is_buy x = is_buy ord) resting)"
  have xs: "xs = rev S" using assms(1) by (simp add: side_holds_def S_def f_def rev_swap)
  have srt: "sorted (map f S)" by (simp add: S_def)
  have lt_f: "lt (get_level x) (get_level ord) \<longleftrightarrow> f x > f ord" for x by (simp add: lt f_def)
  have "vector_insert xs (lower_bound xs (get_level ord) lt) ord =
      takeWhile (\<lambda>x. f x > f ord) xs @ ord # dropWhile (\<lambda>x. f x > f ord) xs"
  proof (subst lower_bound_before)
    fix i j assume ij: "i \<le> j" "j < length xs" "lt (get_level (xs ! j)) (get_level ord)"
    have "f (xs ! j) \<le> f (xs ! i)"
      using sorted_nth_mono [OF srt, of "length xs - Suc j" "length xs - Suc i"] ij
      by (simp add: xs rev_nth)
    with ij(3) show "lt (get_level (xs ! i)) (get_level ord)" by (simp add: lt_f)
  qed (simp add: lt_f)
  also have "\<dots> = rev (sort_key f (filter (\<lambda>x. is_buy x = is_buy ord) resting @ [ord]))"
    by (simp add: xs takeWhile_rev_sorted [OF srt] sort_key_snoc flip: S_def)
  finally show ?thesis by (simp add: side_holds_def f_def)
qed

lemma side_holds_other: "is_buy ord \<noteq> b \<Longrightarrow> side_holds b xs (resting @ [ord]) = side_holds b xs resting"
  by (simp add: side_holds_def)

lemma insert_order_holds:
  assumes "holds book resting" "get_id ord \<notin> get_id ` set resting"
  shows "holds (insert_order book ord) (resting @ [ord])"
proof (cases "is_buy ord")
  case True
  with assms side_insert_holds [of ord "bids book" resting "(<)"] show ?thesis
    by (simp add: insert_order_def is_dupe_holds holds_def side_holds_other)
next
  case False
  with assms side_insert_holds [of ord "asks book" resting "(>)"] show ?thesis
    by (simp add: insert_order_def is_dupe_holds holds_def side_holds_other)
qed

section \<open>The matching loop\<close>

lemma filled_Nil [simp]: "filled [] i = 0"
  by (simp add: filled_def)

lemma filled_Cons [simp]: "filled ((x, n) # fs) i = (if get_id x = i then n else 0) + filled fs i"
  by (simp add: filled_def)

lemma reduce_Nil [simp]: "reduce [] x = x"
  by (simp add: reduce_def)

lemma reduce_simps [simp]:
  "get_id (reduce fs x) = get_id x" "get_level (reduce fs x) = get_level x"
  "is_buy (reduce fs x) = is_buy x" "get_side (reduce fs x) = get_side x"
  "get_qty (reduce fs x) = get_qty x - filled fs (get_id x)"
  by (auto simp: reduce_def)

lemma filled_notin: "i \<notin> get_id ` fst ` set fs \<Longrightarrow> filled fs i = 0"
  by (induction fs) (auto simp: filled_def)

lemma fill_subset: "fst ` set (fill q xs) \<subseteq> set xs"
  by (induction q xs rule: fill.induct) auto

lemma filled_fill_outside: "i \<notin> get_id ` set ys \<Longrightarrow> filled (fill q ys) i = 0"
  using fill_subset [of q ys] by (intro filled_notin) blast

lemma reduce_outside: "get_id x \<notin> get_id ` set ys \<Longrightarrow> reduce (fill q ys) x = x"
  by (simp add: reduce_def filled_fill_outside)

lemma fill_nonpos [simp]: "q \<le> 0 \<Longrightarrow> fill q xs = []"
  by (cases xs) auto

lemma rest_after_Nil: "resting_ok xs \<Longrightarrow> rest_after [] xs = xs"
  by (auto simp: rest_after_def resting_ok_def map_idI)

lemma rest_after_Cons:
  "rest_after fs (x # xs) =
     (if get_qty (reduce fs x) > 0 then reduce fs x # rest_after fs xs else rest_after fs xs)"
  by (simp add: rest_after_def)

lemma rest_after_skip:
  "get_id x \<notin> get_id ` set xs \<Longrightarrow> rest_after ((x, n) # fs) xs = rest_after fs xs"
  unfolding rest_after_def by (intro arg_cong [of _ _ "filter _"] map_cong) (auto simp: reduce_def)

text \<open>The three ways a round of the loop can go.\<close>

lemma match_loop_stop:
  "\<not> (q > 0 \<and> crosses incoming b) \<Longrightarrow> match_loop incoming (xs @ [b]) q ts = Inr (xs @ [b], q, ts)"
  by (subst match_loop.simps) auto

lemma match_loop_take:
  "q > 0 \<Longrightarrow> crosses incoming b \<Longrightarrow> get_qty b \<le> q \<Longrightarrow> int32 (q - get_qty b) \<Longrightarrow>
   match_loop incoming (xs @ [b]) q ts =
   match_loop incoming xs (q - get_qty b) (ts @ [mk_trade incoming b (get_qty b)])"
  by (subst match_loop.simps) (simp add: sub32_def int32_def Let_def)

lemma match_loop_part:
  "q > 0 \<Longrightarrow> crosses incoming b \<Longrightarrow> q < get_qty b \<Longrightarrow> int32 (get_qty b) \<Longrightarrow>
   match_loop incoming (xs @ [b]) q ts =
   Inr (xs @ [set_qty b (get_qty b - q)], 0, ts @ [mk_trade incoming b q])"
  by (subst match_loop.simps) (simp add: sub32_def int32_def match_loop.simps)

lemma match_loop_fill:
  assumes "resting_ok S" "int32 q"
  shows "match_loop incoming (rev S) q ts =
    (let fs = fill q (takeWhile (crosses incoming) S)
     in Inr (rev (rest_after fs S), q - sum_list (map snd fs),
             ts @ map (\<lambda>(x, n). mk_trade incoming x n) fs))"
  using assms
proof (induction S arbitrary: q ts)
  case Nil
  then show ?case by (simp add: match_loop.simps rest_after_def)
next
  case (Cons b S)
  have ok: "resting_ok S" and b: "0 < get_qty b" "int32 (get_qty b)"
    and ni: "get_id b \<notin> get_id ` set S"
    using Cons.prems(1) by (auto simp: resting_ok_def)
  have ni': "get_id b \<notin> get_id ` set (takeWhile (crosses incoming) S)"
    using ni by (auto dest: set_takeWhileD)
  consider (stop) "\<not> (q > 0 \<and> crosses incoming b)"
    | (take) "q > 0" "crosses incoming b" "get_qty b \<le> q"
    | (part) "q > 0" "crosses incoming b" "q < get_qty b"
    by linarith
  then show ?case
  proof cases
    case stop
    then have "fill q (takeWhile (crosses incoming) (b # S)) = []" by auto
    with stop show ?thesis
      by (simp add: match_loop_stop rest_after_Nil [OF Cons.prems(1)])
  next
    case take
    then have r: "int32 (q - get_qty b)"
      using b Cons.prems(2) by (auto simp: int32_def)
    from take Cons.IH [OF ok r] show ?thesis
      by (simp add: match_loop_take [OF take r] rest_after_Cons rest_after_skip [OF ni]
          filled_fill_outside [OF ni'] Let_def)
  next
    case part
    then show ?thesis
      by (simp add: match_loop_part [OF part b(2)] rest_after_Cons rest_after_skip [OF ni]
          rest_after_Nil [OF ok] reduce_def set_qty_def)
  qed
qed

section \<open>The book implements the specification\<close>

lemma crosses_key: "crosses incoming x \<longleftrightarrow> price_key incoming x \<le> price_key incoming incoming"
  by (auto simp: crosses_def can_match_def price_key_def)

lemma takeWhile_sorted_le:
  fixes f :: "'a \<Rightarrow> int"
  shows "sorted (map f xs) \<Longrightarrow> takeWhile (\<lambda>x. f x \<le> c) xs = filter (\<lambda>x. f x \<le> c) xs"
  by (induction xs) (auto simp: filter_empty_conv dest: order_trans intro!: filter_False [symmetric])

lemma takeWhile_crosses_priority:
  "takeWhile (crosses incoming) (priority incoming resting) =
   filter (crosses incoming) (priority incoming resting)"
  using takeWhile_sorted_le [of "price_key incoming" "priority incoming resting"]
  by (simp add: crosses_key [abs_def] priority_def)

lemma side_priority:
  "side_holds (\<not> is_buy incoming) xs resting \<Longrightarrow> rev xs = priority incoming resting"
  by (cases "is_buy incoming")
    (simp_all add: side_holds_def priority_def price_key_def [abs_def])

lemma sort_key_map: "sort_key f (map g xs) = map g (sort_key (\<lambda>x. f (g x)) xs)"
proof -
  have ins: "insort_key f (g a) (map g ys) = map g (insort_key (\<lambda>x. f (g x)) a ys)" for a ys
    by (induction ys) auto
  show ?thesis by (induction xs) (auto simp: ins)
qed

lemma side_holds_rest:
  "side_holds b xs resting \<Longrightarrow> side_holds b (rev (rest_after fs (rev xs))) (rest_after fs resting)"
  by (cases b) (simp_all add: side_holds_def rest_after_def filter_sort filter_map o_def sort_key_map conj_commute)

lemma rest_after_outside:
  assumes "\<And>x. x \<in> set xs \<Longrightarrow> 0 < get_qty x"
    and "get_id ` set xs \<inter> get_id ` set ys = {}"
  shows "rest_after (fill q ys) xs = xs"
proof -
  have "map (reduce (fill q ys)) xs = xs"
    using assms(2) by (intro map_idI reduce_outside) auto
  with assms(1) show ?thesis by (simp add: rest_after_def)
qed

lemma set_priority: "set (priority incoming resting) = {x \<in> set resting. is_buy x \<noteq> is_buy incoming}"
  by (auto simp: priority_def)

lemma distinct_map_sort_key:
  assumes "distinct (map g xs)"
  shows "distinct (map g (sort_key f xs))"
proof -
  have "mset (map g (sort_key f xs)) = mset (map g xs)" by simp
  with assms show ?thesis by (metis mset_eq_imp_distinct_iff)
qed

lemma resting_ok_priority: "resting_ok resting \<Longrightarrow> resting_ok (priority incoming resting)"
  unfolding resting_ok_def
  by (auto simp: priority_def intro!: distinct_map_sort_key distinct_map_filter)

lemma fill_pos:
  "(x, n) \<in> set (fill q xs) \<Longrightarrow> (\<And>y. y \<in> set xs \<Longrightarrow> 0 < get_qty y) \<Longrightarrow> 0 < n \<and> n \<le> get_qty x"
  by (induction q xs rule: fill.induct) (auto split: if_splits)

lemma sum_fill_le: "(\<And>y. y \<in> set xs \<Longrightarrow> 0 < get_qty y) \<Longrightarrow> 0 \<le> q \<Longrightarrow>
   0 \<le> sum_list (map snd (fill q xs)) \<and> sum_list (map snd (fill q xs)) \<le> q"
proof (induction q xs rule: fill.induct)
  case (2 q x xs)
  have "0 < get_qty x" using 2(2) by simp
  moreover have "0 < q \<Longrightarrow> 0 \<le> sum_list (map snd (fill (q - min (get_qty x) q) xs)) \<and>
      sum_list (map snd (fill (q - min (get_qty x) q) xs)) \<le> q - min (get_qty x) q"
    using 2 by simp
  ultimately show ?case using 2(3) by auto
qed simp

lemma filled_nonneg:
  assumes "\<And>y. y \<in> set xs \<Longrightarrow> 0 < get_qty y"
  shows "0 \<le> filled (fill q xs) i"
  using fill_pos [OF _ assms] unfolding filled_def
  by (intro sum_list_nonneg) (fastforce simp: less_imp_le)

lemma resting_ok_rest_after:
  assumes "resting_ok resting" "set xs \<subseteq> set resting"
  shows "resting_ok (rest_after (fill q xs) resting)"
proof -
  have pos: "0 < get_qty y" if "y \<in> set xs" for y
    using assms that by (auto simp: resting_ok_def)
  have "int32 (get_qty x - filled (fill q xs) (get_id x))"
    if "x \<in> set resting" "0 < get_qty x - filled (fill q xs) (get_id x)" for x
  proof -
    have "int32 (get_qty x)" using assms(1) that(1) by (simp add: resting_ok_def)
    with that(2) filled_nonneg [of xs q "get_id x", OF pos] show ?thesis by (simp add: int32_def)
  qed
  with assms(1) show ?thesis
    by (auto simp: resting_ok_def rest_after_def distinct_map_filter o_def)
qed

lemma get_id_rest_after: "get_id ` set (rest_after fs resting) \<subseteq> get_id ` set resting"
  by (auto simp: rest_after_def)

text \<open>One call of \<^verbatim>\<open>AddOrder\<close>: no overflow, the specified trades, the specified book.\<close>

lemma AddOrder_refines:
  assumes hb: "holds book resting" and ok: "resting_ok resting" and q: "int32 (get_qty incoming)"
  shows "\<exists>book'. AddOrder book incoming = Inr (fst (spec_add resting incoming), book') \<and>
     holds book' (snd (spec_add resting incoming))"
proof (cases "get_id incoming \<in> get_id ` set resting")
  case True
  with hb show ?thesis by (simp add: AddOrder_def is_dupe_holds spec_add_def)
next
  case False
  define opp where "opp = (if is_buy incoming then asks book else bids book)"
  define same where "same = (if is_buy incoming then bids book else asks book)"
  define P where "P = priority incoming resting"
  define fs where "fs = fill (get_qty incoming) (filter (crosses incoming) P)"
  define remaining where "remaining = get_qty incoming - sum_list (map snd fs)"
  define book' where "book' = (if is_buy incoming then book\<lparr>asks := rev (rest_after fs P)\<rparr>
    else book\<lparr>bids := rev (rest_after fs P)\<rparr>)"
  have opp: "side_holds (\<not> is_buy incoming) opp resting" and same: "side_holds (is_buy incoming) same resting"
    using hb by (auto simp: holds_def opp_def same_def)
  have rev_opp: "rev opp = P" using side_priority [OF opp] by (simp add: P_def)
  have "match_loop incoming (rev P) (get_qty incoming) [] =
      Inr (rev (rest_after fs P), remaining, map (\<lambda>(x, n). mk_trade incoming x n) fs)"
    using match_loop_fill [OF resting_ok_priority [OF ok] q, of incoming incoming "[]"]
      takeWhile_crosses_priority [of incoming resting]
    by (simp add: Let_def remaining_def fs_def P_def)
  moreover have "opp = rev P" using rev_opp by (simp add: rev_swap)
  ultimately have add: "AddOrder book incoming = Inr (map (\<lambda>(x, n). mk_trade incoming x n) fs,
      if remaining > 0 then insert_order book' (set_qty incoming remaining) else book')"
    using False by (simp add: AddOrder_def is_dupe_holds [OF hb] book'_def flip: opp_def)
  have ids: "get_id ` set same \<inter> get_id ` set (filter (crosses incoming) P) = {}"
    using ok side_holds_set [OF same]
    by (auto simp: P_def set_priority resting_ok_def distinct_map dest!: inj_onD)
  have "rest_after fs (rev same) = rev same"
    unfolding fs_def using ok side_holds_set [OF same] ids
    by (intro rest_after_outside) (auto simp: resting_ok_def)
  with side_holds_rest [OF same, of fs] side_holds_rest [OF opp, of fs]
  have hb': "holds book' (rest_after fs resting)"
    by (cases "is_buy incoming") (simp_all add: holds_def book'_def same_def rev_opp)
  have "get_id (set_qty incoming remaining) \<notin> get_id ` set (rest_after fs resting)"
    using False get_id_rest_after [of fs resting] by (auto simp: set_qty_def)
  from insert_order_holds [OF hb' this] hb' add False show ?thesis
    unfolding spec_add_def P_def [symmetric] fs_def [symmetric] Let_def remaining_def [symmetric]
    by simp
qed

lemma spec_add_ok:
  assumes ok: "resting_ok resting" and q: "int32 (get_qty incoming)"
  shows "resting_ok (snd (spec_add resting incoming))"
proof (cases "get_id incoming \<in> get_id ` set resting")
  case False
  define xs where "xs = filter (crosses incoming) (priority incoming resting)"
  define fs where "fs = fill (get_qty incoming) xs"
  define remaining where "remaining = get_qty incoming - sum_list (map snd fs)"
  have sub: "set xs \<subseteq> set resting" by (auto simp: xs_def set_priority)
  have rest: "resting_ok (rest_after fs resting)"
    unfolding fs_def by (rule resting_ok_rest_after [OF ok sub])
  have "int32 remaining" if "remaining > 0"
  proof -
    have "0 < get_qty incoming" using that by (cases "get_qty incoming \<le> 0") (auto simp: remaining_def fs_def)
    then have "remaining \<le> get_qty incoming"
      using sum_fill_le [of xs "get_qty incoming"] sub ok by (auto simp: remaining_def fs_def resting_ok_def)
    with q that show ?thesis by (simp add: int32_def)
  qed
  moreover have "get_id incoming \<notin> get_id ` set (rest_after fs resting)"
    using False get_id_rest_after by blast
  ultimately have "resting_ok (rest_after fs resting @ (if remaining > 0 then [set_qty incoming remaining] else []))"
    using rest by (auto simp: resting_ok_def set_qty_def)
  moreover have "snd (spec_add resting incoming) =
      rest_after fs resting @ (if remaining > 0 then [set_qty incoming remaining] else [])"
    using False unfolding spec_add_def xs_def [symmetric] fs_def [symmetric] Let_def remaining_def by simp
  ultimately show ?thesis by simp
qed (simp add: spec_add_def ok)

text \<open>Cancellation.\<close>

lemma erase_first_filter:
  "distinct (map g xs) \<Longrightarrow>
   erase_first (\<lambda>x. g x = i) xs = (if i \<in> g ` set xs then Some (filter (\<lambda>x. g x \<noteq> i) xs) else None)"
  by (induction xs) (auto simp: image_iff intro!: filter_True [symmetric])

lemma CancelOrder_refines:
  assumes hb: "holds book resting" and ok: "resting_ok resting"
  shows "holds (CancelOrder book i) (spec_cancel resting i)"
proof -
  have side: "distinct (map get_id xs) \<and> side_holds b (filter (\<lambda>x. get_id x \<noteq> i) xs) (spec_cancel resting i)"
    if "side_holds b xs resting" for b xs
  proof -
    have "distinct (map get_id (filter (\<lambda>x. is_buy x = b) resting))"
      using ok by (simp add: resting_ok_def distinct_map_filter)
    from distinct_map_sort_key [OF this] that have "distinct (map get_id (rev xs))"
      by (simp only: side_holds_def)
    then have "distinct (map get_id xs)" by (simp add: rev_map [symmetric])
    with that show ?thesis
      by (simp add: side_holds_def spec_cancel_def rev_filter filter_sort conj_commute)
  qed
  have "side_holds True (bids book) resting" "side_holds False (asks book) resting"
    using hb by (auto simp: holds_def)
  note b = side [OF this(1)] and a = side [OF this(2)]
  have id: "filter (\<lambda>x. get_id x \<noteq> i) xs = xs" if "i \<notin> get_id ` set xs" for xs :: "order list"
    using that by (auto simp: filter_id_conv)
  have disj: "i \<in> get_id ` set (bids book) \<Longrightarrow> i \<notin> get_id ` set (asks book)"
    using hb ok ids_sides by blast
  show ?thesis
  proof (cases "i \<in> get_id ` set (bids book)")
    case True
    with a b id [OF disj] show ?thesis
      by (simp add: CancelOrder_def erase_first_filter holds_def)
  next
    case False
    with a b id [OF False] id [of "asks book"] show ?thesis
      by (cases "i \<in> get_id ` set (asks book)") (simp_all add: CancelOrder_def erase_first_filter holds_def)
  qed
qed

lemma spec_cancel_ok: "resting_ok resting \<Longrightarrow> resting_ok (spec_cancel resting i)"
  by (auto simp: resting_ok_def spec_cancel_def distinct_map_filter)

section \<open>Invariant of the book\<close>

definition book_ok :: "orderbook \<Rightarrow> bool" where
  "book_ok book \<longleftrightarrow>
     sorted (map get_level (bids book)) \<and> sorted (rev (map get_level (asks book))) \<and>
     (\<forall>x \<in> set (bids book). is_buy x) \<and> (\<forall>x \<in> set (asks book). \<not> is_buy x) \<and>
     distinct (map get_id (bids book @ asks book)) \<and>
     (\<forall>x \<in> set (bids book @ asks book). 0 < get_qty x \<and> int32 (get_qty x)) \<and>
     (\<forall>b \<in> set (bids book). \<forall>a \<in> set (asks book). get_level b < get_level a)"

definition uncrossed :: "order list \<Rightarrow> bool" where
  "uncrossed resting \<longleftrightarrow>
     (\<forall>b \<in> set resting. \<forall>a \<in> set resting. is_buy b \<longrightarrow> \<not> is_buy a \<longrightarrow> get_level b < get_level a)"

text \<open>The invariant is the same as holding some well-formed, uncrossed list of orders.\<close>

lemma sorted_rev_neg: "sorted (map (\<lambda>x. - f x :: int) (rev xs)) \<longleftrightarrow> sorted (map f xs)"
  by (induction xs) (auto simp: sorted_append)

lemma book_ok_holds:
  assumes "book_ok book"
  defines "resting \<equiv> rev (bids book) @ rev (asks book)"
  shows "holds book resting" "resting_ok resting" "uncrossed resting"
proof -
  have "filter is_buy resting = rev (bids book)" "filter (\<lambda>x. \<not> is_buy x) resting = rev (asks book)"
    using assms(1) by (auto simp: resting_def book_ok_def filter_id_conv filter_empty_conv)
  moreover have "sort_key (\<lambda>x. - get_level x) (rev (bids book)) = rev (bids book)"
    by (rule sort_key_id_if_sorted) (use assms(1) in \<open>simp add: sorted_rev_neg book_ok_def\<close>)
  moreover have "sort_key get_level (rev (asks book)) = rev (asks book)"
    by (rule sort_key_id_if_sorted) (use assms(1) in \<open>simp add: rev_map book_ok_def\<close>)
  ultimately show "holds book resting"
    by (simp add: holds_def side_holds_def)
  show "resting_ok resting" "uncrossed resting"
    using assms(1) by (auto simp: resting_ok_def uncrossed_def book_ok_def resting_def rev_map [symmetric])
qed

lemma holds_book_ok:
  assumes "holds book resting" "resting_ok resting" "uncrossed resting"
  shows "book_ok book"
proof -
  have sides: "side_holds True (bids book) resting" "side_holds False (asks book) resting"
    using assms(1) by (auto simp: holds_def)
  note sets = sides [THEN side_holds_set]
  have "sorted (map (\<lambda>x. - get_level x) (rev (bids book)))" "sorted (map get_level (rev (asks book)))"
    using sides by (simp_all add: side_holds_def)
  then have srt: "sorted (map get_level (bids book))" "sorted (rev (map get_level (asks book)))"
    by (simp_all only: sorted_rev_neg rev_map)
  have dist: "distinct (map get_id xs)" if "side_holds b xs resting" for b xs
  proof -
    have "distinct (map get_id (filter (\<lambda>x. is_buy x = b) resting))"
      using assms(2) by (simp add: resting_ok_def distinct_map_filter)
    from distinct_map_sort_key [OF this] that have "distinct (map get_id (rev xs))"
      by (simp only: side_holds_def)
    then show ?thesis by (simp add: rev_map [symmetric])
  qed
  have ids: "distinct (map get_id (bids book @ asks book))"
    using dist [OF sides(1)] dist [OF sides(2)] ids_sides [OF assms(1,2)] by simp
  show ?thesis
    unfolding book_ok_def using srt ids sets assms(2,3) by (auto simp: resting_ok_def uncrossed_def)
qed

lemma fill_exhausts:
  assumes "distinct (map get_id xs)" "\<And>y. y \<in> set xs \<Longrightarrow> 0 < get_qty y"
    and "sum_list (map snd (fill q xs)) < q" "x \<in> set xs"
  shows "filled (fill q xs) (get_id x) = get_qty x"
  using assms
proof (induction q xs rule: fill.induct)
  case (2 q y xs)
  define n where "n = min (get_qty y) q"
  have q: "0 < q"
  proof (rule ccontr)
    assume "\<not> 0 < q"
    with 2(4) show False by simp
  qed
  have lt: "sum_list (map snd (fill (q - n) xs)) < q - n" using 2(4) q by (simp add: n_def)
  moreover have "sum_list (map snd (fill (q - n) xs)) = 0" if "q - n \<le> 0" using that by simp
  ultimately have "n < q" by (cases "q - n \<le> 0") auto
  then have n: "n = get_qty y" by (auto simp: n_def min_def split: if_splits)
  show ?case
  proof (cases "x = y")
    case True
    then have "filled (fill (q - n) xs) (get_id x) = 0"
      using 2(2) by (intro filled_fill_outside) auto
    with True q n show ?thesis by (simp flip: n_def)
  next
    case False
    with 2 q lt n show ?thesis by (auto simp flip: n_def)
  qed
qed simp

lemma spec_add_uncrossed:
  assumes ok: "resting_ok resting" and un: "uncrossed resting"
  shows "uncrossed (snd (spec_add resting incoming))"
proof (cases "get_id incoming \<in> get_id ` set resting")
  case False
  define xs where "xs = filter (crosses incoming) (priority incoming resting)"
  define fs where "fs = fill (get_qty incoming) xs"
  define remaining where "remaining = get_qty incoming - sum_list (map snd fs)"
  have snd: "snd (spec_add resting incoming) =
      rest_after fs resting @ (if remaining > 0 then [set_qty incoming remaining] else [])"
    using False unfolding spec_add_def xs_def [symmetric] fs_def [symmetric] Let_def remaining_def by simp
  have rest: "uncrossed (rest_after fs resting)"
    using un by (auto simp: uncrossed_def rest_after_def)
  have gone: "\<not> crosses incoming x" if x: "x \<in> set (rest_after fs resting)"
    and side: "is_buy x \<noteq> is_buy incoming" and left: "remaining > 0" for x
  proof
    assume cr: "crosses incoming x"
    obtain y where y: "y \<in> set resting" "x = reduce fs y" "0 < get_qty y - filled fs (get_id y)"
      using x by (auto simp: rest_after_def)
    then have "y \<in> set xs" using cr side
      by (auto simp: xs_def set_priority crosses_def can_match_def split: if_splits)
    moreover have "distinct (map get_id xs)" "\<And>z. z \<in> set xs \<Longrightarrow> 0 < get_qty z"
      using resting_ok_priority [OF ok] by (auto simp: xs_def resting_ok_def distinct_map_filter)
    ultimately have "filled fs (get_id y) = get_qty y"
      unfolding fs_def using left by (intro fill_exhausts) (auto simp: remaining_def fs_def)
    with y(3) show False by simp
  qed
  show ?thesis
    unfolding snd using rest gone
    by (cases "remaining > 0")
      (auto simp: uncrossed_def set_qty_def crosses_def can_match_def not_le)
qed (simp add: spec_add_def un)

lemma spec_cancel_uncrossed: "uncrossed resting \<Longrightarrow> uncrossed (spec_cancel resting i)"
  by (auto simp: uncrossed_def spec_cancel_def)

section \<open>Sequences of calls\<close>

datatype book_cmd = Add order | Cancel u64_t

fun book_run :: "orderbook \<Rightarrow> book_cmd list \<Rightarrow> (trade list list \<times> orderbook) res" where
  "book_run book [] = Inr ([], book)"
| "book_run book (Add ord # cs) =
     bind_res (AddOrder book ord) (\<lambda>(ts, book').
       bind_res (book_run book' cs) (\<lambda>(tss, book''). Inr (ts # tss, book'')))"
| "book_run book (Cancel i # cs) = book_run (CancelOrder book i) cs"

fun spec_run :: "order list \<Rightarrow> book_cmd list \<Rightarrow> trade list list \<times> order list" where
  "spec_run resting [] = ([], resting)"
| "spec_run resting (Add ord # cs) =
     (let (ts, resting') = spec_add resting ord; (tss, resting'') = spec_run resting' cs
      in (ts # tss, resting''))"
| "spec_run resting (Cancel i # cs) = spec_run (spec_cancel resting i) cs"

definition qty32 :: "book_cmd \<Rightarrow> bool" where
  "qty32 c \<longleftrightarrow> (case c of Add ord \<Rightarrow> int32 (get_qty ord) | Cancel _ \<Rightarrow> True)"

lemma book_run_refines:
  "holds book resting \<Longrightarrow> resting_ok resting \<Longrightarrow> uncrossed resting \<Longrightarrow> list_all qty32 cs \<Longrightarrow>
   \<exists>book'. book_run book cs = Inr (fst (spec_run resting cs), book') \<and>
     holds book' (snd (spec_run resting cs)) \<and> resting_ok (snd (spec_run resting cs)) \<and>
     uncrossed (snd (spec_run resting cs))"
proof (induction cs arbitrary: book resting)
  case (Cons c cs)
  show ?case
  proof (cases c)
    case (Add ord)
    then have q: "int32 (get_qty ord)" using Cons.prems(4) by (simp add: qty32_def)
    obtain book' where b: "AddOrder book ord = Inr (fst (spec_add resting ord), book')"
      "holds book' (snd (spec_add resting ord))"
      using AddOrder_refines [OF Cons.prems(1,2) q] by blast
    show ?thesis
      using Cons.IH [OF b(2) spec_add_ok [OF Cons.prems(2) q] spec_add_uncrossed [OF Cons.prems(2,3)]]
        Cons.prems(4) b(1) Add by (auto simp: split_beta)
  next
    case (Cancel i)
    show ?thesis
      using Cons.IH [OF CancelOrder_refines [OF Cons.prems(1,2)] spec_cancel_ok [OF Cons.prems(2)]
          spec_cancel_uncrossed [OF Cons.prems(3)]] Cons.prems(4) Cancel by simp
  qed
qed simp

lemma empty_book: "holds Orderbook []" "resting_ok []" "uncrossed []"
  by (auto simp: holds_def side_holds_def resting_ok_def uncrossed_def Orderbook_def)

section \<open>Quantities\<close>

abbreviation qty_of :: "order list \<Rightarrow> int" where
  "qty_of xs \<equiv> sum_list (map get_qty xs)"

abbreviation traded :: "trade list \<Rightarrow> int" where
  "traded ts \<equiv> sum_list (map Size ts)"

lemma Size_mk_trade [simp]: "Size (mk_trade incoming x n) = n"
  by (simp add: mk_trade_def Let_def)

lemma traded_fills: "traded (map (\<lambda>(x, n). mk_trade incoming x n) fs) = sum_list (map snd fs)"
  by (induction fs) auto

lemma filled_le:
  assumes "distinct (map get_id xs)" "x \<in> set xs" "\<And>y. y \<in> set xs \<Longrightarrow> 0 < get_qty y"
  shows "filled (fill q xs) (get_id x) \<le> get_qty x"
  using assms
proof (induction q xs rule: fill.induct)
  case (2 q y xs)
  show ?case
  proof (cases "x = y")
    case True
    moreover have "filled (fill (q - min (get_qty y) q) xs) (get_id y) = 0"
      using 2(2) by (intro filled_fill_outside) auto
    ultimately show ?thesis using 2(4) [of y] by auto
  next
    case False
    with 2 show ?thesis by (auto simp: less_imp_le)
  qed
qed simp

lemma qty_rest_after:
  "(\<And>x. x \<in> set S \<Longrightarrow> filled fs (get_id x) \<le> get_qty x) \<Longrightarrow>
   qty_of (rest_after fs S) = qty_of S - sum_list (map (\<lambda>x. filled fs (get_id x)) S)"
  by (induction S) (force simp: rest_after_def)+

lemma sum_filled:
  "distinct (map get_id (S :: order list)) \<Longrightarrow> get_id ` fst ` set fs \<subseteq> get_id ` set S \<Longrightarrow>
   sum_list (map (\<lambda>x. filled fs (get_id x)) S) = sum_list (map snd fs)"
proof (induction fs)
  case Nil
  then show ?case by (induction S) auto
next
  case (Cons f fs)
  obtain y n where f: "f = (y, n)" by (cases f)
  have "sum_list (map (\<lambda>x. if get_id y = get_id x then n else 0) S) =
      (if get_id y \<in> get_id ` set S then n else 0)" if "distinct (map get_id S)" for S :: "order list"
    using that by (induction S) auto
  with Cons f show ?case by (simp add: sum_list_addf)
qed

lemma qty_fill_rest:
  assumes "resting_ok S" "set xs \<subseteq> set S" "distinct (map get_id xs)"
  shows "qty_of (rest_after (fill q xs) S) + sum_list (map snd (fill q xs)) = qty_of S"
proof -
  have pos: "0 < get_qty y" if "y \<in> set S" for y using assms(1) that by (simp add: resting_ok_def)
  have "filled (fill q xs) (get_id x) \<le> get_qty x" if "x \<in> set S" for x
  proof (cases "x \<in> set xs")
    case True
    with assms pos show ?thesis by (intro filled_le) auto
  next
    case False
    have "inj_on get_id (set S)" using assms(1) by (simp add: resting_ok_def distinct_map)
    with False that assms(2) have "get_id x \<notin> get_id ` set xs" by (auto dest!: inj_onD)
    with pos [OF that] show ?thesis by (simp add: filled_fill_outside)
  qed
  then have "qty_of (rest_after (fill q xs) S) = qty_of S - sum_list (map (\<lambda>x. filled (fill q xs) (get_id x)) S)"
    by (rule qty_rest_after)
  moreover have "sum_list (map (\<lambda>x. filled (fill q xs) (get_id x)) S) = sum_list (map snd (fill q xs))"
    using assms fill_subset [of q xs] by (intro sum_filled) (auto simp: resting_ok_def)
  ultimately show ?thesis by simp
qed

lemma qty_side: "side_holds b xs resting \<Longrightarrow> qty_of xs = qty_of (filter (\<lambda>x. is_buy x = b) resting)"
proof -
  assume "side_holds b xs resting"
  then have "mset (rev xs) = mset (filter (\<lambda>x. is_buy x = b) resting)"
    unfolding side_holds_def by (simp only: mset_sort)
  then have "mset (map get_qty xs) = mset (map get_qty (filter (\<lambda>x. is_buy x = b) resting))"
    by (simp only: mset_map mset_rev)
  then show ?thesis by (metis sum_mset_sum_list)
qed

text \<open>What an accepted order does to the open quantities of the two sides.\<close>

lemma filter_rest_after:
  "filter (\<lambda>x. is_buy x = b) (rest_after fs resting) = rest_after fs (filter (\<lambda>x. is_buy x = b) resting)"
  by (simp add: rest_after_def filter_map o_def conj_commute)

definition trade_within :: "order \<Rightarrow> trade \<Rightarrow> bool" where
  "trade_within incoming t \<longleftrightarrow> 0 < Size t \<and> AggressorOrderId t = get_id incoming \<and>
     (if is_buy incoming then Level t \<le> get_level incoming else Level t = get_level incoming)"

lemma trade_within_fills:
  assumes "\<And>y. y \<in> set xs \<Longrightarrow> 0 < get_qty y" "\<And>x. x \<in> set xs \<Longrightarrow> crosses incoming x"
    and "(x, n) \<in> set (fill q xs)"
  shows "trade_within incoming (mk_trade incoming x n)"
proof -
  have "0 < n" using fill_pos [OF assms(3,1)] by simp
  moreover have "crosses incoming x" using assms(2,3) fill_subset [of q xs] by force
  ultimately show ?thesis
    by (simp add: trade_within_def mk_trade_def Let_def crosses_def can_match_def split: if_splits)
qed

text \<open>The same for the specification, whose sides are filters of the resting orders.\<close>

lemma spec_add_quantities:
  assumes ok: "resting_ok resting" and nd: "get_id incoming \<notin> get_id ` set resting" and pos: "0 < get_qty incoming"
    and add: "spec_add resting incoming = (ts, resting')"
  shows "qty_of (filter (\<lambda>x. is_buy x = (\<not> is_buy incoming)) resting') + traded ts =
      qty_of (filter (\<lambda>x. is_buy x = (\<not> is_buy incoming)) resting)"
    and "qty_of (filter (\<lambda>x. is_buy x = is_buy incoming) resting') + traded ts =
      qty_of (filter (\<lambda>x. is_buy x = is_buy incoming) resting) + get_qty incoming"
    and "\<forall>t \<in> set ts. trade_within incoming t"
proof -
  define xs where "xs = filter (crosses incoming) (priority incoming resting)"
  define fs where "fs = fill (get_qty incoming) xs"
  define remaining where "remaining = get_qty incoming - sum_list (map snd fs)"
  define A where "A = filter (\<lambda>x. is_buy x = (\<not> is_buy incoming)) resting"
  define B where "B = filter (\<lambda>x. is_buy x = is_buy incoming) resting"
  have ts: "ts = map (\<lambda>(x, n). mk_trade incoming x n) fs"
    and rest: "resting' = rest_after fs resting @ (if remaining > 0 then [set_qty incoming remaining] else [])"
    using nd add unfolding spec_add_def xs_def [symmetric] fs_def [symmetric] Let_def remaining_def by simp_all
  have okA: "resting_ok A" and okB: "resting_ok B"
    using ok by (auto simp: A_def B_def resting_ok_def distinct_map_filter)
  have xsA: "set xs \<subseteq> set A" "distinct (map get_id xs)"
    using resting_ok_priority [OF ok, of incoming]
    by (auto simp: xs_def A_def set_priority resting_ok_def distinct_map_filter)
  have xpos: "0 < get_qty y" if "y \<in> set xs" for y using okA xsA(1) that by (auto simp: resting_ok_def)
  have "0 \<le> remaining" using sum_fill_le [of xs "get_qty incoming", OF xpos] pos by (simp add: remaining_def fs_def)
  have "get_id ` set B \<inter> get_id ` set xs = {}"
    using ok by (auto simp: xs_def set_priority B_def resting_ok_def distinct_map dest!: inj_onD)
  then have B: "rest_after fs B = B"
    unfolding fs_def by (intro rest_after_outside) (use okB in \<open>simp_all add: resting_ok_def\<close>)
  have traded: "traded ts = sum_list (map snd fs)" by (simp only: ts traded_fills)
  have "qty_of (rest_after fs A) + sum_list (map snd fs) = qty_of A"
    unfolding fs_def by (rule qty_fill_rest [OF okA xsA])
  then show "qty_of (filter (\<lambda>x. is_buy x = (\<not> is_buy incoming)) resting') + traded ts = qty_of (filter (\<lambda>x. is_buy x = (\<not> is_buy incoming)) resting)"
    unfolding traded rest by (simp add: filter_rest_after A_def set_qty_def)
  show "qty_of (filter (\<lambda>x. is_buy x = is_buy incoming) resting') + traded ts = qty_of (filter (\<lambda>x. is_buy x = is_buy incoming) resting) + get_qty incoming"
    using B \<open>0 \<le> remaining\<close> unfolding traded rest by (simp add: filter_rest_after B_def remaining_def set_qty_def)
  have "trade_within incoming (mk_trade incoming x n)" if "(x, n) \<in> set fs" for x n
    by (rule trade_within_fills [OF xpos _ that [unfolded fs_def]]) (simp_all add: xs_def)
  then show "\<forall>t \<in> set ts. trade_within incoming t" by (auto simp: ts)
qed

lemma AddOrder_quantities:
  assumes hb: "holds book resting" and ok: "resting_ok resting" and q: "int32 (get_qty incoming)"
    and fresh: "\<not> is_dupe book incoming" and pos: "0 < get_qty incoming"
    and add: "AddOrder book incoming = Inr (ts, book')"
    and opp: "opp = (if is_buy incoming then asks else bids)"
    and same: "same = (if is_buy incoming then bids else asks)"
  shows "qty_of (opp book') + traded ts = qty_of (opp book) \<and>
     qty_of (same book') + traded ts = qty_of (same book) + get_qty incoming \<and>
     (\<forall>t \<in> set ts. trade_within incoming t)"
proof -
  obtain resting' where spec: "spec_add resting incoming = (ts, resting')" and hb': "holds book' resting'"
    using AddOrder_refines [OF hb ok q] add by (cases "spec_add resting incoming") auto
  have nd: "get_id incoming \<notin> get_id ` set resting" using fresh by (simp add: is_dupe_holds [OF hb])
  have side: "qty_of (opp b) = qty_of (filter (\<lambda>x. is_buy x = (\<not> is_buy incoming)) r)"
    "qty_of (same b) = qty_of (filter (\<lambda>x. is_buy x = is_buy incoming) r)" if "holds b r" for b r
    using that by (auto simp: holds_def opp same dest!: qty_side)
  from spec_add_quantities [OF ok nd pos spec] show ?thesis by (simp add: side [OF hb] side [OF hb'])
qed

section \<open>Properties\<close>

text \<open>
  C13. Price-time priority. Every sequence of \<^verbatim>\<open>AddOrder\<close> and \<^verbatim>\<open>CancelOrder\<close> calls on a new
  book, with quantities in the range of \<^verbatim>\<open>int\<close>, runs without signed overflow and sends
  exactly the trades of the specification that matches by price first and arrival second;
  the sides of the final book are the stable sorts of the orders still resting.\<close>

theorem book_refines_price_time:
  assumes "list_all qty32 cs"
  shows "\<exists>book. book_run Orderbook cs = Inr (fst (spec_run [] cs), book) \<and>
     holds book (snd (spec_run [] cs))"
  using book_run_refines [OF empty_book assms] by blast

theorem book_refines_price_time_witness:
  "\<exists>book. book_run Orderbook
       [Add (Order 1 10 False 5), Add (Order 2 9 False 3), Add (Order 3 10 False 4),
        Add (Order 4 10 True 9), Cancel 3] =
     Inr ([[], [], [],
        [\<lparr>OrderIdA = 4, OrderIdB = 2, AggressorOrderId = 4, AggressorIsBuy = True, Level = 9, Size = 3\<rparr>,
         \<lparr>OrderIdA = 4, OrderIdB = 1, AggressorOrderId = 4, AggressorIsBuy = True, Level = 10, Size = 5\<rparr>,
         \<lparr>OrderIdA = 4, OrderIdB = 3, AggressorOrderId = 4, AggressorIsBuy = True, Level = 10, Size = 1\<rparr>]],
        book)"
proof -
  let ?cs = "[Add (Order 1 10 False 5), Add (Order 2 9 False 3), Add (Order 3 10 False 4),
        Add (Order 4 10 True 9), Cancel 3]"
  have "list_all qty32 ?cs" by (simp add: qty32_def Order_def int32_def)
  from book_refines_price_time [OF this] obtain book where
    "book_run Orderbook ?cs = Inr (fst (spec_run [] ?cs), book)" by blast
  then show ?thesis
    by (simp add: spec_add_def spec_cancel_def priority_def price_key_def Order_def crosses_def
        can_match_def rest_after_def reduce_def filled_def mk_trade_def set_qty_def)
qed

text \<open>
  C14. Book invariant. After every sequence of calls on a new book, bids are ascending and
  asks descending by level, order ids are unique over both sides, every resting quantity
  is positive and in range, and the best bid stays below the best ask.\<close>

theorem book_invariant:
  assumes "list_all qty32 cs" and "book_run Orderbook cs = Inr (tss, book)"
  shows "book_ok book"
  using book_run_refines [OF empty_book assms(1)] assms(2) by (auto intro: holds_book_ok)

theorem book_invariant_witness:
  "\<exists>tss book. book_run Orderbook [Add (Order 1 10 False 5), Add (Order 2 12 True 7)] = Inr (tss, book) \<and>
     book_ok book \<and> bids book = [Order 2 12 True 2] \<and> asks book = []"
proof -
  let ?cs = "[Add (Order 1 10 False 5), Add (Order 2 12 True 7)]"
  let ?book = "\<lparr>bids = [Order 2 12 True 2], asks = []\<rparr>"
  have run: "book_run Orderbook ?cs =
      Inr ([[], [\<lparr>OrderIdA = 2, OrderIdB = 1, AggressorOrderId = 2, AggressorIsBuy = True, Level = 10, Size = 5\<rparr>]],
           ?book)"
    by (simp add: AddOrder_def Orderbook_def is_dupe_def match_loop.simps insert_order_def lower_bound_def
        lower_bound_loop.simps vector_insert_def Order_def crosses_def can_match_def sub32_def int32_def
        mk_trade_def set_qty_def)
  have "book_ok ?book"
    using book_invariant [OF _ run] by (simp add: qty32_def Order_def int32_def)
  with run show ?thesis by (intro exI conjI) auto
qed

text \<open>
  C15. Conservation and limits. An accepted order of positive quantity takes from the
  other side exactly what it trades and leaves the rest of its quantity on its own side;
  every trade has a positive size and names the incoming order as the aggressor, a buyer
  never pays above its limit and a seller is paid its own limit.\<close>

theorem add_order_conserves:
  assumes "book_ok book" and "int32 (get_qty incoming)" and "0 < get_qty incoming"
    and "\<not> is_dupe book incoming" and "AddOrder book incoming = Inr (ts, book')"
    and "opp = (if is_buy incoming then asks else bids)"
    and "same = (if is_buy incoming then bids else asks)"
  shows "qty_of (opp book') + traded ts = qty_of (opp book) \<and>
     qty_of (same book') + traded ts = qty_of (same book) + get_qty incoming \<and>
     (\<forall>t \<in> set ts. trade_within incoming t)"
  using AddOrder_quantities [OF book_ok_holds(1,2) [OF assms(1)]] assms by blast

theorem add_order_conserves_witness:
  "\<exists>ts book'. AddOrder \<lparr>bids = [Order 1 10 True 5], asks = []\<rparr> (Order 2 9 False 7) = Inr (ts, book') \<and>
     qty_of (bids book') + traded ts = 5 \<and> qty_of (asks book') + traded ts = 7"
proof -
  let ?book = "\<lparr>bids = [Order 1 10 True 5], asks = []\<rparr>"
  let ?inc = "Order 2 9 False 7"
  have ok: "book_ok ?book" by (simp add: book_ok_def Order_def int32_def)
  obtain book' ts where add: "AddOrder ?book ?inc = Inr (ts, book')"
    using AddOrder_refines [OF book_ok_holds(1,2) [OF ok], of ?inc] by (auto simp: Order_def int32_def)
  have "qty_of (bids book') + traded ts = qty_of (bids ?book) \<and>
      qty_of (asks book') + traded ts = qty_of (asks ?book) + get_qty ?inc"
    using add_order_conserves [OF ok _ _ _ add, of bids asks]
    by (auto simp: Order_def int32_def is_dupe_def)
  with add show ?thesis by (auto simp: Order_def)
qed

text \<open>
  Unguarded insertion. \<^verbatim>\<open>insert_order\<close> is public and checks the id only: it puts an
  order of negative quantity into the book, and matching the largest \<^verbatim>\<open>int\<close> quantity
  against it overflows the signed subtraction of \<^verbatim>\<open>AddOrder\<close>.\<close>

theorem insert_order_overflow:
  "insert_order Orderbook (Order 1 5 False (- 1)) = \<lparr>bids = [], asks = [Order 1 5 False (- 1)]\<rparr> \<and>
   AddOrder (insert_order Orderbook (Order 1 5 False (- 1))) (Order 2 5 True (2 ^ 31 - 1)) =
     Inl SignedOverflow"
  by (simp add: AddOrder_def Orderbook_def is_dupe_def match_loop.simps insert_order_def lower_bound_def
        lower_bound_loop.simps vector_insert_def Order_def crosses_def can_match_def sub32_def int32_def)

end
