(* ===== verification/Decimal.thy ===== *)
theory Decimal
  imports Fiah_Prelude
begin

text \<open>
  Decimal numbers in text, as streams and \<^verbatim>\<open>std::format\<close> print them and \<^verbatim>\<open>std::stoi\<close> and \<^verbatim>\<open>std::stod\<close>
  read them: digits, their value, and that printing loses nothing.
\<close>

section \<open>Digits\<close>

definition is_digit :: "char \<Rightarrow> bool" where
  "is_digit c \<longleftrightarrow> 48 \<le> (of_char c :: nat) \<and> (of_char c :: nat) \<le> 57"

definition digits_value :: "string \<Rightarrow> int" where
  "digits_value ds = foldl (\<lambda>n c. 10 * n + (of_char c - 48)) 0 ds"

text \<open>A signed number.\<close>

definition show_int :: "int \<Rightarrow> string" where
  "show_int n = (if n < 0 then CHR ''-'' # show_nat (nat (- n)) else show_nat (nat n))"

section \<open>Printing\<close>

lemma digit_char_nat: "n < 10 \<Longrightarrow> of_char (char_of (48 + n :: nat)) = (48 + n)"
  by (simp add: take_bit_eq_mod)

lemma digit_char: "n < 10 \<Longrightarrow> of_char (char_of (48 + n :: nat)) = (48 + int n)"
  using digit_char_nat [of n] by (metis of_nat_add of_nat_numeral of_nat_of_char)

lemma show_nat_digits: "list_all is_digit (show_nat n) \<and> show_nat n \<noteq> []"
proof (induction n rule: show_nat.induct)
  case (1 n)
  have "is_digit (char_of (48 + n mod 10))" by (simp add: is_digit_def digit_char_nat)
  moreover have "n < 10 \<Longrightarrow> is_digit (char_of (48 + n))" by (simp add: is_digit_def digit_char_nat)
  ultimately show ?case using 1 by (subst (1 2) show_nat.simps) auto
qed

lemma digits_value_snoc: "digits_value (ds @ [c]) = 10 * digits_value ds + (of_char c - 48)"
  by (simp add: digits_value_def)

lemma digits_value_show: "digits_value (show_nat n) = int n"
proof (induction n rule: show_nat.induct)
  case (1 n)
  show ?case
  proof (cases "n < 10")
    case True
    have "digits_value [char_of (48 + n)] = int n"
      using digit_char [OF True] by (simp add: digits_value_def)
    with True show ?thesis by (simp add: show_nat.simps)
  next
    case False
    have "digits_value (show_nat n) = 10 * int (n div 10) + int (n mod 10)"
      using 1 [OF False] False digit_char [of "n mod 10"]
      by (subst show_nat.simps) (simp add: digits_value_snoc)
    also have "\<dots> = int n" by presburger
    finally show ?thesis .
  qed
qed

lemma show_nat_inj [simp]: "show_nat m = show_nat n \<longleftrightarrow> m = n"
  by (metis digits_value_show of_nat_eq_iff)

lemma show_nat_no_minus: "show_nat n \<noteq> CHR ''-'' # s"
  using show_nat_digits [of n] by (cases "show_nat n") (auto simp: is_digit_def)

lemma show_int_inj [simp]: "show_int m = show_int n \<longleftrightarrow> m = n"
  using show_nat_no_minus [of "nat m"] show_nat_no_minus [of "nat n"]
  by (cases "m < 0"; cases "n < 0") (auto simp: show_int_def dest: sym)

lemma show_nat_plain: "\<not> is_digit c \<Longrightarrow> c \<notin> set (show_nat n)"
  using show_nat_digits [of n] by (auto simp: list_all_iff)

lemma show_int_plain: "\<not> is_digit c \<Longrightarrow> c \<noteq> CHR ''-'' \<Longrightarrow> c \<notin> set (show_int n)"
  using show_nat_plain [of c] by (auto simp: show_int_def)

text \<open>A text is cut at the first place where a character occurs.\<close>

lemma cut_unique: "c \<notin> set xs \<Longrightarrow> c \<notin> set ys \<Longrightarrow> xs @ c # zs = ys @ c # zs' \<longleftrightarrow> xs = ys \<and> zs = zs'"
proof (induction xs arbitrary: ys)
  case Nil
  then show ?case by (cases ys) auto
next
  case (Cons x xs)
  then show ?case by (cases ys) auto
qed

end
