(* ===== verification/Order_Print.thy ===== *)
theory Order_Print
  imports Order_Book Decimal
begin

text \<open>
  The stream operator of \<^verbatim>\<open>Order\<close> in \<^verbatim>\<open>include/fiah/structs/Orderbook.hh\<close>. A stream prints a \<^verbatim>\<open>bool\<close> as
  0 or 1.
\<close>

definition show_bool :: "bool \<Rightarrow> string" where
  "show_bool b = (if b then ''1'' else ''0'')"

definition show_order :: "order \<Rightarrow> string" where
  "show_order ord =
     ''id: '' @ show_nat (unat (get_id ord)) @ '', '' @ ''level: '' @ show_int (get_level ord) @ '', '' @
     ''isbuy: '' @ show_bool (is_buy ord) @ '', '' @ ''qty: '' @ show_int (get_qty ord)"

lemma comma_plain [simp]: "CHR '','' \<notin> set (show_nat n)" "CHR '','' \<notin> set (show_int i)" "CHR '','' \<notin> set (show_bool b)"
  using show_nat_plain [of "CHR '',''"] show_int_plain [of "CHR '',''"] by (auto simp: is_digit_def show_bool_def)

lemma show_bool_inj [simp]: "show_bool a = show_bool b \<longleftrightarrow> a = b"
  by (auto simp: show_bool_def)

text \<open>
  What is printed identifies the order. Two orders made by the constructor print the same text
  exactly when they are the same order.\<close>

theorem show_order_exact:
  "show_order (Order a l b q) = show_order (Order a' l' b' q') \<longleftrightarrow> Order a l b q = Order a' l' b' q'"
  by (auto simp: show_order_def Order_def cut_unique dest: unsigned_word_eqI)

end
