(* ===== verification/Mem_Routines.thy ===== *)
theory Mem_Routines
  imports Fiah_Prelude
begin

text \<open>
  The byte routines of \<^verbatim>\<open>include/fiah/memory\<close>: \<^verbatim>\<open>Memcpy.cc\<close> with its unrolled loop,
  \<^verbatim>\<open>Memmove.cc\<close> with its two directions and \<^verbatim>\<open>Strcpy.cc\<close>. Memory is a partial map from
  addresses to bytes; an access outside it is undefined behaviour. Address 0 is the null
  pointer.
\<close>

section \<open>Byte memory\<close>

type_synonym byte_mem = "nat \<rightharpoonup> u8_t"

definition load :: "byte_mem \<Rightarrow> nat \<Rightarrow> u8_t res" where
  "load m a = (case m a of None \<Rightarrow> Inl OutOfBounds | Some b \<Rightarrow> Inr b)"

definition store :: "byte_mem \<Rightarrow> nat \<Rightarrow> u8_t \<Rightarrow> byte_mem res" where
  "store m a b = (case m a of None \<Rightarrow> Inl OutOfBounds | Some _ \<Rightarrow> Inr (m(a \<mapsto> b)))"

definition copy_byte :: "byte_mem \<Rightarrow> nat \<Rightarrow> nat \<Rightarrow> byte_mem res" where
  "copy_byte m to from = bind_res (load m from) (store m to)"

section \<open>Memcpy\<close>

fun Memcpy_tail :: "byte_mem \<Rightarrow> nat \<Rightarrow> nat \<Rightarrow> nat \<Rightarrow> byte_mem res" where
  "Memcpy_tail m to from 0 = Inr m"
| "Memcpy_tail m to from (Suc n) =
     bind_res (copy_byte m to from) (\<lambda>m. Memcpy_tail m (to + 1) (from + 1) n)"

fun Memcpy_loop :: "byte_mem \<Rightarrow> nat \<Rightarrow> nat \<Rightarrow> nat \<Rightarrow> byte_mem res" where
  "Memcpy_loop m to from n =
     (if n \<ge> 8 then
        bind_res (copy_byte m (to + 0) (from + 0)) (\<lambda>m.
        bind_res (copy_byte m (to + 1) (from + 1)) (\<lambda>m.
        bind_res (copy_byte m (to + 2) (from + 2)) (\<lambda>m.
        bind_res (copy_byte m (to + 3) (from + 3)) (\<lambda>m.
        bind_res (copy_byte m (to + 4) (from + 4)) (\<lambda>m.
        bind_res (copy_byte m (to + 5) (from + 5)) (\<lambda>m.
        bind_res (copy_byte m (to + 6) (from + 6)) (\<lambda>m.
        bind_res (copy_byte m (to + 7) (from + 7)) (\<lambda>m.
          Memcpy_loop m (to + 8) (from + 8) (n - 8)))))))))
      else Memcpy_tail m to from n)"

declare Memcpy_loop.simps [simp del]

definition Memcpy :: "byte_mem \<Rightarrow> nat \<Rightarrow> nat \<Rightarrow> nat \<Rightarrow> (nat \<times> byte_mem) res" where
  "Memcpy m dst src n = bind_res (Memcpy_loop m dst src n) (\<lambda>m. Inr (dst, m))"

section \<open>Memmove\<close>

fun Memmove_up :: "byte_mem \<Rightarrow> nat \<Rightarrow> nat \<Rightarrow> nat \<Rightarrow> byte_mem res" where
  "Memmove_up m to from 0 = Inr m"
| "Memmove_up m to from (Suc n) =
     bind_res (copy_byte m to from) (\<lambda>m. Memmove_up m (to + 1) (from + 1) n)"

text \<open>The downward loop decrements both pointers before each copy.\<close>

fun Memmove_down :: "byte_mem \<Rightarrow> nat \<Rightarrow> nat \<Rightarrow> nat \<Rightarrow> byte_mem res" where
  "Memmove_down m to from 0 = Inr m"
| "Memmove_down m to from (Suc n) =
     bind_res (copy_byte m (to - 1) (from - 1)) (\<lambda>m. Memmove_down m (to - 1) (from - 1) n)"

definition Memmove :: "byte_mem \<Rightarrow> nat \<Rightarrow> nat \<Rightarrow> nat \<Rightarrow> (nat \<times> byte_mem) res" where
  "Memmove m dst src n =
     (if src = 0 \<or> dst = 0 \<or> n = 0 then Inr (dst, m)
      else if dst < src then bind_res (Memmove_up m dst src n) (\<lambda>m. Inr (dst, m))
      else if src < dst then bind_res (Memmove_down m (dst + n) (src + n) n) (\<lambda>m. Inr (dst, m))
      else Inr (dst, m))"

section \<open>Strcpy\<close>

text \<open>
  The loop runs until it has copied a zero byte; \<open>None\<close> stands for never returning.
\<close>

partial_function (option) Strcpy_loop :: "byte_mem \<Rightarrow> nat \<Rightarrow> nat \<Rightarrow> byte_mem res option" where
  "Strcpy_loop m dst src =
     (case load m src of
        Inl e \<Rightarrow> Some (Inl e)
      | Inr c \<Rightarrow>
          (case store m dst c of
             Inl e \<Rightarrow> Some (Inl e)
           | Inr m' \<Rightarrow> if c = 0 then Some (Inr m') else Strcpy_loop m' (dst + 1) (src + 1)))"

definition Strcpy :: "byte_mem \<Rightarrow> nat \<Rightarrow> nat \<Rightarrow> (nat \<times> byte_mem) res option" where
  "Strcpy m dst src =
     (let result = dst
      in map_option (\<lambda>r. bind_res r (\<lambda>m. Inr (result, m))) (Strcpy_loop m dst src))"

section \<open>What a copy means\<close>

definition mapped :: "byte_mem \<Rightarrow> nat \<Rightarrow> nat \<Rightarrow> bool" where
  "mapped m a n \<longleftrightarrow> (\<forall>i<n. m (a + i) \<noteq> None)"

text \<open>The memory with the \<open>n\<close> bytes at \<open>dst\<close> replaced by those at \<open>src\<close>, all read beforehand.\<close>

definition copied :: "byte_mem \<Rightarrow> nat \<Rightarrow> nat \<Rightarrow> nat \<Rightarrow> byte_mem" where
  "copied m dst src n = (\<lambda>a. if dst \<le> a \<and> a < dst + n then m (src + (a - dst)) else m a)"

lemma copied_0 [simp]: "copied m dst src 0 = m"
  by (rule ext) (auto simp: copied_def)

lemma copied_same [simp]: "copied m a a n = m"
  by (auto simp: copied_def)

lemma copy_byte_mapped:
  "m from = Some b \<Longrightarrow> m to \<noteq> None \<Longrightarrow> copy_byte m to from = Inr (m(to \<mapsto> b))"
  by (auto simp: copy_byte_def load_def store_def)

lemma mapped_upd: "mapped m a n \<Longrightarrow> mapped (m(x \<mapsto> b)) a n"
  by (simp add: mapped_def)

lemma mapped_Suc: "mapped m a (Suc n) \<longleftrightarrow> m a \<noteq> None \<and> mapped m (a + 1) n"
  by (auto simp: mapped_def less_Suc_eq_0_disj)

lemma mapped_Suc_end: "mapped m a (Suc n) \<longleftrightarrow> mapped m a n \<and> m (a + n) \<noteq> None"
  by (auto simp: mapped_def less_Suc_eq)

text \<open>Copying upwards is right unless the destination starts inside the source.\<close>

lemma copied_Suc_up:
  assumes "to \<le> from \<or> from + Suc n \<le> to" "m from = Some b"
  shows "copied (m(to \<mapsto> b)) (to + 1) (from + 1) n = copied m to from (Suc n)"
proof
  fix a show "copied (m(to \<mapsto> b)) (to + 1) (from + 1) n a = copied m to from (Suc n) a"
    using assms by (cases "a = to") (auto simp: copied_def Suc_diff_Suc fun_upd_def)
qed

lemma Memcpy_tail_copied:
  "mapped m to n \<Longrightarrow> mapped m from n \<Longrightarrow> to \<le> from \<or> from + n \<le> to \<Longrightarrow>
   Memcpy_tail m to from n = Inr (copied m to from n)"
proof (induction n arbitrary: m to "from")
  case (Suc n)
  obtain b where b: "m from = Some b" using Suc.prems(2) by (auto simp: mapped_Suc)
  have "Memcpy_tail (m(to \<mapsto> b)) (to + 1) (from + 1) n = Inr (copied (m(to \<mapsto> b)) (to + 1) (from + 1) n)"
    using Suc.prems by (intro Suc.IH mapped_upd) (auto simp: mapped_Suc)
  with Suc.prems b show ?case
    using copied_Suc_up [of to "from" n m b, OF Suc.prems(3) b] by (simp add: copy_byte_mapped mapped_Suc)
qed simp

lemma Memmove_up_tail: "Memmove_up m to from n = Memcpy_tail m to from n"
  by (induction n arbitrary: m to "from") simp_all

text \<open>Unrolling by eight changes nothing.\<close>

lemma Memcpy_tail_8:
  "Memcpy_tail m to from (8 + k) =
     bind_res (copy_byte m (to + 0) (from + 0)) (\<lambda>m.
     bind_res (copy_byte m (to + 1) (from + 1)) (\<lambda>m.
     bind_res (copy_byte m (to + 2) (from + 2)) (\<lambda>m.
     bind_res (copy_byte m (to + 3) (from + 3)) (\<lambda>m.
     bind_res (copy_byte m (to + 4) (from + 4)) (\<lambda>m.
     bind_res (copy_byte m (to + 5) (from + 5)) (\<lambda>m.
     bind_res (copy_byte m (to + 6) (from + 6)) (\<lambda>m.
     bind_res (copy_byte m (to + 7) (from + 7)) (\<lambda>m.
       Memcpy_tail m (to + 8) (from + 8) k))))))))"
  by (simp add: eval_nat_numeral)

lemma Memcpy_loop_tail: "Memcpy_loop m to from n = Memcpy_tail m to from n"
proof (induction n arbitrary: m to "from" rule: less_induct)
  case (less n)
  show ?case
  proof (cases "n \<ge> 8")
    case True
    then obtain k where k: "n = 8 + k" by (metis le_Suc_ex)
    with less [of k] show ?thesis
      by (subst Memcpy_loop.simps) (simp only: Memcpy_tail_8, simp)
  qed (simp add: Memcpy_loop.simps)
qed

text \<open>Copying downwards is right unless the source starts inside the destination.\<close>

lemma copied_Suc_down:
  assumes "from \<le> to" "m (from + n) = Some b"
  shows "copied (m(to + n \<mapsto> b)) to from n = copied m to from (Suc n)"
proof
  fix a show "copied (m(to + n \<mapsto> b)) to from n a = copied m to from (Suc n) a"
    using assms by (cases "a = to + n") (auto simp: copied_def fun_upd_def)
qed

lemma Memmove_down_copied:
  "mapped m to n \<Longrightarrow> mapped m from n \<Longrightarrow> from \<le> to \<Longrightarrow>
   Memmove_down m (to + n) (from + n) n = Inr (copied m to from n)"
proof (induction n arbitrary: m)
  case (Suc n)
  obtain b where b: "m (from + n) = Some b" using Suc.prems(2) by (auto simp: mapped_Suc_end)
  have "Memmove_down (m(to + n \<mapsto> b)) (to + n) (from + n) n = Inr (copied (m(to + n \<mapsto> b)) to from n)"
    using Suc.prems by (intro Suc.IH mapped_upd) (auto simp: mapped_Suc_end)
  with Suc.prems b show ?case
    by (simp add: copy_byte_mapped mapped_Suc_end copied_Suc_down)
qed simp

section \<open>Properties\<close>

text \<open>
  C16. Memcpy. On mapped ranges that do not overlap, or overlap with the destination not
  above the source, \<^verbatim>\<open>Memcpy\<close> replaces the destination bytes by the source bytes, changes
  nothing else and returns the destination, for every length.\<close>

theorem memcpy_correct:
  assumes "mapped m dst n" and "mapped m src n" and "dst \<le> src \<or> src + n \<le> dst"
  shows "Memcpy m dst src n = Inr (dst, copied m dst src n)"
  by (simp add: Memcpy_def Memcpy_loop_tail Memcpy_tail_copied [OF assms])

theorem memcpy_correct_witness:
  "Memcpy (\<lambda>a. if a < 40 then Some (of_nat a) else None) 4 20 11 =
   Inr (4, copied (\<lambda>a. if a < 40 then Some (of_nat a) else None) 4 20 11)"
  by (rule memcpy_correct) (auto simp: mapped_def)

text \<open>
  C17. Memmove. On mapped ranges, however they overlap, \<^verbatim>\<open>Memmove\<close> leaves the destination
  with the bytes the source had before the call, changes nothing else and returns the
  destination.\<close>

theorem memmove_correct:
  assumes "mapped m dst n" and "mapped m src n" and "dst \<noteq> 0" and "src \<noteq> 0"
  shows "Memmove m dst src n = Inr (dst, copied m dst src n)"
proof -
  consider "dst < src" | "src < dst" | "src = dst" by linarith
  then show ?thesis
  proof cases
    case 1
    then show ?thesis
      using assms Memcpy_tail_copied [OF assms(1,2)] by (simp add: Memmove_def Memmove_up_tail)
  next
    case 2
    then show ?thesis
      using assms Memmove_down_copied [OF assms(1,2)] by (simp add: Memmove_def)
  qed (simp add: Memmove_def)
qed

theorem memmove_correct_witness:
  "Memmove (\<lambda>a. if 0 < a \<and> a < 30 then Some (of_nat a) else None) 7 5 9 =
   Inr (7, copied (\<lambda>a. if 0 < a \<and> a < 30 then Some (of_nat a) else None) 7 5 9)"
  by (rule memmove_correct) (auto simp: mapped_def)

text \<open>
  Strcpy. When a zero-terminated string of \<open>n\<close> non-zero bytes lies at the source, the
  destination has room for it and does not start inside it, \<^verbatim>\<open>Strcpy\<close> returns, with the
  \<open>n + 1\<close> bytes copied, nothing else changed and the destination as its result.\<close>

theorem strcpy_correct:
  assumes "\<forall>i<n. m (src + i) \<noteq> None \<and> m (src + i) \<noteq> Some 0" and "m (src + n) = Some 0"
    and "mapped m dst (n + 1)" and "dst \<le> src \<or> src + n < dst"
  shows "Strcpy m dst src = Some (Inr (dst, copied m dst src (n + 1)))"
proof -
  have "Strcpy_loop m dst src = Some (Inr (copied m dst src (n + 1)))"
    using assms
  proof (induction n arbitrary: m dst src)
    case 0
    then have "copied m dst src (0 + 1) = m(dst \<mapsto> 0)" by (intro ext) (auto simp: copied_def)
    with 0 show ?case
      by (auto simp: Strcpy_loop.simps load_def store_def mapped_def fun_upd_def simp del: One_nat_def)
  next
    case (Suc n)
    obtain b where b: "m src = Some b" "b \<noteq> 0" using Suc.prems(1) by force
    have dst: "m dst \<noteq> None" and rest: "mapped m (dst + 1) (n + 1)"
      using Suc.prems(3) by (auto simp: mapped_Suc)
    have "(m(dst \<mapsto> b)) (src + 1 + i) \<noteq> None \<and> (m(dst \<mapsto> b)) (src + 1 + i) \<noteq> Some 0" if "i < n" for i
      using Suc.prems(1) that b by (auto dest: spec [of _ "Suc i"])
    moreover have "(m(dst \<mapsto> b)) (src + 1 + n) = Some 0"
      using Suc.prems(2,4) by auto
    ultimately have "Strcpy_loop (m(dst \<mapsto> b)) (dst + 1) (src + 1) =
        Some (Inr (copied (m(dst \<mapsto> b)) (dst + 1) (src + 1) (n + 1)))"
      using Suc.prems(4) rest by (intro Suc.IH mapped_upd) auto
    also have "copied (m(dst \<mapsto> b)) (dst + 1) (src + 1) (n + 1) = copied m dst src (Suc n + 1)"
      using Suc.prems(4) b by (subst copied_Suc_up) auto
    finally show ?case using b dst
      by (subst Strcpy_loop.simps) (auto simp: load_def store_def fun_upd_def)
  qed
  then show ?thesis by (simp add: Strcpy_def)
qed

theorem strcpy_correct_witness:
  "Strcpy [10 \<mapsto> 72, 11 \<mapsto> 105, 12 \<mapsto> 0, 20 \<mapsto> 1, 21 \<mapsto> 2, 22 \<mapsto> 3, 23 \<mapsto> 4] 20 10 =
   Some (Inr (20, copied [10 \<mapsto> 72, 11 \<mapsto> 105, 12 \<mapsto> 0, 20 \<mapsto> 1, 21 \<mapsto> 2, 22 \<mapsto> 3, 23 \<mapsto> 4] 20 10 3))"
proof -
  let ?m = "[10 \<mapsto> 72, 11 \<mapsto> 105, 12 \<mapsto> 0, 20 \<mapsto> 1, 21 \<mapsto> 2, 22 \<mapsto> 3, 23 \<mapsto> 4] :: byte_mem"
  have below: "(\<forall>i<2. P i) \<longleftrightarrow> P 0 \<and> P 1" "(\<forall>i<3. P i) \<longleftrightarrow> P 0 \<and> P 1 \<and> P 2" for P :: "nat \<Rightarrow> bool"
    by (auto simp: less_Suc_eq numeral_2_eq_2 numeral_3_eq_3)
  have "Strcpy ?m 20 10 = Some (Inr (20, copied ?m 20 10 (2 + 1)))"
    by (rule strcpy_correct) (simp_all add: mapped_def below)
  then show ?thesis by simp
qed

end
