(* ===== verification/Bump_Memory.thy ===== *)
theory Bump_Memory
  imports Fiah_Prelude
begin

text \<open>
  The bump allocation of \<^verbatim>\<open>include/fiah/memory\<close>: the arena of \<^verbatim>\<open>BumpArena.hh\<close> over 64-bit
  addresses, with \<^verbatim>\<open>std::align\<close> as the standard library computes it, and the typed
  allocator of \<^verbatim>\<open>BumpAllocator.hh\<close> on top of an arena it shares with others. The contract
  of both, fresh blocks above a moving frontier, is a locale.
\<close>

section \<open>BumpArena\<close>

record arena =
  m_begin :: u64_t
  m_curr :: u64_t
  m_end :: u64_t

definition BumpArena :: "u64_t \<Rightarrow> sz_t \<Rightarrow> arena" where
  "BumpArena buff sz = \<lparr>m_begin = buff, m_curr = buff, m_end = buff + sz\<rparr>"

definition arena_used :: "arena \<Rightarrow> sz_t" where
  "arena_used a = m_curr a - m_begin a"

definition arena_remaining :: "arena \<Rightarrow> sz_t" where
  "arena_remaining a = m_end a - m_curr a"

definition arena_full :: "arena \<Rightarrow> bool" where
  "arena_full a \<longleftrightarrow> m_curr a = m_end a"

definition arena_reset :: "arena \<Rightarrow> arena" where
  "arena_reset a = a\<lparr>m_curr := m_begin a\<rparr>"

text \<open>\<^verbatim>\<open>std::align\<close>: the next aligned address in the space, or null.\<close>

definition std_align :: "sz_t \<Rightarrow> sz_t \<Rightarrow> u64_t \<Rightarrow> sz_t \<Rightarrow> u64_t" where
  "std_align alignment sz ptr space =
     (if space < sz then 0
      else let aligned = (ptr - 1 + alignment) AND (- alignment);
               diff = aligned - ptr
           in if diff > space - sz then 0 else aligned)"

definition arena_allocate :: "arena \<Rightarrow> sz_t \<Rightarrow> sz_t \<Rightarrow> u64_t \<times> arena" where
  "arena_allocate a sz alignment =
     (let ptr = m_curr a;
          space = arena_remaining a;
          aligned = std_align alignment sz ptr space
      in if aligned = 0 then (0, a) else (aligned, a\<lparr>m_curr := aligned + sz\<rparr>))"

section \<open>BumpAllocator\<close>

text \<open>
  Allocators hold a pointer to an arena; several of them, for several element types, may
  share one. The arenas live in a store; the element type enters through its size and
  alignment.
\<close>

type_synonym arenas = "nat \<rightharpoonup> arena"

record allocator =
  m_arena :: "nat option"

definition BumpAllocator :: "nat option \<Rightarrow> allocator" where
  "BumpAllocator arena = \<lparr>m_arena = arena\<rparr>"

definition BumpAllocator_rebind :: "allocator \<Rightarrow> allocator" where
  "BumpAllocator_rebind other = \<lparr>m_arena = m_arena other\<rparr>"

definition allocator_eq :: "allocator \<Rightarrow> allocator \<Rightarrow> bool" where
  "allocator_eq x y \<longleftrightarrow> m_arena x = m_arena y"

definition allocator_neq :: "allocator \<Rightarrow> allocator \<Rightarrow> bool" where
  "allocator_neq x y \<longleftrightarrow> \<not> allocator_eq x y"

definition alloc_fail :: "'a res" where
  "alloc_fail = Inl Trap"

definition allocate :: "sz_t \<Rightarrow> sz_t \<Rightarrow> arenas \<Rightarrow> allocator \<Rightarrow> sz_t \<Rightarrow> (u64_t \<times> arenas) res" where
  "allocate sizeof_T alignof_T h al n =
     (if m_arena al = None \<or> n > (- 1) div sizeof_T then alloc_fail
      else
        case h (the (m_arena al)) of
          None \<Rightarrow> Inl UseAfterFree
        | Some a \<Rightarrow>
            let (ptr, a') = arena_allocate a (n * sizeof_T) alignof_T
            in if ptr = 0 then alloc_fail else Inr (ptr, h(the (m_arena al) \<mapsto> a')))"

definition deallocate :: "arenas \<Rightarrow> u64_t \<Rightarrow> sz_t \<Rightarrow> arenas" where
  "deallocate h p n = h"

section \<open>Rounding up to an alignment\<close>

definition round_up :: "nat \<Rightarrow> nat \<Rightarrow> nat" where
  "round_up a p = (p - 1 + a) - (p - 1 + a) mod a"

lemma round_up_props:
  assumes "0 < a" "0 < p"
  shows "a dvd round_up a p" "p \<le> round_up a p" "round_up a p < p + a"
proof -
  show "a dvd round_up a p" unfolding round_up_def by (rule dvd_minus_mod)
  have "(p - 1 + a) mod a < a" using assms(1) by simp
  with assms(2) show "p \<le> round_up a p" unfolding round_up_def by linarith
  show "round_up a p < p + a" unfolding round_up_def using assms(2) by linarith
qed

lemma round_up_least:
  assumes "0 < p" "p \<le> q" "a dvd q" "0 < a"
  shows "round_up a p \<le> q"
proof (rule ccontr)
  assume "\<not> round_up a p \<le> q"
  then have lt: "q < round_up a p" by simp
  have "a dvd round_up a p - q" using round_up_props(1) [OF assms(4,1)] assms(3) by (simp add: dvd_diff_nat)
  with lt have "a \<le> round_up a p - q" by (simp add: dvd_imp_le)
  with round_up_props(3) [OF assms(4,1)] assms(2) lt show False by linarith
qed

lemma aligned_of_nat:
  assumes al: "is_pow2 al k" and p: "0 < p"
  shows "(of_nat p - 1 + al) AND (- al) = (of_nat (round_up (unat al) p) :: u64_t)"
proof -
  define x :: u64_t where "x = of_nat (p - 1 + unat al)"
  have x: "of_nat p - 1 + al = x" using p by (simp add: x_def of_nat_diff)
  have "- al = NOT (mask k :: u64_t)"
    using mask_pow2 [OF al] by (simp add: minus_eq_not_minus_1)
  moreover have "x - (x AND mask k) = x AND NOT (x AND mask k)"
    by (rule disjunctive_diff_eq_and_not) (simp add: bit_eq_iff bit_simps)
  moreover have "x AND NOT (x AND mask k) = x AND NOT (mask k)"
    by (rule bit_word_eqI) (auto simp: bit_simps)
  ultimately have "x AND (- al) = x - (x AND mask k)" by simp
  also have "x AND mask k = take_bit k x" by (simp add: take_bit_eq_mask)
  also have "take_bit k x = of_nat ((p - 1 + unat al) mod unat al)"
    using unat_pow2 [OF al] by (simp only: x_def flip: of_nat_take_bit) (simp add: take_bit_eq_mod)
  also have "x - \<dots> = of_nat (round_up (unat al) p)"
    unfolding x_def round_up_def by (subst of_nat_diff [OF mod_less_eq_dividend]) (rule refl)
  finally show ?thesis by (simp add: x)
qed

section \<open>Allocation on an arena\<close>

definition arena_ok :: "arena \<Rightarrow> bool" where
  "arena_ok a \<longleftrightarrow> 0 < unat (m_begin a) \<and> unat (m_begin a) \<le> unat (m_curr a) \<and> unat (m_curr a) \<le> unat (m_end a)"

lemma std_align_round_up:
  assumes al: "is_pow2 al k" and p: "0 < unat ptr" and e: "unat ptr + unat space < 2 ^ 64"
  shows "unat (std_align al sz ptr space) =
    (if round_up (unat al) (unat ptr) + unat sz \<le> unat ptr + unat space
     then round_up (unat al) (unat ptr) else 0)"
proof (cases "space < sz")
  case True
  then have "unat space < unat sz" by (simp add: word_less_nat_alt)
  with round_up_props(2) [OF pow2_pos [OF al] p]
  have "\<not> round_up (unat al) (unat ptr) + unat sz \<le> unat ptr + unat space" by linarith
  with True show ?thesis by (simp add: std_align_def)
next
  case False
  define R where "R = round_up (unat al) (unat ptr)"
  have R: "unat ptr \<le> R" "R < unat ptr + unat al"
    using round_up_props(2,3) [OF pow2_pos [OF al] p] by (auto simp: R_def)
  have aligned: "(ptr - 1 + al) AND (- al) = of_nat R"
    using aligned_of_nat [OF al p] by (simp add: R_def)
  have diff: "unat (of_nat R - ptr) = R - unat ptr"
    using unat_count_diff [OF R(1)] R pow2_le [OF al] by simp
  have sp: "unat (space - sz) = unat space - unat sz"
    using False by (simp add: unat_sub word_less_nat_alt word_le_nat_alt)
  have le: "unat sz \<le> unat space" using False by (simp add: word_less_nat_alt)
  have cond: "of_nat R - ptr > space - sz \<longleftrightarrow> \<not> R + unat sz \<le> unat ptr + unat space"
    unfolding word_less_nat_alt diff sp using R le by linarith
  have "R + unat sz \<le> unat ptr + unat space \<Longrightarrow> unat (of_nat R :: u64_t) = R"
    using e by (simp add: unat_of_nat_u64)
  with cond False show ?thesis
    by (simp add: std_align_def Let_def aligned flip: R_def)
qed

text \<open>What \<^verbatim>\<open>allocate\<close> does: the lowest aligned block that fits, or null and no change.\<close>

lemma arena_end: "arena_ok a \<Longrightarrow> unat (m_curr a) + unat (arena_remaining a) = unat (m_end a)"
  by (simp add: arena_ok_def arena_remaining_def unat_sub word_le_nat_alt)

lemma arena_allocate_cases:
  assumes ok: "arena_ok a" and al: "is_pow2 al k"
  defines "R \<equiv> round_up (unat al) (unat (m_curr a))"
  shows "R + unat sz \<le> unat (m_end a) \<Longrightarrow>
      arena_allocate a sz al = (of_nat R, a\<lparr>m_curr := of_nat (R + unat sz)\<rparr>) \<and> 0 < R"
    and "\<not> R + unat sz \<le> unat (m_end a) \<Longrightarrow> arena_allocate a sz al = (0, a)"
proof -
  have c: "0 < unat (m_curr a)" using ok by (simp add: arena_ok_def)
  have "unat (std_align al sz (m_curr a) (arena_remaining a)) =
      (if R + unat sz \<le> unat (m_end a) then R else 0)"
    using std_align_round_up [OF al c, of "arena_remaining a" sz] arena_end [OF ok]
      unat_u64_less [of "m_end a"]
    by (simp add: R_def)
  note u = this
  show "arena_allocate a sz al = (0, a)" if "\<not> R + unat sz \<le> unat (m_end a)"
    using u that by (simp add: arena_allocate_def Let_def unat_eq_zero)
  have pos: "0 < R" using round_up_props(2) [OF pow2_pos [OF al] c] c by (simp add: R_def)
  show "arena_allocate a sz al = (of_nat R, a\<lparr>m_curr := of_nat (R + unat sz)\<rparr>) \<and> 0 < R"
    if "R + unat sz \<le> unat (m_end a)"
  proof -
    have "std_align al sz (m_curr a) (arena_remaining a) = of_nat R"
      using arg_cong [OF u, of "of_nat :: nat \<Rightarrow> u64_t"] that by simp
    moreover have "(of_nat R :: u64_t) \<noteq> 0"
      using u that pos calculation by (metis unat_0 neq0_conv)
    ultimately show ?thesis using pos by (simp add: arena_allocate_def Let_def)
  qed
qed

section \<open>Contract: fresh blocks above a frontier\<close>

text \<open>
  The requests of a client in order, each answered by the address of a block or by
  nothing.
\<close>

fun alloc_run :: "('s \<Rightarrow> 'r \<Rightarrow> nat option \<times> 's) \<Rightarrow> 's \<Rightarrow> 'r list \<Rightarrow> (nat \<times> 'r) list \<times> 's" where
  "alloc_run alloc s [] = ([], s)"
| "alloc_run alloc s (r # rs) =
     (let (p, s') = alloc s r; (bs, s'') = alloc_run alloc s' rs
      in ((case p of None \<Rightarrow> bs | Some a \<Rightarrow> (a, r) # bs), s''))"

locale bump_source =
  fixes alloc :: "'s \<Rightarrow> 'r \<Rightarrow> nat option \<times> 's"
    and bytes :: "'r \<Rightarrow> nat"
    and align :: "'r \<Rightarrow> nat"
    and invar :: "'s \<Rightarrow> bool"
    and frontier :: "'s \<Rightarrow> nat"
    and limit :: "'s \<Rightarrow> nat"
  assumes alloc_some: "invar s \<Longrightarrow> alloc s r = (Some a, s') \<Longrightarrow>
      invar s' \<and> frontier s \<le> a \<and> a + bytes r = frontier s' \<and> frontier s' \<le> limit s \<and>
      limit s' = limit s \<and> align r dvd a"
    and alloc_none: "invar s \<Longrightarrow> alloc s r = (None, s') \<Longrightarrow> s' = s"
begin

text \<open>A block as the set of its addresses.\<close>

lemma run_frontier:
  "invar s \<Longrightarrow> alloc_run alloc s rs = (bs, s') \<Longrightarrow>
   invar s' \<and> frontier s \<le> frontier s' \<and> limit s' = limit s \<and> (frontier s \<le> limit s \<longrightarrow> frontier s' \<le> limit s) \<and>
   (\<forall>(a, r) \<in> set bs. frontier s \<le> a \<and> a + bytes r \<le> frontier s' \<and> align r dvd a)"
proof (induction rs arbitrary: s bs)
  case (Cons r rs)
  obtain p s1 where p: "alloc s r = (p, s1)" by fastforce
  obtain bs1 s2 where b: "alloc_run alloc s1 rs = (bs1, s2)" by fastforce
  have b': "alloc_run alloc s1 rs = (bs1, s')" and bs: "bs = (case p of None \<Rightarrow> bs1 | Some a \<Rightarrow> (a, r) # bs1)"
    using Cons.prems(2) p b by auto
  show ?case
  proof (cases p)
    case None
    with alloc_none [OF Cons.prems(1)] p have "s1 = s" by simp
    with Cons.IH [OF Cons.prems(1)] b' bs None show ?thesis by simp
  next
    case (Some a)
    note al = alloc_some [OF Cons.prems(1) p [unfolded Some]]
    then have "invar s1" by blast
    from Cons.IH [OF this b'] al bs Some show ?thesis by fastforce
  qed
qed auto

lemma run_disjoint:
  "invar s \<Longrightarrow> alloc_run alloc s rs = (bs, s') \<Longrightarrow>
   sorted_wrt (\<lambda>(a, r) (a', r'). a + bytes r \<le> a') bs"
proof (induction rs arbitrary: s bs)
  case (Cons r rs)
  obtain p s1 where p: "alloc s r = (p, s1)" by fastforce
  obtain bs1 s2 where b: "alloc_run alloc s1 rs = (bs1, s2)" by fastforce
  have b': "alloc_run alloc s1 rs = (bs1, s')" and bs: "bs = (case p of None \<Rightarrow> bs1 | Some a \<Rightarrow> (a, r) # bs1)"
    using Cons.prems(2) p b by auto
  show ?case
  proof (cases p)
    case None
    with alloc_none [OF Cons.prems(1)] p have "s1 = s" by simp
    with Cons.IH [OF Cons.prems(1)] b' bs None show ?thesis by simp
  next
    case (Some a)
    note al = alloc_some [OF Cons.prems(1) p [unfolded Some]]
    then have inv: "invar s1" by blast
    from Cons.IH [OF inv b'] run_frontier [OF inv b'] al bs Some show ?thesis by fastforce
  qed
qed simp

end

section \<open>The arena satisfies the contract\<close>

text \<open>A request is a size and the exponent of its alignment.\<close>

definition arena_source :: "arena \<Rightarrow> sz_t \<times> nat \<Rightarrow> nat option \<times> arena" where
  "arena_source a r =
     (let (p, a') = arena_allocate a (fst r) (2 ^ (snd r mod 64))
      in (if p = 0 then None else Some (unat p), a'))"

lemma pow2_mod: "is_pow2 (2 ^ (k mod 64)) (k mod 64)"
  by (simp add: is_pow2_def)

lemma unat_exp_mod: "unat (2 ^ (k mod 64) :: u64_t) = 2 ^ (k mod 64)"
  by (rule unat_pow2 [OF pow2_mod])

interpretation arena: bump_source arena_source "\<lambda>r. unat (fst r)" "\<lambda>r. 2 ^ (snd r mod 64)"
  arena_ok "\<lambda>a. unat (m_curr a)" "\<lambda>a. unat (m_end a)"
proof
  fix a a' :: arena and r :: "sz_t \<times> nat" and p
  define R where "R = round_up (unat (2 ^ (snd r mod 64) :: u64_t)) (unat (m_curr a))"
  note cases = arena_allocate_cases [OF _ pow2_mod, of a "snd r" "fst r", folded R_def]
  assume ok: "arena_ok a"
  show "arena_ok a' \<and> unat (m_curr a) \<le> p \<and> p + unat (fst r) = unat (m_curr a') \<and>
      unat (m_curr a') \<le> unat (m_end a) \<and> unat (m_end a') = unat (m_end a) \<and> 2 ^ (snd r mod 64) dvd p"
    if s: "arena_source a r = (Some p, a')"
  proof -
    have fits: "R + unat (fst r) \<le> unat (m_end a)"
      using cases(2) [OF ok] s by (fastforce simp: arena_source_def)
    then have small: "R + unat (fst r) < 2 ^ 64" using unat_u64_less [of "m_end a"] by simp
    from cases(1) [OF ok fits] s have p: "p = unat (of_nat R :: u64_t)"
      and a': "a' = a\<lparr>m_curr := of_nat (R + unat (fst r))\<rparr>"
      by (auto simp: arena_source_def split: if_splits)
    have c: "0 < unat (m_curr a)" using ok by (simp add: arena_ok_def)
    have R: "unat (m_curr a) \<le> R" "2 ^ (snd r mod 64) dvd R"
      unfolding R_def unat_exp_mod using c by (simp_all add: round_up_props)
    have p': "p = R" using p small by (simp add: unat_of_nat_u64)
    have "unat (of_nat (R + unat (fst r)) :: u64_t) = R + unat (fst r)"
      by (simp only: unat_of_nat_u64 mod_less [OF small])
    with a' have u: "unat (m_curr a') = R + unat (fst r)" and e: "m_end a' = m_end a" "m_begin a' = m_begin a"
      by simp_all
    show ?thesis unfolding arena_ok_def u e p' using R fits ok by (auto simp: arena_ok_def)
  qed
  show "a' = a" if s: "arena_source a r = (None, a')"
  proof (cases "R + unat (fst r) \<le> unat (m_end a)")
    case True
    have small: "R < 2 ^ 64" using True unat_u64_less [of "m_end a"] by simp
    have "unat (of_nat R :: u64_t) \<noteq> 0"
      using cases(1) [OF ok True] small by (simp add: unat_of_nat_u64)
    then have "(of_nat R :: u64_t) \<noteq> 0" by auto
    with cases(1) [OF ok True] s show ?thesis by (simp add: arena_source_def)
  next
    case False
    with cases(2) [OF ok] s show ?thesis by (simp add: arena_source_def)
  qed
qed

section \<open>The typed allocator satisfies the contract\<close>

text \<open>
  Requests to allocators of several element types that share arena \<open>i\<close>: the element size,
  the exponent of its alignment and the number of elements. A trap answers nothing.
\<close>

definition allocator_source :: "nat \<Rightarrow> arenas \<Rightarrow> (sz_t \<times> nat \<times> sz_t) \<Rightarrow> nat option \<times> arenas" where
  "allocator_source i h r =
     (let (sizeof_T, e, n) = r
      in case allocate sizeof_T (2 ^ (e mod 64)) h (BumpAllocator (Some i)) n of
           Inl _ \<Rightarrow> (None, h)
         | Inr (p, h') \<Rightarrow> (Some (unat p), h'))"

text \<open>The guard of \<^verbatim>\<open>allocate\<close> keeps the byte count from wrapping.\<close>

lemma guard_no_wrap:
  assumes "\<not> n > (- 1) div (s :: sz_t)"
  shows "unat (n * s) = unat n * unat s"
proof (cases "s = 0")
  case False
  have m1: "unat (- 1 :: u64_t) = 2 ^ 64 - 1" by (simp add: unsigned_minus_1_eq_mask mask_eq_exp_minus_1)
  have "unat n \<le> (2 ^ 64 - 1) div unat s"
    using assms unfolding not_less word_le_nat_alt unat_div m1 .
  moreover have "0 < unat s" using False by (simp add: unat_gt_0)
  ultimately have "unat n * unat s \<le> 2 ^ 64 - 1"
    by (simp only: less_eq_div_iff_mult_less_eq)
  then show ?thesis by (simp add: unat_word_ariths)
qed simp

lemma allocate_Inr:
  assumes "allocate s al h (BumpAllocator (Some i)) n = Inr (p, h')" "h i = Some a"
  shows "\<exists>a'. arena_allocate a (n * s) al = (p, a') \<and> p \<noteq> 0 \<and> h' = h(i \<mapsto> a') \<and>
    unat (n * s) = unat n * unat s"
proof -
  have "\<not> n > (- 1) div s" using assms(1) by (auto simp: allocate_def alloc_fail_def)
  with assms guard_no_wrap [OF this] show ?thesis
    by (auto simp: allocate_def alloc_fail_def BumpAllocator_def split: prod.splits if_splits)
qed

definition shared_ok :: "nat \<Rightarrow> arenas \<Rightarrow> bool" where
  "shared_ok i h \<longleftrightarrow> (\<exists>a. h i = Some a \<and> arena_ok a)"

interpretation shared: bump_source "allocator_source i" "\<lambda>(s, e, n). unat n * unat s" "\<lambda>(s, e, n). 2 ^ (e mod 64)"
  "shared_ok i" "\<lambda>h. unat (m_curr (the (h i)))" "\<lambda>h. unat (m_end (the (h i)))" for i
proof
  fix h h' :: arenas and r :: "sz_t \<times> nat \<times> sz_t" and p
  obtain s e n where r: "r = (s, e, n)" by (cases r)
  assume "shared_ok i h"
  then obtain a where a: "h i = Some a" "arena_ok a" by (auto simp: shared_ok_def)
  show "shared_ok i h' \<and> unat (m_curr (the (h i))) \<le> p \<and>
      p + (case r of (s, e, n) \<Rightarrow> unat n * unat s) = unat (m_curr (the (h' i))) \<and>
      unat (m_curr (the (h' i))) \<le> unat (m_end (the (h i))) \<and>
      unat (m_end (the (h' i))) = unat (m_end (the (h i))) \<and> (case r of (s, e, n) \<Rightarrow> 2 ^ (e mod 64)) dvd p"
    if src: "allocator_source i h r = (Some p, h')"
  proof -
    obtain q a' where q: "arena_allocate a (n * s) (2 ^ (e mod 64)) = (q, a')" "q \<noteq> 0" "h' = h(i \<mapsto> a')"
      "unat (n * s) = unat n * unat s" "p = unat q"
      using src a(1) allocate_Inr [of s "2 ^ (e mod 64)" h i n _ h' a]
      by (auto simp: allocator_source_def r split: sum.splits)
    then have "arena_source a (n * s, e) = (Some p, a')" by (simp add: arena_source_def)
    from arena.alloc_some [OF a(2) this] q a show ?thesis
      by (auto simp: r shared_ok_def)
  qed
  show "h' = h" if "allocator_source i h r = (None, h')"
    using that by (auto simp: allocator_source_def r split: sum.splits)
qed

lemma arena_run_begin: "m_begin (snd (alloc_run arena_source a rs)) = m_begin a"
proof -
  have "m_begin (snd (arena_source a r)) = m_begin a" for a r
    by (simp add: arena_source_def arena_allocate_def Let_def)
  then show ?thesis by (induction rs arbitrary: a) (auto simp: split_beta Let_def split: option.split)
qed

lemma unat_add_small: "unat a + unat b < 2 ^ 64 \<Longrightarrow> unat (a + b :: u64_t) = unat a + unat b"
  by (simp add: unat_word_ariths)

lemma BumpArena_ok: "buff \<noteq> 0 \<Longrightarrow> unat buff + unat sz < 2 ^ 64 \<Longrightarrow> arena_ok (BumpArena buff sz)"
  by (simp add: arena_ok_def BumpArena_def unat_gt_0 unat_add_small)

section \<open>Properties\<close>

text \<open>
  Arena blocks. For every sequence of requests to a new arena over a buffer that does
  not wrap around the address space, the blocks handed out lie in the buffer, start at
  their alignment and are pairwise disjoint, each above the ones before it; used and
  remaining bytes add up to the size of the buffer.\<close>

theorem arena_blocks_disjoint:
  assumes "buff \<noteq> 0" and "unat buff + unat sz < 2 ^ 64"
    and "alloc_run arena_source (BumpArena buff sz) rs = (bs, a)"
  shows "sorted_wrt (\<lambda>(p, n, e) (p', n', e'). p + unat n \<le> p') bs \<and>
     (\<forall>(p, n, e) \<in> set bs. unat buff \<le> p \<and> p + unat n \<le> unat buff + unat sz \<and> 2 ^ (e mod 64) dvd p) \<and>
     unat (arena_used a) + unat (arena_remaining a) = unat sz"
proof -
  note ok = BumpArena_ok [OF assms(1,2)]
  note run = arena.run_frontier [OF ok assms(3)]
  have start: "unat (m_curr (BumpArena buff sz)) = unat buff" "unat (m_end (BumpArena buff sz)) = unat buff + unat sz"
    using assms(2) by (simp_all add: BumpArena_def unat_add_small)
  have beg: "m_begin a = buff"
    using arena_run_begin [of "BumpArena buff sz" rs] assms(3) by (simp add: BumpArena_def)
  have "unat (arena_used a) = unat (m_curr a) - unat buff"
    using run beg start by (simp add: arena_used_def unat_sub word_le_nat_alt)
  moreover have "unat (m_curr a) + unat (arena_remaining a) = unat buff + unat sz"
    using arena_end [of a] run start by simp
  ultimately have "unat (arena_used a) + unat (arena_remaining a) = unat sz"
    using run start by linarith
  moreover have "sorted_wrt (\<lambda>(p, n, e) (p', n', e'). p + unat n \<le> p') bs"
    by (rule sorted_wrt_mono_rel [OF _ arena.run_disjoint [OF ok assms(3)]]) auto
  moreover have "unat buff \<le> p \<and> p + unat n \<le> unat buff + unat sz \<and> 2 ^ (e mod 64) dvd p"
    if "(p, n, e) \<in> set bs" for p n e
  proof -
    have "unat buff \<le> p \<and> p + unat n \<le> unat (m_curr a) \<and> 2 ^ (e mod 64) dvd p"
      using run that start by auto
    with run start show ?thesis by linarith
  qed
  ultimately show ?thesis by blast
qed

theorem arena_blocks_disjoint_witness:
  "\<exists>bs a. alloc_run arena_source (BumpArena 4097 64) [(3, 0), (8, 3), (100, 2), (4, 4)] = (bs, a) \<and>
     map fst bs = [4097, 4104, 4112] \<and>
     sorted_wrt (\<lambda>(p, n, e) (p', n', e'). p + unat n \<le> p') bs \<and>
     unat (arena_used a) + unat (arena_remaining a) = 64"
proof -
  let ?rs = "[(3, 0), (8, 3), (100, 2), (4, 4)] :: (sz_t \<times> nat) list"
  have "map fst (fst (alloc_run arena_source (BumpArena 4097 64) ?rs)) = [4097, 4104, 4112]"
    by (simp add: arena_source_def arena_allocate_def std_align_def arena_remaining_def BumpArena_def Let_def)
  moreover obtain bs a where run: "alloc_run arena_source (BumpArena 4097 64) ?rs = (bs, a)"
    by fastforce
  moreover note arena_blocks_disjoint [OF _ _ run]
  ultimately show ?thesis by auto
qed

text \<open>
  C18. Exact failure. \<^verbatim>\<open>BumpArena::allocate\<close> returns null exactly when no address at or above
  the current one is a multiple of the alignment and leaves room for the size before the
  end, and otherwise returns the lowest such address.\<close>

theorem arena_allocate_exact:
  assumes "arena_ok a" and "is_pow2 al k"
  shows "(case arena_allocate a sz al of (p, a') \<Rightarrow>
      if p = 0 then a' = a \<and> \<not> (\<exists>q \<ge> unat (m_curr a). unat al dvd q \<and> q + unat sz \<le> unat (m_end a))
      else unat al dvd unat p \<and> unat p + unat sz \<le> unat (m_end a) \<and> unat (m_curr a) \<le> unat p \<and>
           (\<forall>q \<ge> unat (m_curr a). unat al dvd q \<longrightarrow> unat p \<le> q) \<and> m_curr a' = p + sz)"
proof -
  define R where "R = round_up (unat al) (unat (m_curr a))"
  have c: "0 < unat (m_curr a)" using assms(1) by (simp add: arena_ok_def)
  note props = round_up_props [OF pow2_pos [OF assms(2)] c, folded R_def]
  have least: "R \<le> q" if "unat (m_curr a) \<le> q" "unat al dvd q" for q
    unfolding R_def by (rule round_up_least [OF c that pow2_pos [OF assms(2)]])
  show ?thesis
  proof (cases "R + unat sz \<le> unat (m_end a)")
    case True
    then have "R < 2 ^ 64" using unat_u64_less [of "m_end a"] by simp
    then have u: "unat (of_nat R :: u64_t) = R" by (simp add: unat_of_nat_u64)
    have "0 < R" using props c by simp
    with u have "(of_nat R :: u64_t) \<noteq> 0" by (metis neq0_conv unat_0)
    with arena_allocate_cases(1) [OF assms, of sz, folded R_def, OF True] u props True least
    show ?thesis by simp
  next
    case False
    have "\<not> q + unat sz \<le> unat (m_end a)" if "unat (m_curr a) \<le> q" "unat al dvd q" for q
      using least [OF that] False by simp
    with arena_allocate_cases(2) [OF assms, of sz, folded R_def, OF False] show ?thesis by auto
  qed
qed

theorem arena_allocate_exact_witness:
  "fst (arena_allocate (BumpArena 4097 8) 8 8) = 0 \<and>
   \<not> (\<exists>q \<ge> 4097. (8 :: nat) dvd q \<and> q + 8 \<le> 4105) \<and> fst (arena_allocate (BumpArena 4097 15) 8 8) = 4104"
proof -
  have ok: "arena_ok (BumpArena 4097 8)" "is_pow2 8 3"
    by (auto simp: BumpArena_ok is_pow2_def)
  show ?thesis
    using arena_allocate_exact [OF ok, of 8]
    by (simp add: arena_allocate_def std_align_def arena_remaining_def BumpArena_def Let_def)
qed

text \<open>
  C19. Shared allocators. Allocators of any element types on one arena never hand out
  overlapping blocks: for every sequence of typed requests the blocks, each of element
  count times element size bytes without wrap-around, are aligned, disjoint and inside
  the arena.\<close>

theorem allocator_blocks_disjoint:
  assumes "h i = Some (BumpArena buff sz)" and "buff \<noteq> 0" and "unat buff + unat sz < 2 ^ 64"
    and "alloc_run (allocator_source i) h rs = (bs, h')"
  shows "sorted_wrt (\<lambda>(p, s, e, n) (p', s', e', n'). p + unat n * unat s \<le> p') bs \<and>
     (\<forall>(p, s, e, n) \<in> set bs. unat buff \<le> p \<and> p + unat n * unat s \<le> unat buff + unat sz \<and> 2 ^ (e mod 64) dvd p)"
proof -
  have ok: "shared_ok i h" using assms(1) BumpArena_ok [OF assms(2,3)] by (simp add: shared_ok_def)
  have start: "unat (m_curr (the (h i))) = unat buff" "unat (m_end (the (h i))) = unat buff + unat sz"
    using assms(1,3) by (simp_all add: BumpArena_def unat_add_small)
  note run = shared.run_frontier [OF ok assms(4)]
  have "sorted_wrt (\<lambda>(p, s, e, n) (p', s', e', n'). p + unat n * unat s \<le> p') bs"
    by (rule sorted_wrt_mono_rel [OF _ shared.run_disjoint [OF ok assms(4)]]) auto
  moreover have "unat buff \<le> p \<and> p + unat n * unat s \<le> unat buff + unat sz \<and> 2 ^ (e mod 64) dvd p"
    if "(p, s, e, n) \<in> set bs" for p s e n
  proof -
    have "unat buff \<le> p \<and> p + unat n * unat s \<le> unat (m_curr (the (h' i))) \<and> 2 ^ (e mod 64) dvd p"
      using run that start by auto
    with run start show ?thesis by linarith
  qed
  ultimately show ?thesis by blast
qed

theorem allocator_blocks_disjoint_witness:
  "\<exists>bs h. alloc_run (allocator_source 0) [0 \<mapsto> BumpArena 4096 64] [(1, 0, 3), (8, 3, 4), (8, 3, - 1), (4, 2, 1)] =
       (bs, h) \<and> map fst bs = [4096, 4104, 4136] \<and>
     sorted_wrt (\<lambda>(p, s, e, n) (p', s', e', n'). p + unat n * unat s \<le> p') bs"
proof -
  let ?rs = "[(1, 0, 3), (8, 3, 4), (8, 3, - 1), (4, 2, 1)] :: (sz_t \<times> nat \<times> sz_t) list"
  let ?h = "[0 \<mapsto> BumpArena 4096 64] :: arenas"
  have "map fst (fst (alloc_run (allocator_source 0) ?h ?rs)) = [4096, 4104, 4136]"
    by (simp add: allocator_source_def allocate_def alloc_fail_def BumpAllocator_def
        arena_allocate_def std_align_def arena_remaining_def BumpArena_def Let_def)
  moreover obtain bs h where run: "alloc_run (allocator_source 0) ?h ?rs = (bs, h)"
    by fastforce
  moreover note allocator_blocks_disjoint [OF _ _ _ run, of 4096 64]
  ultimately show ?thesis by auto
qed

end
