(* ===== verification/Raw_Heap.thy ===== *)
theory Raw_Heap
  imports Ring_Buffer
begin

text \<open>
  A heap of raw storage for the containers that manage memory themselves: blocks of
  slots, each slot raw or holding a live object, pointers as a block and an offset, and
  the operations \<^verbatim>\<open>operator new\<close>, \<^verbatim>\<open>operator delete\<close>, \<^verbatim>\<open>std::construct_at\<close>,
  \<^verbatim>\<open>std::destroy_at\<close>, reading and assignment through a pointer. Allocation always succeeds
  and returns a block never used before. Releasing a block that still holds live objects is
  reported, since their destructors would never run.
\<close>

section \<open>Pointers and blocks\<close>

type_synonym ptr = "(nat \<times> nat) option"

record 'a heap =
  hblocks :: "nat \<rightharpoonup> 'a option list"
  hnext :: nat

definition ptr_add :: "ptr \<Rightarrow> nat \<Rightarrow> ptr" where
  "ptr_add p n = map_option (\<lambda>(b, i). (b, i + n)) p"

definition ptr_diff :: "ptr \<Rightarrow> ptr \<Rightarrow> nat" where
  "ptr_diff p q = (case p of None \<Rightarrow> 0 | Some (b, i) \<Rightarrow> (case q of None \<Rightarrow> 0 | Some (c, j) \<Rightarrow> i - j))"

lemma ptr_simps [simp]:
  "ptr_add None n = None" "ptr_add (Some (b, i)) n = Some (b, i + n)"
  "ptr_diff None q = 0" "ptr_diff (Some (b, i)) (Some (c, j)) = i - j"
  by (auto simp: ptr_add_def ptr_diff_def)

definition empty_heap :: "'a heap" where
  "empty_heap = \<lparr>hblocks = Map.empty, hnext = 0\<rparr>"

definition heap_new :: "'a heap \<Rightarrow> nat \<Rightarrow> ptr \<times> 'a heap" where
  "heap_new h n =
     (Some (hnext h, 0), \<lparr>hblocks = (hblocks h)(hnext h \<mapsto> replicate n None), hnext = Suc (hnext h)\<rparr>)"

definition heap_free :: "'a heap \<Rightarrow> ptr \<Rightarrow> 'a heap res" where
  "heap_free h p =
     (case p of
        None \<Rightarrow> Inr h
      | Some (b, i) \<Rightarrow>
          (case hblocks h b of
             None \<Rightarrow> Inl DoubleFree
           | Some st \<Rightarrow>
               if i \<noteq> 0 then Inl OutOfBounds
               else if list_ex (\<lambda>s. s \<noteq> None) st then Inl LiveObject
               else Inr (h\<lparr>hblocks := (hblocks h)(b := None)\<rparr>)))"

definition heap_update ::
  "'a heap \<Rightarrow> ptr \<Rightarrow> ('a option list \<Rightarrow> nat \<Rightarrow> 'a option list res) \<Rightarrow> 'a heap res" where
  "heap_update h p f =
     (case p of
        None \<Rightarrow> Inl NullDeref
      | Some (b, i) \<Rightarrow>
          (case hblocks h b of
             None \<Rightarrow> Inl UseAfterFree
           | Some st \<Rightarrow> bind_res (f st i) (\<lambda>st'. Inr (h\<lparr>hblocks := (hblocks h)(b \<mapsto> st')\<rparr>))))"

definition heap_construct :: "'a heap \<Rightarrow> ptr \<Rightarrow> 'a \<Rightarrow> 'a heap res" where
  "heap_construct h p x = heap_update h p (\<lambda>st i. construct_at st i x)"

definition heap_destroy :: "'a heap \<Rightarrow> ptr \<Rightarrow> 'a heap res" where
  "heap_destroy h p = heap_update h p destroy_at"

definition heap_read :: "'a heap \<Rightarrow> ptr \<Rightarrow> 'a res" where
  "heap_read h p =
     (case p of
        None \<Rightarrow> Inl NullDeref
      | Some (b, i) \<Rightarrow>
          (case hblocks h b of None \<Rightarrow> Inl UseAfterFree | Some st \<Rightarrow> read_at st i))"

text \<open>Assignment to an object requires a live one.\<close>

definition heap_assign :: "'a heap \<Rightarrow> ptr \<Rightarrow> 'a \<Rightarrow> 'a heap res" where
  "heap_assign h p x =
     heap_update h p (\<lambda>st i. bind_res (read_at st i) (\<lambda>_. Inr (st[i := Some x])))"

section \<open>Blocks that are full up to a point\<close>

text \<open>A block holds \<open>xs\<close> followed by \<open>k\<close> raw slots.\<close>

definition filled_block :: "'a list \<Rightarrow> nat \<Rightarrow> 'a option list" where
  "filled_block xs k = map Some xs @ replicate k None"

lemma length_filled_block [simp]: "length (filled_block xs k) = length xs + k"
  by (simp add: filled_block_def)

lemma filled_block_Nil: "filled_block [] k = replicate k None"
  by (simp add: filled_block_def)

lemma read_filled_block: "i < length xs \<Longrightarrow> read_at (filled_block xs k) i = Inr (xs ! i)"
  by (simp add: read_at_def filled_block_def nth_append)

lemma construct_filled_block:
  "construct_at (filled_block xs (Suc k)) (length xs) x = Inr (filled_block (xs @ [x]) k)"
  by (simp add: construct_at_def filled_block_def nth_append list_update_append)

lemma construct_filled_block_full:
  "construct_at (filled_block xs 0) (length xs) x = Inl OutOfBounds"
  by (simp add: construct_at_def filled_block_def)

lemma destroy_filled_block:
  "destroy_at (filled_block (xs @ [x]) k) (length xs) = Inr (filled_block xs (Suc k))"
  by (simp add: destroy_at_def filled_block_def nth_append list_update_append)

lemma list_ex_filled_block: "list_ex (\<lambda>s. s \<noteq> None) (filled_block xs k) \<longleftrightarrow> xs \<noteq> []"
  by (cases xs) (auto simp: filled_block_def list_ex_iff)

end
