(* ===== verification/Fiah_Vector.thy ===== *)
theory Fiah_Vector
  imports Raw_Heap
begin

text \<open>
  The growable array of \<^verbatim>\<open>include/fiah/structs/Vector.hh\<close> on a heap of raw storage: three
  pointers into one block, growth by doubling, construction, copying, moving and
  destruction, with the assertions of the source enabled. Element counts stay below
  \<open>2 ^ 64\<close> divided by the element size, so \<^verbatim>\<open>TSize * alloc_size\<close> does not wrap.
\<close>

section \<open>State\<close>

record vector =
  m_begin :: ptr
  m_end :: ptr
  m_cap :: ptr

definition expansion_mult :: nat where
  "expansion_mult = 2"

definition vec_size :: "vector \<Rightarrow> nat" where
  "vec_size v = ptr_diff (m_end v) (m_begin v)"

definition vec_capacity :: "vector \<Rightarrow> nat" where
  "vec_capacity v = ptr_diff (m_cap v) (m_begin v)"

definition vec_empty :: "vector \<Rightarrow> bool" where
  "vec_empty v \<longleftrightarrow> m_begin v = m_end v"

section \<open>Storage management\<close>

definition vec_allocate :: "'a heap \<Rightarrow> nat \<Rightarrow> (ptr \<times> 'a heap) res" where
  "vec_allocate h alloc_size = (if alloc_size = 0 then Inl AssertFailed else Inr (heap_new h alloc_size))"

text \<open>The loop of \<^verbatim>\<open>_grow_capacity\<close> moves the elements from the last to the first.\<close>

fun move_loop :: "'a heap \<Rightarrow> ptr \<Rightarrow> ptr \<Rightarrow> nat \<Rightarrow> 'a heap res" where
  "move_loop h src dst 0 = Inr h"
| "move_loop h src dst (Suc i) =
     bind_res (heap_read h (ptr_add src i)) (\<lambda>x.
       bind_res (heap_construct h (ptr_add dst i) x) (\<lambda>h. move_loop h src dst i))"

fun destroy_n :: "'a heap \<Rightarrow> ptr \<Rightarrow> nat \<Rightarrow> 'a heap res" where
  "destroy_n h p 0 = Inr h"
| "destroy_n h p (Suc n) = bind_res (heap_destroy h p) (\<lambda>h. destroy_n h (ptr_add p 1) n)"

definition grow_capacity :: "'a heap \<Rightarrow> vector \<Rightarrow> nat \<Rightarrow> ('a heap \<times> vector) res" where
  "grow_capacity h v new_cap =
     bind_res (vec_allocate h new_cap) (\<lambda>(new_arr, h).
       let curr_sz = vec_size v
       in bind_res (move_loop h (m_begin v) new_arr curr_sz) (\<lambda>h.
          bind_res (destroy_n h (m_begin v) curr_sz) (\<lambda>h.
          bind_res (heap_free h (m_begin v)) (\<lambda>h.
            Inr (h, \<lparr>m_begin = new_arr, m_end = ptr_add new_arr curr_sz, m_cap = ptr_add new_arr new_cap\<rparr>)))))"

definition allocate_from_nullptr :: "'a heap \<Rightarrow> vector \<Rightarrow> nat \<Rightarrow> ('a heap \<times> vector) res" where
  "allocate_from_nullptr h v new_cap =
     (if m_begin v \<noteq> None \<or> m_end v \<noteq> None \<or> m_cap v \<noteq> None then Inl AssertFailed
      else bind_res (vec_allocate h new_cap) (\<lambda>(p, h).
             Inr (h, \<lparr>m_begin = p, m_end = p, m_cap = ptr_add p new_cap\<rparr>)))"

definition destroy_all :: "'a heap \<Rightarrow> vector \<Rightarrow> ('a heap \<times> vector) res" where
  "destroy_all h v =
     (if m_begin v = None then Inr (h, v)
      else bind_res (destroy_n h (m_begin v) (vec_size v)) (\<lambda>h. Inr (h, v\<lparr>m_end := m_begin v\<rparr>)))"

definition vec_free :: "'a heap \<Rightarrow> vector \<Rightarrow> ('a heap \<times> vector) res" where
  "vec_free h v = bind_res (heap_free h (m_begin v)) (\<lambda>h. Inr (h, \<lparr>m_begin = None, m_end = None, m_cap = None\<rparr>))"

definition destroy_and_free :: "'a heap \<Rightarrow> vector \<Rightarrow> ('a heap \<times> vector) res" where
  "destroy_and_free h v = bind_res (destroy_all h v) (\<lambda>(h, v). vec_free h v)"

section \<open>Capacity and element access\<close>

definition vec_reserve :: "'a heap \<Rightarrow> vector \<Rightarrow> nat \<Rightarrow> ('a heap \<times> vector) res" where
  "vec_reserve h v new_cap =
     (if m_begin v = None then allocate_from_nullptr h v new_cap
      else if vec_capacity v \<ge> new_cap then Inr (h, v)
      else grow_capacity h v new_cap)"

text \<open>\<^verbatim>\<open>at\<close> throws (the result \<open>None\<close>) outside the bounds, \<^verbatim>\<open>operator[]\<close> asserts.\<close>

definition vec_at :: "'a heap \<Rightarrow> vector \<Rightarrow> nat \<Rightarrow> 'a option res" where
  "vec_at h v index =
     (if index \<ge> vec_size v then Inr None
      else bind_res (heap_read h (ptr_add (m_begin v) index)) (\<lambda>x. Inr (Some x)))"

definition vec_index :: "'a heap \<Rightarrow> vector \<Rightarrow> nat \<Rightarrow> 'a res" where
  "vec_index h v pos =
     (if \<not> pos < vec_size v then Inl AssertFailed else heap_read h (ptr_add (m_begin v) pos))"

section \<open>Construction, copy and move\<close>

definition Vector :: vector where
  "Vector = \<lparr>m_begin = None, m_end = None, m_cap = None\<rparr>"

definition Vector_reserve_initial :: "'a heap \<Rightarrow> nat \<Rightarrow> ('a heap \<times> vector) res" where
  "Vector_reserve_initial h n = allocate_from_nullptr h Vector n"

text \<open>\<^verbatim>\<open>std::uninitialized_copy_n\<close> and \<^verbatim>\<open>std::copy_n\<close> return the end of what they wrote.\<close>

fun uninitialized_copy_n :: "'a heap \<Rightarrow> ptr \<Rightarrow> nat \<Rightarrow> ptr \<Rightarrow> ('a heap \<times> ptr) res" where
  "uninitialized_copy_n h src 0 dst = Inr (h, dst)"
| "uninitialized_copy_n h src (Suc n) dst =
     bind_res (heap_read h src) (\<lambda>x.
       bind_res (heap_construct h dst x) (\<lambda>h. uninitialized_copy_n h (ptr_add src 1) n (ptr_add dst 1)))"

fun copy_n :: "'a heap \<Rightarrow> ptr \<Rightarrow> nat \<Rightarrow> ptr \<Rightarrow> ('a heap \<times> ptr) res" where
  "copy_n h src 0 dst = Inr (h, dst)"
| "copy_n h src (Suc n) dst =
     bind_res (heap_read h src) (\<lambda>x.
       bind_res (heap_assign h dst x) (\<lambda>h. copy_n h (ptr_add src 1) n (ptr_add dst 1)))"

definition Vector_copy :: "'a heap \<Rightarrow> vector \<Rightarrow> ('a heap \<times> vector) res" where
  "Vector_copy h other =
     bind_res (allocate_from_nullptr h Vector (vec_capacity other)) (\<lambda>(h, v).
       bind_res (uninitialized_copy_n h (m_begin other) (vec_size other) (m_begin v)) (\<lambda>(h, e).
         Inr (h, v\<lparr>m_end := e\<rparr>)))"

definition vec_copy_assign :: "'a heap \<Rightarrow> vector \<Rightarrow> vector \<Rightarrow> ('a heap \<times> vector) res" where
  "vec_copy_assign h v other =
     bind_res (vec_reserve h v (vec_size other)) (\<lambda>(h, v).
       bind_res (copy_n h (m_begin other) (vec_size other) (m_begin v)) (\<lambda>(h, e).
         Inr (h, v\<lparr>m_end := e\<rparr>)))"

text \<open>The move operations return the target and the emptied source.\<close>

definition Vector_move :: "vector \<Rightarrow> vector \<times> vector" where
  "Vector_move other = (other, Vector)"

definition vec_move_assign :: "'a heap \<Rightarrow> vector \<Rightarrow> vector \<Rightarrow> ('a heap \<times> vector \<times> vector) res" where
  "vec_move_assign h v other = bind_res (destroy_and_free h v) (\<lambda>(h, _). Inr (h, other, Vector))"

definition Vector_destructor :: "'a heap \<Rightarrow> vector \<Rightarrow> 'a heap res" where
  "Vector_destructor h v = bind_res (destroy_and_free h v) (\<lambda>(h, _). Inr h)"

section \<open>Modifiers\<close>

text \<open>
  The argument of \<^verbatim>\<open>emplace_back\<close> is a reference: to an object outside the vector, with a
  value of its own, or to an object in the heap, read when the new element is constructed.
\<close>

datatype 'a arg = Val 'a | Ref ptr

definition arg_value :: "'a heap \<Rightarrow> 'a arg \<Rightarrow> 'a res" where
  "arg_value h a = (case a of Val x \<Rightarrow> Inr x | Ref p \<Rightarrow> heap_read h p)"

definition emplace_back :: "'a heap \<Rightarrow> vector \<Rightarrow> 'a arg \<Rightarrow> ('a heap \<times> vector) res" where
  "emplace_back h v a =
     bind_res
       (if m_begin v = None then allocate_from_nullptr h v 1
        else if m_end v = m_cap v then grow_capacity h v (vec_capacity v * expansion_mult)
        else Inr (h, v)) (\<lambda>(h, v).
       bind_res (arg_value h a) (\<lambda>x.
       bind_res (heap_construct h (m_end v) x) (\<lambda>h.
         Inr (h, v\<lparr>m_end := ptr_add (m_end v) 1\<rparr>))))"

definition push_back :: "'a heap \<Rightarrow> vector \<Rightarrow> 'a arg \<Rightarrow> ('a heap \<times> vector) res" where
  "push_back h v element = emplace_back h v element"

text \<open>The pointer below another one; \<^verbatim>\<open>--p\<close> at the start of a block leaves the block.\<close>

definition ptr_pred :: "ptr \<Rightarrow> ptr res" where
  "ptr_pred p =
     (case p of None \<Rightarrow> Inl NullDeref
      | Some (b, i) \<Rightarrow> if i = 0 then Inl OutOfBounds else Inr (Some (b, i - 1)))"

definition pop_back :: "'a heap \<Rightarrow> vector \<Rightarrow> ('a heap \<times> vector) res" where
  "pop_back h v =
     (if vec_empty v then Inl AssertFailed
      else bind_res (ptr_pred (m_end v)) (\<lambda>e.
             bind_res (heap_destroy h e) (\<lambda>h. Inr (h, v\<lparr>m_end := e\<rparr>))))"

definition vec_clear :: "'a heap \<Rightarrow> vector \<Rightarrow> ('a heap \<times> vector) res" where
  "vec_clear h v = destroy_all h v"

text \<open>
  The loops of \<^verbatim>\<open>resize\<close> run until a pointer equals another one. Upwards every round
  constructs an object, so the loop leaves its block after finitely many rounds.
\<close>

definition room_above :: "'a heap \<Rightarrow> ptr \<Rightarrow> nat" where
  "room_above h p =
     (case p of None \<Rightarrow> 0 | Some (b, i) \<Rightarrow> (case hblocks h b of None \<Rightarrow> 0 | Some st \<Rightarrow> length st - i))"

lemma construct_room:
  assumes "heap_construct h p x = Inr h'"
  shows "room_above h' (ptr_add p 1) < room_above h p"
  using assms
  by (auto simp: heap_construct_def heap_update_def construct_at_def room_above_def bind_res_eq_Inr
      split: option.splits if_splits) linarith

function construct_until :: "'a \<Rightarrow> 'a heap \<Rightarrow> ptr \<Rightarrow> ptr \<Rightarrow> ('a heap \<times> ptr) res" where
  "construct_until dflt h p stop =
     (if p = stop then Inr (h, p)
      else bind_res (heap_construct h p dflt) (\<lambda>h. construct_until dflt h (ptr_add p 1) stop))"
  by pat_completeness auto

termination
  by (relation "measure (\<lambda>(dflt, h, p, stop). room_above h p)") (simp_all add: construct_room del: One_nat_def)

function destroy_until :: "'a heap \<Rightarrow> ptr \<Rightarrow> ptr \<Rightarrow> ('a heap \<times> ptr) res" where
  "destroy_until h p stop =
     (if p = stop then Inr (h, p)
      else bind_res (ptr_pred p) (\<lambda>q. bind_res (heap_destroy h q) (\<lambda>h. destroy_until h q stop)))"
  by pat_completeness auto

termination
  by (relation "measure (\<lambda>(h, p, stop). case p of None \<Rightarrow> 0 | Some (b, i) \<Rightarrow> i)")
    (auto simp: ptr_pred_def split: option.splits if_splits)

declare construct_until.simps [simp del] destroy_until.simps [simp del]

definition vec_resize :: "'a \<Rightarrow> 'a heap \<Rightarrow> vector \<Rightarrow> nat \<Rightarrow> ('a heap \<times> vector) res" where
  "vec_resize dflt h v new_size =
     (if m_begin v = None then
        bind_res (allocate_from_nullptr h v new_size) (\<lambda>(h, v).
          bind_res (construct_until dflt h (m_end v) (m_cap v)) (\<lambda>(h, e). Inr (h, v\<lparr>m_end := e\<rparr>)))
      else
        let current_size = vec_size v;
            new_end = ptr_add (m_begin v) new_size
        in if current_size \<ge> new_size then
             bind_res (destroy_until h (m_end v) new_end) (\<lambda>(h, e). Inr (h, v\<lparr>m_end := e\<rparr>))
           else
             bind_res (if vec_capacity v < new_size then grow_capacity h v new_size else Inr (h, v)) (\<lambda>(h, v).
               bind_res (construct_until dflt h (m_end v) new_end) (\<lambda>(h, e). Inr (h, v\<lparr>m_end := e\<rparr>))))"

section \<open>What a vector represents\<close>

text \<open>
  The vector \<open>v\<close> holds \<open>xs\<close> in a heap whose other blocks are \<open>F\<close>: it owns no block, or one
  block with the elements followed by raw slots. Owning the block exclusively is what makes
  the rest of the heap, and every other vector in it, a frame.
\<close>

definition vec_rep :: "(nat \<rightharpoonup> 'a option list) \<Rightarrow> 'a heap \<Rightarrow> vector \<Rightarrow> 'a list \<Rightarrow> bool" where
  "vec_rep F h v xs \<longleftrightarrow>
     (\<forall>b \<ge> hnext h. F b = None) \<and>
     (if m_begin v = None then v = Vector \<and> xs = [] \<and> hblocks h = F
      else \<exists>b k. v = \<lparr>m_begin = Some (b, 0), m_end = Some (b, length xs), m_cap = Some (b, length xs + k)\<rparr> \<and>
             b < hnext h \<and> F b = None \<and> 0 < length xs + k \<and> hblocks h = F(b \<mapsto> filled_block xs k))"

lemma vec_rep_null: "vec_rep F h Vector xs \<longleftrightarrow> (\<forall>b \<ge> hnext h. F b = None) \<and> xs = [] \<and> hblocks h = F"
  by (simp add: vec_rep_def Vector_def)

lemma vec_repI:
  "\<forall>b \<ge> hnext h. F b = None \<Longrightarrow> b < hnext h \<Longrightarrow> F b = None \<Longrightarrow> 0 < length xs + k \<Longrightarrow>
   hblocks h = F(b \<mapsto> filled_block xs k) \<Longrightarrow> n = length xs \<Longrightarrow> m = length xs + k \<Longrightarrow>
   vec_rep F h \<lparr>m_begin = Some (b, 0), m_end = Some (b, n), m_cap = Some (b, m)\<rparr> xs"
  by (auto simp: vec_rep_def)

lemma vec_rep_cases:
  assumes "vec_rep F h v xs"
  obtains (null) "v = Vector" "xs = []" "hblocks h = F" "\<forall>b \<ge> hnext h. F b = None"
  | (block) b k where "v = \<lparr>m_begin = Some (b, 0), m_end = Some (b, length xs), m_cap = Some (b, length xs + k)\<rparr>"
      "b < hnext h" "F b = None" "0 < length xs + k" "hblocks h = F(b \<mapsto> filled_block xs k)"
      "\<forall>b \<ge> hnext h. F b = None"
proof (cases "m_begin v = None")
  case True
  with assms null show thesis by (simp add: vec_rep_def)
next
  case False
  then obtain b k where "v = \<lparr>m_begin = Some (b, 0), m_end = Some (b, length xs), m_cap = Some (b, length xs + k)\<rparr>"
      "b < hnext h" "F b = None" "0 < length xs + k" "hblocks h = F(b \<mapsto> filled_block xs k)"
      "\<forall>b \<ge> hnext h. F b = None"
    using assms unfolding vec_rep_def by (metis (full_types))
  then show thesis by (rule block)
qed

lemma Vector_simps [simp]:
  "m_begin Vector = None" "m_end Vector = None" "m_cap Vector = None"
  by (simp_all add: Vector_def)

lemma vec_rep_size: "vec_rep F h v xs \<Longrightarrow> vec_size v = length xs"
  by (erule vec_rep_cases) (auto simp: vec_size_def)

section \<open>Heap operations on the own block\<close>

lemma heap_update_own:
  "hblocks h = G(b \<mapsto> st) \<Longrightarrow> f st i = Inr st' \<Longrightarrow>
   heap_update h (Some (b, i)) f = Inr (h\<lparr>hblocks := G(b \<mapsto> st')\<rparr>)"
  by (simp add: heap_update_def)

lemma heap_read_own: "hblocks h b = Some st \<Longrightarrow> read_at st i = Inr x \<Longrightarrow> heap_read h (Some (b, i)) = Inr x"
  by (simp add: heap_read_def)

lemma hblocks_upd: "hblocks (h\<lparr>hblocks := X\<rparr>) = X"
  by simp

lemma heap_blocks_idem: "hblocks h = X \<Longrightarrow> h = h\<lparr>hblocks := X\<rparr>"
  by (cases h) simp

text \<open>The two blocks during growth: \<open>i\<close> elements still to move.\<close>

lemma move_loop_block:
  assumes "d \<noteq> b" "i \<le> length xs"
    "hblocks h = G(b \<mapsto> filled_block xs k,
       d \<mapsto> replicate i None @ map Some (drop i xs) @ replicate j None)"
  shows "move_loop h (Some (b, 0)) (Some (d, 0)) i =
    Inr (h\<lparr>hblocks := G(b \<mapsto> filled_block xs k, d \<mapsto> filled_block xs j)\<rparr>)"
  using assms(2,3)
proof (induction i arbitrary: h)
  case 0
  have "replicate 0 None @ map Some (drop 0 xs) @ replicate j None = filled_block xs j"
    by (simp add: filled_block_def)
  with 0(2) have "hblocks h = G(b \<mapsto> filled_block xs k, d \<mapsto> filled_block xs j)" by (simp only:)
  from heap_blocks_idem [OF this] show ?case by (simp only: move_loop.simps)
next
  case (Suc i)
  let ?st = "replicate (Suc i) None @ map Some (drop (Suc i) xs) @ replicate j None"
  let ?st' = "replicate i None @ map Some (drop i xs) @ replicate j None"
  have rd: "heap_read h (Some (b, i)) = Inr (xs ! i)"
    using Suc.prems assms(1) by (intro heap_read_own [where st = "filled_block xs k"] read_filled_block) auto
  have "construct_at ?st i (xs ! i) = Inr ?st'"
  proof -
    have "?st = replicate i None @ None # map Some (drop (Suc i) xs) @ replicate j None"
      by (simp add: replicate_app_Cons_same)
    moreover have "?st' = replicate i None @ Some (xs ! i) # map Some (drop (Suc i) xs) @ replicate j None"
      using Suc.prems(1) by (simp add: Cons_nth_drop_Suc [symmetric])
    ultimately show ?thesis by (simp only: construct_at_def) (simp add: nth_append list_update_append)
  qed
  with Suc.prems(2) have co: "heap_construct h (Some (d, i)) (xs ! i) =
      Inr (h\<lparr>hblocks := G(b \<mapsto> filled_block xs k, d \<mapsto> ?st')\<rparr>)" (is "_ = Inr ?h'")
    unfolding heap_construct_def by (intro heap_update_own) auto
  have "move_loop ?h' (Some (b, 0)) (Some (d, 0)) i =
      Inr (?h'\<lparr>hblocks := G(b \<mapsto> filled_block xs k, d \<mapsto> filled_block xs j)\<rparr>)"
    by (rule Suc.IH [OF Suc_leD [OF Suc.prems(1)] hblocks_upd])
  with rd co show ?case
    by (simp add: fun_upd_def)
qed

lemma destroy_n_prefix:
  fixes xs :: "'a list"
  assumes "hblocks h = G(b \<mapsto> replicate i None @ map Some xs @ rest)"
  shows "destroy_n h (Some (b, i)) (length xs) =
    Inr (h\<lparr>hblocks := G(b \<mapsto> replicate (i + length xs) None @ rest)\<rparr>)"
  using assms
proof (induction xs arbitrary: h i)
  case Nil
  have "replicate i None @ map Some ([] :: 'a list) @ rest = replicate (i + length ([] :: 'a list)) None @ rest"
    by simp
  with Nil have "hblocks h = G(b \<mapsto> replicate (i + length ([] :: 'a list)) None @ rest)" by (simp only:)
  from heap_blocks_idem [OF this] show ?case by (simp only: list.size destroy_n.simps)
next
  case (Cons x xs)
  let ?st = "replicate i None @ map Some (x # xs) @ rest"
  let ?st' = "replicate (Suc i) None @ map Some xs @ rest"
  have "destroy_at ?st i = Inr ?st'"
    by (simp add: destroy_at_def nth_append list_update_append replicate_app_Cons_same)
  with Cons.prems have "heap_destroy h (Some (b, i)) = Inr (h\<lparr>hblocks := G(b \<mapsto> ?st')\<rparr>)"
    unfolding heap_destroy_def by (intro heap_update_own) auto
  then show ?case
    using Cons.IH [of "h\<lparr>hblocks := G(b \<mapsto> ?st')\<rparr>" "Suc i"] by simp
qed

lemma destroy_n_block:
  assumes "hblocks h = G(b \<mapsto> replicate i None @ filled_block xs k)"
  shows "destroy_n h (Some (b, i)) (length xs) =
    Inr (h\<lparr>hblocks := G(b \<mapsto> replicate (i + length xs + k) None)\<rparr>)"
  using destroy_n_prefix [OF assms [unfolded filled_block_def]] by (simp add: replicate_add)

lemma heap_free_block:
  "hblocks h = G(b \<mapsto> replicate n None) \<Longrightarrow> G b = None \<Longrightarrow>
   heap_free h (Some (b, 0)) = Inr (h\<lparr>hblocks := G\<rparr>)"
  by (simp add: heap_free_def list_ex_iff fun_upd_idem)

lemma vec_allocate_pos: "0 < n \<Longrightarrow> vec_allocate h n = Inr (heap_new h n)"
  by (simp add: vec_allocate_def)

lemma grow_capacity_rep:
  assumes rep: "vec_rep F h v xs" and nn: "m_begin v \<noteq> None" and cap: "length xs \<le> c" "0 < c"
  shows "\<exists>h' v'. grow_capacity h v c = Inr (h', v') \<and> vec_rep F h' v' xs \<and> m_begin v' \<noteq> None \<and>
    vec_capacity v' = c \<and> hblocks h' (fst (the (m_begin v))) = None"
  using rep
proof (cases rule: vec_rep_cases)
  case null
  with nn show ?thesis by simp
next
  case (block b k)
  define d where "d = hnext h"
  have db: "d \<noteq> b" "F d = None" using block by (auto simp: d_def)
  let ?h1 = "\<lparr>hblocks = F(b \<mapsto> filled_block xs k, d \<mapsto> replicate c None), hnext = Suc d\<rparr>"
  have new: "vec_allocate h c = Inr (Some (d, 0), ?h1)"
    using cap block(5) by (simp only: vec_allocate_pos heap_new_def d_def)
  have "replicate c None = replicate (length xs) None @ map Some (drop (length xs) xs) @ replicate (c - length xs) None"
    using cap by (simp add: replicate_add [symmetric])
  then have "move_loop ?h1 (Some (b, 0)) (Some (d, 0)) (length xs) =
      Inr (?h1\<lparr>hblocks := F(b \<mapsto> filled_block xs k, d \<mapsto> filled_block xs (c - length xs))\<rparr>)"
    by (intro move_loop_block [OF db(1)]) auto
  then have mv: "move_loop ?h1 (Some (b, 0)) (Some (d, 0)) (length xs) =
      Inr \<lparr>hblocks = F(b \<mapsto> filled_block xs k, d \<mapsto> filled_block xs (c - length xs)), hnext = Suc d\<rparr>"
    (is "_ = Inr ?h2") by simp
  have tw: "F(b \<mapsto> x, d \<mapsto> y) = F(d \<mapsto> y, b \<mapsto> x)" for x y using db(1) by (rule fun_upd_twist [symmetric])
  have "destroy_n ?h2 (Some (b, 0)) (length xs) =
      Inr (?h2\<lparr>hblocks := F(d \<mapsto> filled_block xs (c - length xs), b \<mapsto> replicate (0 + length xs + k) None)\<rparr>)"
    by (rule destroy_n_block) (simp add: tw)
  then have de: "destroy_n ?h2 (Some (b, 0)) (length xs) =
      Inr \<lparr>hblocks = F(d \<mapsto> filled_block xs (c - length xs), b \<mapsto> replicate (length xs + k) None), hnext = Suc d\<rparr>"
    (is "_ = Inr ?h3") by simp
  have "heap_free ?h3 (Some (b, 0)) = Inr (?h3\<lparr>hblocks := F(d \<mapsto> filled_block xs (c - length xs))\<rparr>)"
    by (rule heap_free_block) (use block db in auto)
  then have fr: "heap_free ?h3 (Some (b, 0)) =
      Inr \<lparr>hblocks = F(d \<mapsto> filled_block xs (c - length xs)), hnext = Suc d\<rparr>"
    (is "_ = Inr ?h4") by simp
  let ?v = "\<lparr>m_begin = Some (d, 0), m_end = Some (d, length xs), m_cap = Some (d, c)\<rparr>"
  have "grow_capacity h v c = Inr (?h4, ?v)"
    using new mv de fr block(1) by (simp add: grow_capacity_def vec_size_def Let_def)
  moreover have "vec_rep F ?h4 ?v xs"
    using block(6) db(2) cap by (intro vec_repI) (auto simp: d_def)
  moreover have "hblocks ?h4 b = None" using block(3) db(1) by simp
  ultimately show ?thesis using block(1) by (auto simp: vec_capacity_def)
qed

lemma allocate_from_nullptr_rep:
  assumes "vec_rep F h v xs" "m_begin v = None" "0 < c"
  shows "\<exists>h' v'. allocate_from_nullptr h v c = Inr (h', v') \<and> vec_rep F h' v' xs \<and> m_begin v' \<noteq> None \<and>
    vec_capacity v' = c"
proof -
  from assms have v: "v = Vector" "xs = []" "hblocks h = F" "\<forall>b \<ge> hnext h. F b = None"
    by (auto simp: vec_rep_def)
  let ?h = "\<lparr>hblocks = F(hnext h \<mapsto> replicate c None), hnext = Suc (hnext h)\<rparr>"
  let ?v = "\<lparr>m_begin = Some (hnext h, 0), m_end = Some (hnext h, 0), m_cap = Some (hnext h, c)\<rparr>"
  have "allocate_from_nullptr h v c = Inr (?h, ?v)"
    using v(1,3) assms(3) by (simp add: allocate_from_nullptr_def vec_allocate_def heap_new_def)
  moreover have "vec_rep F ?h ?v xs"
    using v(2,4) assms(3) by (intro vec_repI [where k = c]) (auto simp: filled_block_Nil)
  ultimately show ?thesis by (auto simp: vec_capacity_def)
qed

section \<open>Construction and destruction at the end\<close>

lemma construct_end:
  assumes rep: "vec_rep F h v xs" and nn: "m_begin v \<noteq> None" and room: "length xs < vec_capacity v"
  shows "\<exists>h'. heap_construct h (m_end v) x = Inr h' \<and> vec_rep F h' (v\<lparr>m_end := ptr_add (m_end v) 1\<rparr>) (xs @ [x])"
  using rep
proof (cases rule: vec_rep_cases)
  case null
  with nn show ?thesis by simp
next
  case (block b k)
  then obtain j where k: "k = Suc j" using room by (cases k) (auto simp: vec_capacity_def)
  let ?h = "h\<lparr>hblocks := F(b \<mapsto> filled_block (xs @ [x]) j)\<rparr>"
  have "heap_construct h (m_end v) x = Inr ?h"
    unfolding heap_construct_def block(1)
    by (simp only: vector.simps, rule heap_update_own [where G = F, OF block(5)])
      (simp only: k construct_filled_block)
  moreover have "vec_rep F ?h (v\<lparr>m_end := ptr_add (m_end v) 1\<rparr>) (xs @ [x])"
    unfolding block(1) using block k by (simp del: One_nat_def) (intro vec_repI, auto)
  ultimately show ?thesis by blast
qed

lemma destroy_end:
  assumes rep: "vec_rep F h v (xs @ [x])"
  shows "\<exists>e h'. ptr_pred (m_end v) = Inr e \<and> heap_destroy h e = Inr h' \<and> vec_rep F h' (v\<lparr>m_end := e\<rparr>) xs \<and>
    m_begin v \<noteq> None"
  using rep
proof (cases rule: vec_rep_cases)
  case null
  then show ?thesis by simp
next
  case (block b k)
  let ?h = "h\<lparr>hblocks := F(b \<mapsto> filled_block xs (Suc k))\<rparr>"
  have "heap_destroy h (Some (b, length xs)) = Inr ?h"
    unfolding heap_destroy_def by (rule heap_update_own [where G = F, OF block(5)]) (rule destroy_filled_block)
  moreover have "ptr_pred (m_end v) = Inr (Some (b, length xs))" using block(1) by (simp add: ptr_pred_def)
  moreover have "vec_rep F ?h (v\<lparr>m_end := Some (b, length xs)\<rparr>) xs"
    unfolding block(1) using block by (simp del: One_nat_def) (intro vec_repI [where k = "Suc k"], auto)
  moreover have "m_begin v \<noteq> None" using block(1) by simp
  ultimately show ?thesis by blast
qed

lemma destroy_all_rep:
  assumes "vec_rep F h v xs"
  shows "\<exists>h'. destroy_all h v = Inr (h', v\<lparr>m_end := m_begin v\<rparr>) \<and> vec_rep F h' (v\<lparr>m_end := m_begin v\<rparr>) [] \<and>
    vec_capacity (v\<lparr>m_end := m_begin v\<rparr>) = vec_capacity v"
  using assms
proof (cases rule: vec_rep_cases)
  case null
  then show ?thesis using assms by (auto simp: destroy_all_def Vector_def vec_capacity_def)
next
  case (block b k)
  let ?h = "h\<lparr>hblocks := F(b \<mapsto> replicate (0 + length xs + k) None)\<rparr>"
  have "destroy_n h (Some (b, 0)) (length xs) = Inr ?h"
    by (rule destroy_n_block) (simp only: block(5) replicate.simps append.simps)
  then have "destroy_all h v = Inr (?h, v\<lparr>m_end := m_begin v\<rparr>)"
    using block(1) by (simp add: destroy_all_def vec_size_def)
  moreover have "vec_rep F ?h (v\<lparr>m_end := m_begin v\<rparr>) []"
    unfolding block(1) using block(2-4,6)
    by (simp only: vector.simps) (intro vec_repI [where k = "length xs + k"], auto simp: filled_block_Nil)
  ultimately show ?thesis using block(1) by (auto simp: vec_capacity_def)
qed

lemma destroy_and_free_rep:
  assumes "vec_rep F h v xs"
  shows "\<exists>h'. destroy_and_free h v = Inr (h', Vector) \<and> vec_rep F h' Vector []"
proof -
  let ?v = "v\<lparr>m_end := m_begin v\<rparr>"
  obtain h1 where h1: "destroy_all h v = Inr (h1, ?v)"
    and rep: "vec_rep F h1 ?v []" using destroy_all_rep [OF assms] by blast
  from rep have "\<exists>h'. heap_free h1 (m_begin ?v) = Inr h' \<and> vec_rep F h' Vector []"
  proof (cases rule: vec_rep_cases)
    case null
    then show ?thesis by (auto simp: heap_free_def vec_rep_null)
  next
    case (block b k)
    have "heap_free h1 (Some (b, 0)) = Inr (h1\<lparr>hblocks := F\<rparr>)"
      by (rule heap_free_block [where G = F]) (simp_all only: block(3,5) filled_block_Nil)
    moreover have "vec_rep F (h1\<lparr>hblocks := F\<rparr>) Vector []" using block(6) by (simp add: vec_rep_null)
    ultimately show ?thesis using block(1) by auto
  qed
  then obtain h' where "heap_free h1 (m_begin ?v) = Inr h'" "vec_rep F h' Vector []" by blast
  with h1 show ?thesis by (simp add: destroy_and_free_def vec_free_def Vector_def)
qed

section \<open>Effect of the operations\<close>

lemma vec_rep_null_cap: "vec_rep F h v xs \<Longrightarrow> m_begin v = None \<longleftrightarrow> vec_capacity v = 0"
  by (erule vec_rep_cases) (auto simp: vec_capacity_def)

lemma vec_rep_le_cap: "vec_rep F h v xs \<Longrightarrow> length xs \<le> vec_capacity v"
  by (erule vec_rep_cases) (auto simp: vec_capacity_def)

lemma vec_rep_full: "vec_rep F h v xs \<Longrightarrow> m_begin v \<noteq> None \<Longrightarrow> m_end v = m_cap v \<longleftrightarrow> vec_capacity v = length xs"
  by (erule vec_rep_cases) (auto simp: vec_capacity_def)

definition next_capacity :: "nat \<Rightarrow> nat \<Rightarrow> nat" where
  "next_capacity n cap = (if cap = 0 then 1 else if n = cap then 2 * cap else cap)"

lemma emplace_back_rep:
  assumes rep: "vec_rep F h v xs"
  shows "\<exists>h' v'. emplace_back h v (Val x) = Inr (h', v') \<and> vec_rep F h' v' (xs @ [x]) \<and>
    vec_capacity v' = next_capacity (length xs) (vec_capacity v)"
proof -
  have "\<exists>h1 v1. (if m_begin v = None then allocate_from_nullptr h v 1
      else if m_end v = m_cap v then grow_capacity h v (vec_capacity v * expansion_mult)
      else Inr (h, v)) = Inr (h1, v1) \<and> vec_rep F h1 v1 xs \<and> m_begin v1 \<noteq> None \<and>
      vec_capacity v1 = next_capacity (length xs) (vec_capacity v)"
  proof (cases "m_begin v = None")
    case True
    with allocate_from_nullptr_rep [OF rep True, of 1] vec_rep_null_cap [OF rep] show ?thesis
      by (auto simp: next_capacity_def)
  next
    case False
    then have pos: "0 < vec_capacity v" using vec_rep_null_cap [OF rep] by simp
    show ?thesis
    proof (cases "m_end v = m_cap v")
      case True
      with vec_rep_full [OF rep False] have "vec_capacity v = length xs" by simp
      with grow_capacity_rep [OF rep False, of "vec_capacity v * expansion_mult"] False True pos show ?thesis
        by (auto simp: next_capacity_def expansion_mult_def mult.commute)
    next
      case nf: False
      with vec_rep_full [OF rep False] rep False pos show ?thesis by (auto simp: next_capacity_def)
    qed
  qed
  then obtain h1 v1 where h1: "(if m_begin v = None then allocate_from_nullptr h v 1
      else if m_end v = m_cap v then grow_capacity h v (vec_capacity v * expansion_mult)
      else Inr (h, v)) = Inr (h1, v1)" "vec_rep F h1 v1 xs" "m_begin v1 \<noteq> None"
      "vec_capacity v1 = next_capacity (length xs) (vec_capacity v)" by blast
  have "length xs < vec_capacity v1"
    using h1(4) vec_rep_le_cap [OF rep] by (auto simp: next_capacity_def)
  from construct_end [OF h1(2,3) this, of x] h1 show ?thesis
    by (auto simp: emplace_back_def arg_value_def vec_capacity_def)
qed

lemma pop_back_rep:
  assumes rep: "vec_rep F h v (xs @ [x])"
  shows "\<exists>h' v'. pop_back h v = Inr (h', v') \<and> vec_rep F h' v' xs \<and> vec_capacity v' = vec_capacity v"
proof -
  have "\<not> vec_empty v" using rep by (cases rule: vec_rep_cases) (auto simp: vec_empty_def)
  with destroy_end [OF rep] show ?thesis by (auto simp: pop_back_def vec_capacity_def)
qed

lemma reserve_rep:
  assumes rep: "vec_rep F h v xs" and n: "0 < n \<or> m_begin v \<noteq> None"
  shows "\<exists>h' v'. vec_reserve h v n = Inr (h', v') \<and> vec_rep F h' v' xs \<and> vec_capacity v' = max n (vec_capacity v)"
proof (cases "m_begin v = None")
  case True
  with n have "0 < n" by simp
  with allocate_from_nullptr_rep [OF rep True this] True vec_rep_null_cap [OF rep] show ?thesis
    by (auto simp: vec_reserve_def)
next
  case False
  show ?thesis
  proof (cases "vec_capacity v \<ge> n")
    case True
    with False rep show ?thesis by (auto simp: vec_reserve_def)
  next
    case lt: False
    with grow_capacity_rep [OF rep False, of n] False vec_rep_le_cap [OF rep] show ?thesis
      by (auto simp: vec_reserve_def)
  qed
qed

text \<open>The loops of \<^verbatim>\<open>resize\<close>.\<close>

lemma vec_rep_end: "vec_rep F h v xs \<Longrightarrow> m_begin v \<noteq> None \<Longrightarrow> m_end v = ptr_add (m_begin v) (length xs)"
  by (erule vec_rep_cases) auto

lemma vec_rep_cap: "vec_rep F h v xs \<Longrightarrow> m_begin v \<noteq> None \<Longrightarrow> m_cap v = ptr_add (m_begin v) (vec_capacity v)"
  by (erule vec_rep_cases) (auto simp: vec_capacity_def)

lemma ptr_add_inj: "p \<noteq> None \<Longrightarrow> ptr_add p i = ptr_add p j \<longleftrightarrow> i = j"
  by (cases p) auto

lemma vec_capacity_end [simp]: "vec_capacity (v\<lparr>m_end := e\<rparr>) = vec_capacity v"
  by (simp add: vec_capacity_def)

lemma m_end_idem [simp]: "m_end v = e \<Longrightarrow> v\<lparr>m_end := e\<rparr> = (v :: vector)"
  by (cases v) simp

lemma construct_until_rep:
  assumes "vec_rep F h v xs" "m_begin v \<noteq> None" "length xs + n \<le> vec_capacity v"
  shows "\<exists>h' e. construct_until d h (m_end v) (ptr_add (m_begin v) (length xs + n)) = Inr (h', e) \<and>
    vec_rep F h' (v\<lparr>m_end := e\<rparr>) (xs @ replicate n d)"
  using assms
proof (induction n arbitrary: h v xs)
  case 0
  with vec_rep_end [OF 0(1,2)] show ?case
    by (subst construct_until.simps) auto
next
  case (Suc n)
  let ?v = "v\<lparr>m_end := ptr_add (m_end v) 1\<rparr>"
  obtain h1 where h1: "heap_construct h (m_end v) d = Inr h1" "vec_rep F h1 ?v (xs @ [d])"
    using construct_end [OF Suc.prems(1,2)] Suc.prems(3) by (metis add_Suc_right le_add1 less_Suc_eq_le less_le_trans)
  have ne: "m_end v \<noteq> ptr_add (m_begin v) (length xs + Suc n)"
    using vec_rep_end [OF Suc.prems(1,2)] Suc.prems(2) by (simp add: ptr_add_inj)
  have "\<exists>h' e. construct_until d h1 (m_end ?v) (ptr_add (m_begin ?v) (length (xs @ [d]) + n)) = Inr (h', e) \<and>
      vec_rep F h' (?v\<lparr>m_end := e\<rparr>) ((xs @ [d]) @ replicate n d)"
    by (rule Suc.IH [OF h1(2)]) (use Suc.prems in auto)
  with h1(1) ne show ?case by (subst construct_until.simps) simp
qed

text \<open>Towards a pointer into another block the loop runs off the end of its own.\<close>

lemma construct_until_overrun:
  assumes "vec_rep F h v xs" "m_begin v = Some (b, 0)" "\<And>i. stop \<noteq> Some (b, i)"
  shows "construct_until d h (m_end v) stop = Inl OutOfBounds"
  using assms
proof (induction "vec_capacity v - length xs" arbitrary: h v xs)
  case 0
  from 0(2) have "heap_construct h (m_end v) d = Inl OutOfBounds"
  proof (cases rule: vec_rep_cases)
    case (block c k)
    with 0(1) have "k = 0" by (simp add: vec_capacity_def)
    with block show ?thesis
      by (simp add: heap_construct_def heap_update_def construct_filled_block_full)
  qed (use 0(3) in simp)
  moreover have "m_end v \<noteq> stop" using vec_rep_end [OF 0(2)] 0(3,4) by fastforce
  ultimately show ?case by (subst construct_until.simps) simp
next
  case (Suc n)
  let ?v = "v\<lparr>m_end := ptr_add (m_end v) 1\<rparr>"
  obtain h1 where h1: "heap_construct h (m_end v) d = Inr h1" "vec_rep F h1 ?v (xs @ [d])"
    using construct_end [OF Suc.prems(1)] Suc.prems(2) Suc.hyps(2) by (metis option.distinct(1) zero_less_Suc zero_less_diff)
  have "construct_until d h1 (m_end ?v) stop = Inl OutOfBounds"
    by (rule Suc.hyps(1) [OF _ h1(2)]) (use Suc.prems Suc.hyps(2) in auto)
  moreover have "m_end v \<noteq> stop" using vec_rep_end [OF Suc.prems(1)] Suc.prems(2,3) by fastforce
  ultimately show ?case using h1(1) by (subst construct_until.simps) simp
qed

lemma destroy_until_rep:
  assumes "vec_rep F h v xs" "m_begin v \<noteq> None" "n \<le> length xs"
  shows "\<exists>h' e. destroy_until h (m_end v) (ptr_add (m_begin v) n) = Inr (h', e) \<and>
    vec_rep F h' (v\<lparr>m_end := e\<rparr>) (take n xs)"
  using assms
proof (induction xs arbitrary: h v rule: rev_induct)
  case Nil
  with vec_rep_end [OF Nil(1,2)] show ?case by (subst destroy_until.simps) auto
next
  case (snoc x xs)
  show ?case
  proof (cases "n = length (xs @ [x])")
    case True
    with snoc.prems vec_rep_end [OF snoc.prems(1,2)] show ?thesis by (subst destroy_until.simps) auto
  next
    case False
    obtain e h1 where e: "ptr_pred (m_end v) = Inr e" "heap_destroy h e = Inr h1" "vec_rep F h1 (v\<lparr>m_end := e\<rparr>) xs"
      using destroy_end [OF snoc.prems(1)] by blast
    have ne: "m_end v \<noteq> ptr_add (m_begin v) n"
      using False vec_rep_end [OF snoc.prems(1,2)] ptr_add_inj [OF snoc.prems(2), of "length (xs @ [x])" n] by simp
    have "\<exists>h' e'. destroy_until h1 (m_end (v\<lparr>m_end := e\<rparr>)) (ptr_add (m_begin (v\<lparr>m_end := e\<rparr>)) n) = Inr (h', e') \<and>
        vec_rep F h' (v\<lparr>m_end := e, m_end := e'\<rparr>) (take n xs)"
      by (rule snoc.IH [OF e(3)]) (use snoc.prems False in auto)
    with e ne False snoc.prems(3) show ?thesis by (subst destroy_until.simps) simp
  qed
qed

text \<open>Every way a call of \<^verbatim>\<open>resize\<close> can go.\<close>

lemma resize_shrink:
  assumes "vec_rep F h v xs" "m_begin v \<noteq> None" "n \<le> length xs"
  shows "\<exists>h' v'. vec_resize d h v n = Inr (h', v') \<and> vec_rep F h' v' (take n xs)"
  using destroy_until_rep [OF assms] assms
  by (auto simp: vec_resize_def vec_rep_size [OF assms(1)] Let_def)

lemma resize_fits:
  assumes "vec_rep F h v xs" "m_begin v \<noteq> None" "length xs < n" "n \<le> vec_capacity v"
  shows "\<exists>h' v'. vec_resize d h v n = Inr (h', v') \<and> vec_rep F h' v' (xs @ replicate (n - length xs) d)"
  using construct_until_rep [OF assms(1,2), of "n - length xs" d] assms
  by (auto simp: vec_resize_def vec_rep_size [OF assms(1)] Let_def)

lemma resize_null:
  assumes "vec_rep F h v xs" "m_begin v = None" "0 < n"
  shows "\<exists>h' v'. vec_resize d h v n = Inr (h', v') \<and> vec_rep F h' v' (replicate n d)"
proof -
  obtain h1 v1 where v1: "allocate_from_nullptr h v n = Inr (h1, v1)" "vec_rep F h1 v1 xs" "m_begin v1 \<noteq> None"
    "vec_capacity v1 = n" using allocate_from_nullptr_rep [OF assms] by blast
  have "xs = []" using assms(1,2) by (simp add: vec_rep_def)
  with construct_until_rep [OF v1(2,3), of n d] v1 vec_rep_cap [OF v1(2,3)] assms(2) show ?thesis
    by (auto simp: vec_resize_def)
qed

lemma resize_overrun:
  assumes "vec_rep F h v xs" "m_begin v \<noteq> None" "vec_capacity v < n"
  shows "vec_resize d h v n = Inl OutOfBounds"
proof -
  have len: "length xs < n" using vec_rep_le_cap [OF assms(1)] assms(3) by simp
  obtain h1 v1 where v1: "grow_capacity h v n = Inr (h1, v1)" "vec_rep F h1 v1 xs" "m_begin v1 \<noteq> None"
    "hblocks h1 (fst (the (m_begin v))) = None"
    using grow_capacity_rep [OF assms(1,2), of n] len by auto
  obtain b where b: "m_begin v1 = Some (b, 0)" "hblocks h1 b \<noteq> None"
    using v1(2,3) by (cases rule: vec_rep_cases) auto
  obtain c where c: "m_begin v = Some (c, 0)"
    using assms(1,2) by (cases rule: vec_rep_cases) auto
  have "c \<noteq> b" using v1(4) b(2) c by auto
  then have "construct_until d h1 (m_end v1) (ptr_add (m_begin v) n) = Inl OutOfBounds"
    by (intro construct_until_overrun [OF v1(2) b(1)]) (simp add: c)
  with v1(1) assms len show ?thesis by (auto simp: vec_resize_def vec_rep_size [OF assms(1)] Let_def)
qed

section \<open>Copying\<close>

lemma uninitialized_copy_n_rep:
  assumes "vec_rep F h v ys" "m_begin v \<noteq> None" "length ys + length xs \<le> vec_capacity v"
    and "F c = Some st" "\<And>i. i < length xs \<Longrightarrow> read_at st (j + i) = Inr (xs ! i)"
  shows "\<exists>h' e. uninitialized_copy_n h (Some (c, j)) (length xs) (m_end v) = Inr (h', e) \<and>
    vec_rep F h' (v\<lparr>m_end := e\<rparr>) (ys @ xs)"
  using assms
proof (induction xs arbitrary: h v ys j)
  case (Cons x xs)
  let ?v = "v\<lparr>m_end := ptr_add (m_end v) 1\<rparr>"
  have "hblocks h c = Some st"
    using Cons.prems(1,4) by (cases rule: vec_rep_cases) auto
  then have rd: "heap_read h (Some (c, j)) = Inr x"
    using Cons.prems(5) [of 0] by (simp add: heap_read_def)
  obtain h1 where h1: "heap_construct h (m_end v) x = Inr h1" "vec_rep F h1 ?v (ys @ [x])"
    using construct_end [OF Cons.prems(1,2), of x] Cons.prems(3) by auto
  have "\<exists>h' e. uninitialized_copy_n h1 (Some (c, j + 1)) (length xs) (m_end ?v) = Inr (h', e) \<and>
      vec_rep F h' (?v\<lparr>m_end := e\<rparr>) ((ys @ [x]) @ xs)"
  proof (rule Cons.IH [OF h1(2)])
    show "read_at st (j + 1 + i) = Inr (xs ! i)" if "i < length xs" for i
      using Cons.prems(5) [of "Suc i"] that by simp
  qed (use Cons.prems in auto)
  with rd h1(1) show ?case by simp
qed simp

text \<open>The copy constructor, from a vector that lives in the frame.\<close>

lemma Vector_copy_rep:
  assumes rep: "vec_rep F h other xs" and nn: "m_begin other \<noteq> None"
  shows "\<exists>h' v. Vector_copy h other = Inr (h', v) \<and> vec_rep (hblocks h) h' v xs \<and>
    vec_capacity v = vec_capacity other"
  using rep
proof (cases rule: vec_rep_cases)
  case null
  with nn show ?thesis by simp
next
  case (block b k)
  let ?F = "hblocks h"
  have fresh: "vec_rep ?F h Vector []" using block(2,5,6) by (auto simp: vec_rep_null)
  have cap: "0 < vec_capacity other" using nn vec_rep_null_cap [OF rep] by simp
  obtain h1 v where v: "allocate_from_nullptr h Vector (vec_capacity other) = Inr (h1, v)" "vec_rep ?F h1 v []"
    "m_begin v \<noteq> None" "vec_capacity v = vec_capacity other"
    using allocate_from_nullptr_rep [OF fresh _ cap] by auto
  have "?F b = Some (filled_block xs k)" using block(5) by simp
  from uninitialized_copy_n_rep [OF v(2,3) _ this, of xs 0] v(4) vec_rep_le_cap [OF rep]
  obtain h2 e where "uninitialized_copy_n h1 (Some (b, 0)) (length xs) (m_end v) = Inr (h2, e)"
    "vec_rep ?F h2 (v\<lparr>m_end := e\<rparr>) xs" by (auto simp: read_filled_block)
  moreover have "m_end v = m_begin v" using vec_rep_end [OF v(2,3)] v(3) by auto
  moreover have "m_begin other = Some (b, 0)" using block(1) by simp
  ultimately show ?thesis
    using v(1,4) by (simp add: Vector_copy_def vec_rep_size [OF rep])
qed

text \<open>Copy assignment, element by element, over the first elements of a block.\<close>

lemma copy_n_block:
  assumes "c \<noteq> b" "F c = Some st"
    and "hblocks h = F(b \<mapsto> filled_block (pre @ ys) k)" "length xs \<le> length ys + k"
    and "\<And>i. i < length xs \<Longrightarrow> read_at st (j + i) = Inr (xs ! i)"
  shows "copy_n h (Some (c, j)) (length xs) (Some (b, length pre)) =
    (if length xs \<le> length ys
     then Inr (h\<lparr>hblocks := F(b \<mapsto> filled_block (pre @ xs @ drop (length xs) ys) k)\<rparr>,
               Some (b, length pre + length xs))
     else Inl DeadObject)"
  using assms(3-)
proof (induction xs arbitrary: h pre ys j)
  case Nil
  from heap_blocks_idem [OF Nil(1)] show ?case by (simp add: fun_upd_def)
next
  case (Cons x xs)
  have rd: "heap_read h (Some (c, j)) = Inr x"
    using Cons.prems(1) Cons.prems(3) [of 0] assms(1,2) by (simp add: heap_read_def)
  show ?case
  proof (cases ys)
    case Nil
    then have "read_at (filled_block (pre @ ys) k) (length pre) = Inl DeadObject"
      using Cons.prems(2) by (simp add: read_at_def filled_block_def nth_append)
    with Cons.prems(1) have "heap_assign h (Some (b, length pre)) x = Inl DeadObject"
      by (simp add: heap_assign_def heap_update_def)
    with rd Nil show ?thesis by simp
  next
    case (Cons y zs)
    let ?h = "h\<lparr>hblocks := F(b \<mapsto> filled_block ((pre @ [x]) @ zs) k)\<rparr>"
    have "heap_assign h (Some (b, length pre)) x = Inr ?h"
      unfolding heap_assign_def
      by (rule heap_update_own [where G = F, OF Cons.prems(1)])
        (simp add: Cons read_at_def filled_block_def nth_append list_update_append)
    moreover have "copy_n ?h (Some (c, j + 1)) (length xs) (Some (b, length (pre @ [x]))) =
        (if length xs \<le> length zs
         then Inr (?h\<lparr>hblocks := F(b \<mapsto> filled_block ((pre @ [x]) @ xs @ drop (length xs) zs) k)\<rparr>,
                   Some (b, length (pre @ [x]) + length xs))
         else Inl DeadObject)"
    proof (rule Cons.IH [OF hblocks_upd])
      show "read_at st (j + 1 + i) = Inr (xs ! i)" if "i < length xs" for i
        using Cons.prems(3) [of "Suc i"] that by simp
    qed (use Cons.prems(2) Cons in simp)
    ultimately show ?thesis using rd Cons by (simp add: fun_upd_def)
  qed
qed

text \<open>A destructor that does not know of all live elements releases their storage.\<close>

lemma destructor_leaks:
  assumes "hblocks h = G(b \<mapsto> map Some xs @ rest)" "list_ex (\<lambda>s. s \<noteq> None) rest"
    and "v = \<lparr>m_begin = Some (b, 0), m_end = Some (b, length xs), m_cap = e\<rparr>"
  shows "Vector_destructor h v = Inl LiveObject"
proof -
  have "destroy_n h (Some (b, 0)) (length xs) = Inr (h\<lparr>hblocks := G(b \<mapsto> replicate (0 + length xs) None @ rest)\<rparr>)"
    by (rule destroy_n_prefix) (simp only: assms(1) replicate.simps append.simps)
  with assms(2,3) show ?thesis
    by (simp add: Vector_destructor_def destroy_and_free_def destroy_all_def vec_free_def vec_size_def
        heap_free_def)
qed

lemma assign_cases:
  assumes "vec_rep F h v ys" and "F c = Some (filled_block xs j)"
    and "other = \<lparr>m_begin = Some (c, 0), m_end = Some (c, length xs), m_cap = Some (c, length xs + j)\<rparr>"
  shows "(length ys < length xs \<longrightarrow> vec_copy_assign h v other = Inl DeadObject) \<and>
     (length xs = length ys \<and> m_begin v \<noteq> None \<longrightarrow>
        (\<exists>h' v'. vec_copy_assign h v other = Inr (h', v') \<and> vec_rep F h' v' xs)) \<and>
     (length xs < length ys \<longrightarrow>
        (\<exists>h' v'. vec_copy_assign h v other = Inr (h', v') \<and> Vector_destructor h' v' = Inl LiveObject))"
proof (cases "m_begin v \<noteq> None \<or> length ys < length xs")
  case False
  with assms(1) show ?thesis by (cases rule: vec_rep_cases) auto
next
  case True
  then have "0 < length xs \<or> m_begin v \<noteq> None" by auto
  from reserve_rep [OF assms(1) this] obtain h1 v1 where
    r: "vec_reserve h v (length xs) = Inr (h1, v1)" "vec_rep F h1 v1 ys" "length xs \<le> vec_capacity v1"
    by auto
  have nn: "m_begin v1 \<noteq> None"
    using vec_rep_null_cap [OF r(2)] vec_rep_le_cap [OF r(2)] r True
    by (auto simp: vec_reserve_def split: if_splits)
  obtain b k where b: "v1 = \<lparr>m_begin = Some (b, 0), m_end = Some (b, length ys), m_cap = Some (b, length ys + k)\<rparr>"
    "b < hnext h1" "F b = None" "0 < length ys + k" "hblocks h1 = F(b \<mapsto> filled_block ys k)" "\<forall>b \<ge> hnext h1. F b = None"
    using r(2) nn by (cases rule: vec_rep_cases) auto
  have room: "length xs \<le> length ys + k" using r(3) b(1) by (simp add: vec_capacity_def)
  have "c \<noteq> b" using assms(2) b(3) by auto
  note cp = copy_n_block [where F = F, OF this assms(2), of h1 "[]" ys k xs 0]
  have "vec_size other = length xs" using assms(3) by (simp add: vec_size_def)
  then have asg: "vec_copy_assign h v other = bind_res (copy_n h1 (Some (c, 0)) (length xs) (Some (b, 0)))
      (\<lambda>(h, e). Inr (h, v1\<lparr>m_end := e\<rparr>))"
    using r(1) assms(3) b(1) by (simp add: vec_copy_assign_def)
  have longer: "vec_copy_assign h v other = Inl DeadObject" if "length ys < length xs"
    using asg cp b(5) room that by (simp add: read_filled_block)
  let ?h = "h1\<lparr>hblocks := F(b \<mapsto> filled_block (xs @ drop (length xs) ys) k)\<rparr>"
  let ?v = "\<lparr>m_begin = Some (b, 0), m_end = Some (b, length xs), m_cap = Some (b, length ys + k)\<rparr>"
  have fits: "vec_copy_assign h v other = Inr (?h, ?v)" if "length xs \<le> length ys"
    using asg cp b(1,5) room that by (simp add: read_filled_block)
  have same: "vec_rep F ?h ?v xs" if "length xs = length ys"
    using b that by (intro vec_repI) auto
  have shorter: "Vector_destructor ?h ?v = Inl LiveObject" if lt: "length xs < length ys"
  proof (rule destructor_leaks [of _ F])
    obtain y zs where "drop (length xs) ys = y # zs"
      using lt by (cases "drop (length xs) ys") auto
    then show "list_ex (\<lambda>s. s \<noteq> None) (map Some (drop (length xs) ys) @ replicate k None)"
      by simp
  qed (simp_all add: filled_block_def)
  from longer fits same shorter show ?thesis by auto
qed

text \<open>Inserting an own element when the vector is full.\<close>

lemma push_own_full:
  assumes "vec_rep F h v xs" and "vec_capacity v = length xs" and "i < length xs"
  shows "push_back h v (Ref (ptr_add (m_begin v) i)) = Inl UseAfterFree"
proof -
  have nn: "m_begin v \<noteq> None" using vec_rep_null_cap [OF assms(1)] assms(2,3) by auto
  obtain h1 v1 where g: "grow_capacity h v (vec_capacity v * expansion_mult) = Inr (h1, v1)"
    "hblocks h1 (fst (the (m_begin v))) = None"
    using grow_capacity_rep [OF assms(1) nn, of "vec_capacity v * expansion_mult"] assms(2,3)
    by (fastforce simp: expansion_mult_def)
  have "heap_read h1 (ptr_add (m_begin v) i) = Inl UseAfterFree"
    using nn g(2) by (cases "m_begin v") (auto simp: heap_read_def)
  with g(1) nn vec_rep_full [OF assms(1) nn] assms(2) show ?thesis
    by (auto simp: push_back_def emplace_back_def arg_value_def)
qed

section \<open>A container with the contract of a list\<close>

text \<open>
  The calls a client of a growable sequence makes, as a locale: what each does to the
  sequence of elements, and what the destructor leaves. The sequence of calls is legal
  when no element is popped from an empty sequence.
\<close>

datatype 'a seq_op = PushBack 'a | PopBack | Clear

fun seq_legal :: "nat \<Rightarrow> 'a seq_op list \<Rightarrow> bool" where
  "seq_legal n [] = True"
| "seq_legal n (PushBack x # ps) = seq_legal (Suc n) ps"
| "seq_legal n (PopBack # ps) = (0 < n \<and> seq_legal (n - 1) ps)"
| "seq_legal n (Clear # ps) = seq_legal 0 ps"

fun seq_run :: "'a list \<Rightarrow> 'a seq_op list \<Rightarrow> 'a list" where
  "seq_run xs [] = xs"
| "seq_run xs (PushBack x # ps) = seq_run (xs @ [x]) ps"
| "seq_run xs (PopBack # ps) = seq_run (butlast xs) ps"
| "seq_run xs (Clear # ps) = seq_run [] ps"

fun container_run ::
  "('s \<Rightarrow> 'a \<Rightarrow> 's res) \<Rightarrow> ('s \<Rightarrow> 's res) \<Rightarrow> ('s \<Rightarrow> 's res) \<Rightarrow> 's \<Rightarrow> 'a seq_op list \<Rightarrow> 's res" where
  "container_run push pop clear s [] = Inr s"
| "container_run push pop clear s (PushBack x # ps) =
     bind_res (push s x) (\<lambda>s. container_run push pop clear s ps)"
| "container_run push pop clear s (PopBack # ps) =
     bind_res (pop s) (\<lambda>s. container_run push pop clear s ps)"
| "container_run push pop clear s (Clear # ps) =
     bind_res (clear s) (\<lambda>s. container_run push pop clear s ps)"

locale sequence_container =
  fixes push :: "'s \<Rightarrow> 'a \<Rightarrow> 's res"
    and pop :: "'s \<Rightarrow> 's res"
    and clear :: "'s \<Rightarrow> 's res"
    and lookup :: "'s \<Rightarrow> nat \<Rightarrow> 'a option res"
    and holds :: "'s \<Rightarrow> 'a list \<Rightarrow> bool"
  assumes push_holds: "holds s xs \<Longrightarrow> \<exists>s'. push s x = Inr s' \<and> holds s' (xs @ [x])"
    and pop_holds: "holds s (xs @ [x]) \<Longrightarrow> \<exists>s'. pop s = Inr s' \<and> holds s' xs"
    and clear_holds: "holds s xs \<Longrightarrow> \<exists>s'. clear s = Inr s' \<and> holds s' []"
    and lookup_holds: "holds s xs \<Longrightarrow> lookup s i = Inr (if i < length xs then Some (xs ! i) else None)"
begin

lemma run_holds:
  "holds s xs \<Longrightarrow> seq_legal (length xs) ps \<Longrightarrow>
   \<exists>s'. container_run push pop clear s ps = Inr s' \<and> holds s' (seq_run xs ps)"
proof (induction ps arbitrary: s xs)
  case (Cons p ps)
  show ?case
  proof (cases p)
    case (PushBack x)
    obtain s1 where "push s x = Inr s1" "holds s1 (xs @ [x])" using push_holds [OF Cons.prems(1)] by blast
    with Cons.IH [of s1 "xs @ [x]"] Cons.prems(2) PushBack show ?thesis by simp
  next
    case PopBack
    then obtain ys y where xs: "xs = ys @ [y]" using Cons.prems(2) by (cases xs rule: rev_cases) auto
    obtain s1 where "pop s = Inr s1" "holds s1 ys" using pop_holds Cons.prems(1) xs by blast
    with Cons.IH [of s1 ys] Cons.prems(2) PopBack xs show ?thesis by simp
  next
    case Clear
    obtain s1 where "clear s = Inr s1" "holds s1 []" using clear_holds [OF Cons.prems(1)] by blast
    with Cons.IH [of s1 "[]"] Cons.prems(2) Clear show ?thesis by simp
  qed
qed simp

lemma run_lookup:
  "holds s xs \<Longrightarrow> seq_legal (length xs) ps \<Longrightarrow>
   \<exists>s'. container_run push pop clear s ps = Inr s' \<and> holds s' (seq_run xs ps) \<and>
     (\<forall>i. lookup s' i = Inr (if i < length (seq_run xs ps) then Some (seq_run xs ps ! i) else None))"
  using run_holds lookup_holds by metis

end

abbreviation vec_push :: "'a heap \<times> vector \<Rightarrow> 'a \<Rightarrow> ('a heap \<times> vector) res" where
  "vec_push s x \<equiv> push_back (fst s) (snd s) (Val x)"

lemma vec_at_rep:
  assumes rep: "vec_rep F h v xs"
  shows "vec_at h v i = Inr (if i < length xs then Some (xs ! i) else None)"
proof -
  have "heap_read h (ptr_add (m_begin v) i) = Inr (xs ! i)" if "i < length xs"
    using rep that by (cases rule: vec_rep_cases) (auto simp: heap_read_def read_filled_block)
  then show ?thesis by (simp add: vec_at_def vec_rep_size [OF rep])
qed

interpretation vec: sequence_container vec_push "\<lambda>s. pop_back (fst s) (snd s)" "\<lambda>s. vec_clear (fst s) (snd s)"
  "\<lambda>s. vec_at (fst s) (snd s)" "\<lambda>s. vec_rep F (fst s) (snd s)" for F
proof
  fix s :: "'a heap \<times> vector" and xs :: "'a list" and x i
  assume rep: "vec_rep F (fst s) (snd s) xs"
  show "\<exists>s'. vec_push s x = Inr s' \<and> vec_rep F (fst s') (snd s') (xs @ [x])"
    using emplace_back_rep [OF rep, of x] by (auto simp: push_back_def)
  show "\<exists>s'. vec_clear (fst s) (snd s) = Inr s' \<and> vec_rep F (fst s') (snd s') []"
    using destroy_all_rep [OF rep] by (auto simp: vec_clear_def)
  show "vec_at (fst s) (snd s) i = Inr (if i < length xs then Some (xs ! i) else None)"
    by (rule vec_at_rep [OF rep])
next
  fix s :: "'a heap \<times> vector" and xs :: "'a list" and x
  assume "vec_rep F (fst s) (snd s) (xs @ [x])"
  from pop_back_rep [OF this] show "\<exists>s'. pop_back (fst s) (snd s) = Inr s' \<and> vec_rep F (fst s') (snd s') xs"
    by auto
qed

section \<open>Properties\<close>

text \<open>
  A vector is a list. From a new vector, every sequence of \<^verbatim>\<open>push_back\<close>, \<^verbatim>\<open>pop_back\<close> and
  \<^verbatim>\<open>clear\<close> that pops only from a non-empty vector runs without a lifetime or memory fault,
  leaves exactly the elements of the list and reads them back with \<^verbatim>\<open>at\<close>, which throws
  outside the bounds; the destructor then gives back the heap as it was.\<close>

theorem vector_refines_list:
  assumes "\<forall>b \<ge> hnext h. hblocks h b = None" and "seq_legal 0 ps"
  shows "\<exists>h' v. container_run vec_push (\<lambda>s. pop_back (fst s) (snd s)) (\<lambda>s. vec_clear (fst s) (snd s))
       (h, Vector) ps = Inr (h', v) \<and> vec_size v = length (seq_run [] ps) \<and>
     (\<forall>i. vec_at h' v i = Inr (if i < length (seq_run [] ps) then Some (seq_run [] ps ! i) else None)) \<and>
     (\<exists>h''. Vector_destructor h' v = Inr h'' \<and> hblocks h'' = hblocks h)"
proof -
  have "vec_rep (hblocks h) (fst (h, Vector)) (snd (h, Vector)) []"
    using assms(1) by (simp add: vec_rep_null)
  from vec.run_lookup [OF this, of ps] assms(2) obtain h' v where
    run: "container_run vec_push (\<lambda>s. pop_back (fst s) (snd s)) (\<lambda>s. vec_clear (fst s) (snd s))
       (h, Vector) ps = Inr (h', v)" and rep: "vec_rep (hblocks h) h' v (seq_run [] ps)"
    and at: "\<forall>i. vec_at h' v i = Inr (if i < length (seq_run [] ps) then Some (seq_run [] ps ! i) else None)"
    by auto
  from destroy_and_free_rep [OF rep] have "\<exists>h''. Vector_destructor h' v = Inr h'' \<and> hblocks h'' = hblocks h"
    by (auto simp: Vector_destructor_def vec_rep_null)
  with run at vec_rep_size [OF rep] show ?thesis by blast
qed

theorem vector_refines_list_witness:
  "\<exists>h' v. container_run vec_push (\<lambda>s. pop_back (fst s) (snd s)) (\<lambda>s. vec_clear (fst s) (snd s))
       (empty_heap, Vector) [PushBack (1 :: nat), PushBack 2, PopBack, PushBack 3] = Inr (h', v) \<and>
     vec_at h' v 1 = Inr (Some 3) \<and> vec_at h' v 2 = Inr None"
  using vector_refines_list [of empty_heap "[PushBack (1 :: nat), PushBack 2, PopBack, PushBack 3]"]
  by (auto simp: empty_heap_def)

text \<open>
  Growth by doubling. After \<open>n\<close> insertions into a new vector the capacity is a power
  of two, at least \<open>n\<close> and less than twice \<open>n\<close>.\<close>

theorem push_back_capacity:
  assumes "\<forall>b \<ge> hnext h. hblocks h b = None" and "xs \<noteq> []"
  shows "\<exists>h' v k. container_run vec_push (\<lambda>s. pop_back (fst s) (snd s)) (\<lambda>s. vec_clear (fst s) (snd s))
       (h, Vector) (map PushBack xs) = Inr (h', v) \<and>
     vec_capacity v = 2 ^ k \<and> length xs \<le> vec_capacity v \<and> vec_capacity v < 2 * length xs"
proof -
  let ?run = "container_run vec_push (\<lambda>s. pop_back (fst s) (snd s)) (\<lambda>s. vec_clear (fst s) (snd s))"
  have push: "\<exists>h' v' k. ?run (h, v) (map PushBack ys) = Inr (h', v') \<and> vec_capacity v' = 2 ^ k \<and>
      length (zs @ ys) \<le> vec_capacity v' \<and> vec_capacity v' < 2 * length (zs @ ys)"
    if "vec_rep F h v zs" "vec_capacity v = 2 ^ j" "2 ^ j < 2 * length zs" for F h v zs ys j
    using that
  proof (induction ys arbitrary: h v zs j)
    case Nil
    with vec_rep_le_cap [OF Nil(1)] show ?case by auto
  next
    case (Cons y ys)
    obtain h1 v1 where v1: "emplace_back h v (Val y) = Inr (h1, v1)" "vec_rep F h1 v1 (zs @ [y])"
      "vec_capacity v1 = next_capacity (length zs) (vec_capacity v)"
      using emplace_back_rep [OF Cons.prems(1)] by blast
    have "\<exists>i. vec_capacity v1 = 2 ^ i \<and> 2 ^ i < 2 * length (zs @ [y])"
    proof (cases "length zs = vec_capacity v")
      case True
      then have "vec_capacity v1 = 2 ^ Suc j" using v1(3) Cons.prems(2) by (simp add: next_capacity_def)
      with True Cons.prems(2) show ?thesis by (intro exI [of _ "Suc j"]) simp
    next
      case False
      with v1(3) Cons.prems(2,3) show ?thesis by (auto simp: next_capacity_def)
    qed
    with Cons.IH [OF v1(2)] v1(1) show ?case by (fastforce simp: push_back_def)
  qed
  obtain x ys where xs: "xs = x # ys" using assms(2) by (cases xs) auto
  have "vec_rep (hblocks h) h Vector []" using assms(1) by (simp add: vec_rep_null)
  from emplace_back_rep [OF this, of x] obtain h1 v1 where
    v1: "emplace_back h Vector (Val x) = Inr (h1, v1)" "vec_rep (hblocks h) h1 v1 [x]" "vec_capacity v1 = 2 ^ 0"
    by (auto simp: next_capacity_def vec_capacity_def)
  from push [OF v1(2,3), of ys] v1(1) xs show ?thesis by (simp add: push_back_def)
qed

theorem push_back_capacity_witness:
  "\<exists>h' v k. container_run vec_push (\<lambda>s. pop_back (fst s) (snd s)) (\<lambda>s. vec_clear (fst s) (snd s))
       (empty_heap, Vector) (map PushBack [7 :: nat, 8, 9]) = Inr (h', v) \<and>
     vec_capacity v = 2 ^ k \<and> 3 \<le> vec_capacity v \<and> vec_capacity v < 6"
  using push_back_capacity [of empty_heap "[7 :: nat, 8, 9]"] by (auto simp: empty_heap_def)

text \<open>
  C20. Resizing. On a vector with storage, \<^verbatim>\<open>resize\<close> within the capacity truncates or extends
  with default elements; beyond the capacity it never succeeds: the loop compares the new
  end pointer with one into the storage just released and constructs elements past the end
  of the new block.\<close>

theorem resize_exact:
  assumes "vec_rep F h v xs" and "m_begin v \<noteq> None"
  shows "(n \<le> vec_capacity v \<longrightarrow> (\<exists>h' v'. vec_resize d h v n = Inr (h', v') \<and>
       vec_rep F h' v' (take n xs @ replicate (n - length xs) d))) \<and>
     (vec_capacity v < n \<longrightarrow> vec_resize d h v n = Inl OutOfBounds)"
proof (cases "n \<le> length xs")
  case True
  with resize_shrink [OF assms True] vec_rep_le_cap [OF assms(1)] show ?thesis by simp
next
  case False
  with resize_fits [OF assms, of n d] resize_overrun [OF assms, of n d] show ?thesis by simp
qed

theorem resize_exact_witness:
  "\<exists>h v. emplace_back empty_heap Vector (Val (5 :: nat)) = Inr (h, v) \<and>
     vec_resize 0 h v 4 = Inl OutOfBounds \<and> (\<exists>h' v'. vec_resize 0 h v 0 = Inr (h', v'))"
proof -
  have "vec_rep Map.empty (empty_heap :: nat heap) Vector []" by (simp add: vec_rep_null empty_heap_def)
  from emplace_back_rep [OF this, of 5] obtain h v where
    v: "emplace_back empty_heap Vector (Val (5 :: nat)) = Inr (h, v)" "vec_rep Map.empty h v [5]" "vec_capacity v = 1"
    by (auto simp: next_capacity_def vec_capacity_def)
  then have "m_begin v \<noteq> None" using vec_rep_null_cap [OF v(2)] by simp
  with v resize_exact [OF v(2), of 4 0] resize_exact [OF v(2), of 0 0] show ?thesis by auto
qed

text \<open>
  Inserting an own element. \<^verbatim>\<open>push_back\<close> of a reference to an element of the vector
  itself, when the vector is full, reads the element after its storage was released.\<close>

theorem push_back_own_element:
  assumes "vec_rep F h v xs" and "vec_capacity v = length xs" and "i < length xs"
  shows "push_back h v (Ref (ptr_add (m_begin v) i)) = Inl UseAfterFree"
  using assms by (rule push_own_full)

theorem push_back_own_element_witness:
  "\<exists>h v. emplace_back empty_heap Vector (Val (5 :: nat)) = Inr (h, v) \<and>
     push_back h v (Ref (ptr_add (m_begin v) 0)) = Inl UseAfterFree"
proof -
  have "vec_rep Map.empty (empty_heap :: nat heap) Vector []" by (simp add: vec_rep_null empty_heap_def)
  from emplace_back_rep [OF this, of 5] obtain h v where
    v: "emplace_back empty_heap Vector (Val (5 :: nat)) = Inr (h, v)" "vec_rep Map.empty h v [5]" "vec_capacity v = 1"
    by (auto simp: next_capacity_def vec_capacity_def)
  with push_back_own_element [OF v(2), of 0] show ?thesis by auto
qed

text \<open>
  Copy construction. The copy of a vector with storage holds the same elements in
  storage of its own and of the same capacity, and leaves the original as it is; copying a
  vector without storage fails the assertion of \<^verbatim>\<open>_allocate\<close>.\<close>

theorem vector_copy_exact:
  assumes "vec_rep F h other xs"
  shows "if vec_capacity other = 0 then Vector_copy h other = Inl AssertFailed
     else \<exists>h' v. Vector_copy h other = Inr (h', v) \<and> vec_rep (hblocks h) h' v xs \<and>
       vec_capacity v = vec_capacity other \<and> vec_size v = vec_size other"
proof (cases "vec_capacity other = 0")
  case True
  then show ?thesis by (simp add: Vector_copy_def allocate_from_nullptr_def vec_allocate_def)
next
  case False
  with vec_rep_null_cap [OF assms] have "m_begin other \<noteq> None" by simp
  from Vector_copy_rep [OF assms this] False vec_rep_size [OF assms] show ?thesis
    by (auto dest: vec_rep_size)
qed

theorem vector_copy_exact_witness:
  "Vector_copy (empty_heap :: nat heap) Vector = Inl AssertFailed"
  using vector_copy_exact [of Map.empty "empty_heap :: nat heap" Vector "[]"]
  by (simp add: vec_rep_null empty_heap_def vec_capacity_def)

text \<open>
  Copy assignment. From another vector of the same size it gives the same elements;
  from a longer one it assigns to storage that holds no object; from a shorter one it
  forgets the elements beyond, and the destructor releases their storage while they are
  alive.\<close>

theorem copy_assign_exact:
  assumes "vec_rep F h v ys" and "F c = Some (filled_block xs j)"
    and "other = \<lparr>m_begin = Some (c, 0), m_end = Some (c, length xs), m_cap = Some (c, length xs + j)\<rparr>"
  shows "(length ys < length xs \<longrightarrow> vec_copy_assign h v other = Inl DeadObject) \<and>
     (length xs = length ys \<and> m_begin v \<noteq> None \<longrightarrow>
        (\<exists>h' v'. vec_copy_assign h v other = Inr (h', v') \<and> vec_rep F h' v' xs)) \<and>
     (length xs < length ys \<longrightarrow>
        (\<exists>h' v'. vec_copy_assign h v other = Inr (h', v') \<and> Vector_destructor h' v' = Inl LiveObject))"
  using assms by (rule assign_cases)

theorem copy_assign_exact_witness:
  "vec_copy_assign \<lparr>hblocks = [0 \<mapsto> [Some (7 :: nat), None]], hnext = 1\<rparr> Vector
     \<lparr>m_begin = Some (0, 0), m_end = Some (0, 1), m_cap = Some (0, 2)\<rparr> = Inl DeadObject"
proof -
  let ?F = "[0 \<mapsto> [Some (7 :: nat), None]]"
  have "vec_rep ?F \<lparr>hblocks = ?F, hnext = 1\<rparr> Vector []" by (simp add: vec_rep_null)
  from copy_assign_exact [OF this, of 0 "[7]" 1] show ?thesis by (simp add: filled_block_def numeral_2_eq_2)
qed

end
