(* ===== verification/Vector_Program.thy ===== *)
theory Vector_Program
  imports Fiah_Vector
begin

text \<open>
  Programs with several vectors of \<^verbatim>\<open>structs/Vector.hh\<close> on one heap: constructors, the copy and move
  operations between two vectors or from a vector to itself, the modifiers with arguments from outside
  or from an element of a vector, loops from \<^verbatim>\<open>begin()\<close> to \<^verbatim>\<open>end()\<close>, and destructors. The vectors that
  are alive are a map from names to their three pointers; each owns its block alone.
\<close>

section \<open>Loops over a vector\<close>

definition vec_begin :: "vector \<Rightarrow> ptr" where
  "vec_begin v = m_begin v"

definition vec_end :: "vector \<Rightarrow> ptr" where
  "vec_end v = m_end v"

lemma read_room: "heap_read h p = Inr x \<Longrightarrow> room_above h (ptr_add p 1) < room_above h p"
  by (auto simp: heap_read_def read_at_def room_above_def split: option.splits if_splits)

text \<open>The loop \<^verbatim>\<open>for (auto& x : v)\<close>, with the elements it visits.\<close>

function range_loop :: "'a heap \<Rightarrow> ptr \<Rightarrow> ptr \<Rightarrow> 'a list res" where
  "range_loop h p stop =
     (if p = stop then Inr []
      else bind_res (heap_read h p) (\<lambda>x. bind_res (range_loop h (ptr_add p 1) stop) (\<lambda>xs. Inr (x # xs))))"
  by pat_completeness auto

termination
  by (relation "measure (\<lambda>(h, p, stop). room_above h p)") (simp_all add: read_room del: One_nat_def)

declare range_loop.simps [simp del]

definition range_for :: "'a heap \<Rightarrow> vector \<Rightarrow> 'a list res" where
  "range_for h v = range_loop h (vec_begin v) (vec_end v)"

lemma range_loop_block:
  assumes "hblocks h b = Some (filled_block xs k)" "i \<le> length xs"
  shows "range_loop h (Some (b, i)) (Some (b, length xs)) = Inr (drop i xs)"
  using assms(2)
proof (induction "length xs - i" arbitrary: i)
  case 0
  then show ?case by (simp add: range_loop.simps)
next
  case (Suc n)
  then have "range_loop h (Some (b, Suc i)) (Some (b, length xs)) = Inr (drop (Suc i) xs)" by (intro Suc.hyps(1)) auto
  moreover have "heap_read h (Some (b, i)) = Inr (xs ! i)"
    using Suc.hyps(2) assms(1) by (intro heap_read_own [where st = "filled_block xs k"] read_filled_block) auto
  ultimately show ?case using Suc.hyps(2) by (subst range_loop.simps) (simp add: Cons_nth_drop_Suc)
qed

lemma range_for_rep: "vec_rep F h v xs \<Longrightarrow> range_for h v = Inr xs"
proof (erule vec_rep_cases)
  fix b k assume "v = \<lparr>m_begin = Some (b, 0), m_end = Some (b, length xs), m_cap = Some (b, length xs + k)\<rparr>"
    "hblocks h = F(b \<mapsto> filled_block xs k)"
  with range_loop_block [of h b xs k 0] show ?thesis by (simp add: range_for_def vec_begin_def vec_end_def)
qed (simp add: range_for_def vec_begin_def vec_end_def range_loop.simps)

section \<open>Calls\<close>

datatype 'a vcall =
  VDefault nat | VReserved nat nat | VCopy nat nat | VMove nat nat | VAssign nat nat | VMoveAssign nat nat
  | VPush nat 'a | VPushElement nat nat nat | VPop nat | VClear nat | VReserve nat nat | VResize nat nat | VDestroy nat

definition with_vector :: "(nat \<rightharpoonup> vector) \<Rightarrow> nat \<Rightarrow> (vector \<Rightarrow> 'r res) \<Rightarrow> 'r res" where
  "with_vector S x f = (case S x of None \<Rightarrow> Inl DeadObject | Some v \<Rightarrow> f v)"

definition store_vector :: "(nat \<rightharpoonup> vector) \<Rightarrow> nat \<Rightarrow> ('a heap \<times> vector) res \<Rightarrow> ('a heap \<times> (nat \<rightharpoonup> vector)) res" where
  "store_vector S x r = bind_res r (\<lambda>(h, v). Inr (h, S(x \<mapsto> v)))"

text \<open>
  Move assignment by names, so that source and target may be the same vector: the target is
  released first, then takes the pointers the source has by then, then the source is emptied.
\<close>

definition move_assign_names :: "'a heap \<Rightarrow> (nat \<rightharpoonup> vector) \<Rightarrow> nat \<Rightarrow> nat \<Rightarrow> ('a heap \<times> (nat \<rightharpoonup> vector)) res" where
  "move_assign_names h S x y =
     with_vector S x (\<lambda>v.
       bind_res (store_vector S x (destroy_and_free h v)) (\<lambda>(h, S).
         with_vector S y (\<lambda>other. Inr (h, S(x \<mapsto> other, y \<mapsto> Vector)))))"

fun vcall_exec :: "'a \<Rightarrow> 'a heap \<times> (nat \<rightharpoonup> vector) \<Rightarrow> 'a vcall \<Rightarrow> ('a heap \<times> (nat \<rightharpoonup> vector)) res" where
  "vcall_exec d (h, S) (VDefault x) = Inr (h, S(x \<mapsto> Vector))"
| "vcall_exec d (h, S) (VReserved x n) = store_vector S x (Vector_reserve_initial h n)"
| "vcall_exec d (h, S) (VCopy x y) = with_vector S y (\<lambda>other. store_vector S x (Vector_copy h other))"
| "vcall_exec d (h, S) (VMove x y) =
     with_vector S y (\<lambda>other. let (v, other) = Vector_move other in Inr (h, S(x \<mapsto> v, y \<mapsto> other)))"
| "vcall_exec d (h, S) (VAssign x y) =
     with_vector S x (\<lambda>v. with_vector S y (\<lambda>other. store_vector S x (vec_copy_assign h v other)))"
| "vcall_exec d (h, S) (VMoveAssign x y) = move_assign_names h S x y"
| "vcall_exec d (h, S) (VPush x a) = with_vector S x (\<lambda>v. store_vector S x (push_back h v (Val a)))"
| "vcall_exec d (h, S) (VPushElement x y i) =
     with_vector S x (\<lambda>v. with_vector S y (\<lambda>w. store_vector S x (push_back h v (Ref (ptr_add (m_begin w) i)))))"
| "vcall_exec d (h, S) (VPop x) = with_vector S x (\<lambda>v. store_vector S x (pop_back h v))"
| "vcall_exec d (h, S) (VClear x) = with_vector S x (\<lambda>v. store_vector S x (vec_clear h v))"
| "vcall_exec d (h, S) (VReserve x n) = with_vector S x (\<lambda>v. store_vector S x (vec_reserve h v n))"
| "vcall_exec d (h, S) (VResize x n) = with_vector S x (\<lambda>v. store_vector S x (vec_resize d h v n))"
| "vcall_exec d (h, S) (VDestroy x) = with_vector S x (\<lambda>v. bind_res (Vector_destructor h v) (\<lambda>h. Inr (h, S(x := None))))"

text \<open>
  The names of a call are alive, or new for a constructor, and a reference to an element refers to one.
\<close>

fun vcall_named :: "(nat \<rightharpoonup> vector) \<Rightarrow> 'a vcall \<Rightarrow> bool" where
  "vcall_named S (VDefault x) \<longleftrightarrow> S x = None"
| "vcall_named S (VReserved x n) \<longleftrightarrow> S x = None"
| "vcall_named S (VCopy x y) \<longleftrightarrow> S x = None \<and> S y \<noteq> None"
| "vcall_named S (VMove x y) \<longleftrightarrow> S x = None \<and> S y \<noteq> None"
| "vcall_named S (VAssign x y) \<longleftrightarrow> S x \<noteq> None \<and> S y \<noteq> None"
| "vcall_named S (VMoveAssign x y) \<longleftrightarrow> S x \<noteq> None \<and> S y \<noteq> None"
| "vcall_named S (VPush x a) \<longleftrightarrow> S x \<noteq> None"
| "vcall_named S (VPushElement x y i) \<longleftrightarrow> S x \<noteq> None \<and> (case S y of None \<Rightarrow> False | Some w \<Rightarrow> i < vec_size w)"
| "vcall_named S (VPop x) \<longleftrightarrow> S x \<noteq> None"
| "vcall_named S (VClear x) \<longleftrightarrow> S x \<noteq> None"
| "vcall_named S (VReserve x n) \<longleftrightarrow> S x \<noteq> None"
| "vcall_named S (VResize x n) \<longleftrightarrow> S x \<noteq> None"
| "vcall_named S (VDestroy x) \<longleftrightarrow> S x \<noteq> None"

text \<open>
  Among these calls, the ones that are safe. The source states some of the conditions as assertions (a
  size that is not zero for storage, a vector that is not empty for \<^verbatim>\<open>pop_back\<close>); the others are not stated anywhere:
  copy assignment needs vectors of one size and storage in the target, the copy constructor storage in the
  source, \<^verbatim>\<open>resize\<close> a size within the capacity, and inserting an element of the same vector room for it.
\<close>

fun vcall_legal :: "(nat \<rightharpoonup> vector) \<Rightarrow> 'a vcall \<Rightarrow> bool" where
  "vcall_legal S (VDefault x) \<longleftrightarrow> S x = None"
| "vcall_legal S (VReserved x n) \<longleftrightarrow> S x = None \<and> 0 < n"
| "vcall_legal S (VCopy x y) \<longleftrightarrow> S x = None \<and> (case S y of None \<Rightarrow> False | Some w \<Rightarrow> 0 < vec_capacity w)"
| "vcall_legal S (VMove x y) \<longleftrightarrow> S x = None \<and> S y \<noteq> None"
| "vcall_legal S (VAssign x y) \<longleftrightarrow>
     (case (S x, S y) of (Some v, Some w) \<Rightarrow> vec_size w = vec_size v \<and> 0 < vec_capacity v | _ \<Rightarrow> False)"
| "vcall_legal S (VMoveAssign x y) \<longleftrightarrow> S x \<noteq> None \<and> S y \<noteq> None"
| "vcall_legal S (VPush x a) \<longleftrightarrow> S x \<noteq> None"
| "vcall_legal S (VPushElement x y i) \<longleftrightarrow>
     (case (S x, S y) of (Some v, Some w) \<Rightarrow> i < vec_size w \<and> (x = y \<longrightarrow> vec_size v < vec_capacity v) | _ \<Rightarrow> False)"
| "vcall_legal S (VPop x) \<longleftrightarrow> (case S x of None \<Rightarrow> False | Some v \<Rightarrow> 0 < vec_size v)"
| "vcall_legal S (VClear x) \<longleftrightarrow> S x \<noteq> None"
| "vcall_legal S (VReserve x n) \<longleftrightarrow> (case S x of None \<Rightarrow> False | Some v \<Rightarrow> 0 < n \<or> 0 < vec_capacity v)"
| "vcall_legal S (VResize x n) \<longleftrightarrow>
     (case S x of None \<Rightarrow> False | Some v \<Rightarrow> if vec_capacity v = 0 then 0 < n else n \<le> vec_capacity v)"
| "vcall_legal S (VDestroy x) \<longleftrightarrow> S x \<noteq> None"

text \<open>
  What the other calls do: copy assignment from a shorter vector forgets elements, all others are faults.
\<close>

fun vcall_forgets :: "(nat \<rightharpoonup> vector) \<Rightarrow> 'a vcall \<Rightarrow> nat option" where
  "vcall_forgets S (VAssign x y) = (case (S x, S y) of (Some v, Some w) \<Rightarrow> if vec_size w < vec_size v then Some x else None | _ \<Rightarrow> None)"
| "vcall_forgets S _ = None"

fun vcall_error :: "(nat \<rightharpoonup> vector) \<Rightarrow> 'a vcall \<Rightarrow> ub" where
  "vcall_error S (VAssign x y) = (case (S x, S y) of (Some v, Some w) \<Rightarrow> if vec_size v < vec_size w then DeadObject else AssertFailed | _ \<Rightarrow> DeadObject)"
| "vcall_error S (VPushElement x y i) = UseAfterFree"
| "vcall_error S (VResize x n) = (case S x of Some v \<Rightarrow> if vec_capacity v = 0 then AssertFailed else OutOfBounds | None \<Rightarrow> DeadObject)"
| "vcall_error S _ = AssertFailed"

text \<open>The same calls on lists.\<close>

fun vcall_spec :: "'a \<Rightarrow> (nat \<rightharpoonup> 'a list) \<Rightarrow> 'a vcall \<Rightarrow> (nat \<rightharpoonup> 'a list)" where
  "vcall_spec d A (VDefault x) = A(x \<mapsto> [])"
| "vcall_spec d A (VReserved x n) = A(x \<mapsto> [])"
| "vcall_spec d A (VCopy x y) = A(x := A y)"
| "vcall_spec d A (VMove x y) = A(x := A y, y \<mapsto> [])"
| "vcall_spec d A (VAssign x y) = A(x := A y)"
| "vcall_spec d A (VMoveAssign x y) = (if x = y then A(x \<mapsto> []) else A(x := A y, y \<mapsto> []))"
| "vcall_spec d A (VPush x a) = A(x \<mapsto> the (A x) @ [a])"
| "vcall_spec d A (VPushElement x y i) = A(x \<mapsto> the (A x) @ [the (A y) ! i])"
| "vcall_spec d A (VPop x) = A(x \<mapsto> butlast (the (A x)))"
| "vcall_spec d A (VClear x) = A(x \<mapsto> [])"
| "vcall_spec d A (VReserve x n) = A"
| "vcall_spec d A (VResize x n) = A(x \<mapsto> take n (the (A x)) @ replicate (n - length (the (A x))) d)"
| "vcall_spec d A (VDestroy x) = A(x := None)"

text \<open>A program makes legal calls, and its lists follow.\<close>

inductive vprogram_step ::
  "'a \<Rightarrow> ('a heap \<times> (nat \<rightharpoonup> vector)) \<times> (nat \<rightharpoonup> 'a list) \<Rightarrow> ('a heap \<times> (nat \<rightharpoonup> vector)) \<times> (nat \<rightharpoonup> 'a list) \<Rightarrow> bool" for d where
  vprogram_call: "vcall_legal (snd c) p \<Longrightarrow> vcall_exec d c p = Inr c' \<Longrightarrow> vprogram_step d (c, A) (c', vcall_spec d A p)"

inductive_cases vprogram_step_elim: "vprogram_step d s t"

definition vprogram_start :: "('a heap \<times> (nat \<rightharpoonup> vector)) \<times> (nat \<rightharpoonup> 'a list) \<Rightarrow> bool" where
  "vprogram_start s \<longleftrightarrow> s = ((empty_heap, Map.empty), Map.empty)"

section \<open>Ownership\<close>

text \<open>
  Every vector holds its list in storage of its own, no two share a block, and every block of the heap belongs to a vector.
\<close>

definition vectors_rep :: "'a heap \<Rightarrow> (nat \<rightharpoonup> vector) \<Rightarrow> (nat \<rightharpoonup> 'a list) \<Rightarrow> bool" where
  "vectors_rep h S A \<longleftrightarrow>
     (\<forall>x v. S x = Some v \<longrightarrow> (\<exists>F xs. A x = Some xs \<and> vec_rep F h v xs)) \<and> (\<forall>x. S x = None \<longrightarrow> A x = None) \<and>
     (\<forall>x y v w. S x = Some v \<longrightarrow> S y = Some w \<longrightarrow> x \<noteq> y \<longrightarrow> m_begin v \<noteq> None \<longrightarrow> m_begin v \<noteq> m_begin w) \<and>
     (\<forall>b. hblocks h b \<noteq> None \<longrightarrow> b < hnext h \<and> (\<exists>x v. S x = Some v \<and> m_begin v = Some (b, 0)))"

lemma vectors_repD:
  assumes "vectors_rep h S A" "S x = Some v"
  obtains F xs where "A x = Some xs" "vec_rep F h v xs"
  using assms unfolding vectors_rep_def by blast

lemma vectors_rep_simps:
  assumes "vectors_rep h S A"
  shows "S x = None \<Longrightarrow> A x = None" "S x = Some v \<Longrightarrow> S y = Some w \<Longrightarrow> x \<noteq> y \<Longrightarrow> m_begin v \<noteq> None \<Longrightarrow> m_begin v \<noteq> m_begin w"
    "hblocks h b \<noteq> None \<Longrightarrow> b < hnext h" "hblocks h b \<noteq> None \<Longrightarrow> \<exists>x v. S x = Some v \<and> m_begin v = Some (b, 0)"
    "vec_rep (hblocks h) h Vector []"
  using assms by (simp_all add: vectors_rep_def vec_rep_null not_le) (metis not_le option.exhaust)

lemma vec_rep_begin: "vec_rep F h v xs \<Longrightarrow> m_begin v \<noteq> None \<Longrightarrow> \<exists>b. m_begin v = Some (b, 0) \<and> F b = None \<and> hblocks h b \<noteq> None"
  by (erule vec_rep_cases) auto

lemma vec_rep_frame: "vec_rep F h v xs \<Longrightarrow> F c \<noteq> None \<Longrightarrow> hblocks h c = F c"
  by (erule vec_rep_cases) auto

text \<open>The frame of another vector's step: a vector with its block unchanged holds the same list.\<close>

lemma vec_rep_transfer:
  assumes "vec_rep F h v xs" "\<And>b. m_begin v = Some (b, 0) \<Longrightarrow> hblocks h' b = hblocks h b"
    and "\<forall>b \<ge> hnext h'. hblocks h' b = None"
  shows "\<exists>F'. vec_rep F' h' v xs"
  using assms(1)
proof (cases rule: vec_rep_cases)
  case null
  with assms(3) show ?thesis by (auto simp: vec_rep_null)
next
  case (block b k)
  have b: "hblocks h' b = Some (filled_block xs k)" using assms(2) [of b] block by simp
  with assms(3) have lt: "b < hnext h'" by (metis not_le option.distinct(1))
  have "vec_rep ((hblocks h')(b := None)) h' v xs"
    unfolding block(1) by (rule vec_repI [where k = k]) (use assms(3) block(4) b lt in \<open>auto simp: fun_upd_idem\<close>)
  then show ?thesis by blast
qed

lemma vec_rep_bound: "vec_rep F h v xs \<Longrightarrow> \<forall>b \<ge> hnext h. hblocks h b = None"
  by (erule vec_rep_cases) auto

lemma vec_rep_cover: "vec_rep F h v xs \<Longrightarrow> hblocks h b \<noteq> None \<Longrightarrow> m_begin v \<noteq> Some (b, 0) \<Longrightarrow> F b \<noteq> None"
  by (erule vec_rep_cases) (auto split: if_splits)

lemma vectors_rep_other:
  assumes all: "vectors_rep h S A" and x: "S x = Some v" "vec_rep F h v xs" and y: "S y = Some w" "y \<noteq> x" "m_begin w = Some (c, 0)"
  shows "F c \<noteq> None"
proof -
  obtain G ys where "vec_rep G h w ys" using vectors_repD [OF all y(1)] by blast
  then have "hblocks h c \<noteq> None" using vec_rep_begin [of G h w ys] y(3) by auto
  moreover have "m_begin v \<noteq> Some (c, 0)" using vectors_rep_simps(2) [OF all y(1) x(1) y(2)] y(3) by auto
  ultimately show ?thesis using vec_rep_cover [OF x(2)] by blast
qed

text \<open>A step of one vector that keeps its frame leaves all other vectors as they are.\<close>

lemma vectors_rep_step:
  assumes all: "vectors_rep h S A" and x: "S x = Some v" "vec_rep F h v xs" and new: "vec_rep F h' v' xs'"
  shows "vectors_rep h' (S(x \<mapsto> v')) (A(x \<mapsto> xs'))"
proof -
  note other = vectors_rep_other [OF all x]
  have keep: "\<exists>G ys. A y = Some ys \<and> vec_rep G h' w ys" if y: "S y = Some w" "y \<noteq> x" for y w
  proof -
    obtain G ys where G: "A y = Some ys" "vec_rep G h w ys" using vectors_repD [OF all y(1)] by blast
    have "hblocks h' b = hblocks h b" if "m_begin w = Some (b, 0)" for b
      using other [OF y that] vec_rep_frame [OF x(2)] vec_rep_frame [OF new] by metis
    from vec_rep_transfer [OF G(2) this vec_rep_bound [OF new]] G(1) show ?thesis by blast
  qed
  have apart: "m_begin v' \<noteq> m_begin w" if y: "S y = Some w" "y \<noteq> x" and nn: "m_begin w \<noteq> None \<or> m_begin v' \<noteq> None" for y w
  proof
    assume eq: "m_begin v' = m_begin w"
    with nn vec_rep_begin [OF new] obtain b where "m_begin v' = Some (b, 0)" "F b = None" by auto
    with other [OF y, of b] eq show False by simp
  qed
  have owned: "b < hnext h' \<and> (\<exists>y w. (S(x \<mapsto> v')) y = Some w \<and> m_begin w = Some (b, 0))" if b: "hblocks h' b \<noteq> None" for b
  proof (intro conjI)
    show "b < hnext h'" using vec_rep_bound [OF new] b by (metis not_le)
    show "\<exists>y w. (S(x \<mapsto> v')) y = Some w \<and> m_begin w = Some (b, 0)"
    proof (cases "m_begin v' = Some (b, 0)")
      case False
      with new b have Fb: "F b \<noteq> None" by (intro vec_rep_cover)
      then have "hblocks h b \<noteq> None" using vec_rep_frame [OF x(2)] by simp
      then obtain y w where y: "S y = Some w" "m_begin w = Some (b, 0)" using vectors_rep_simps(4) [OF all] by blast
      have "y \<noteq> x" using y x(1) Fb vec_rep_begin [OF x(2)] by auto
      with y show ?thesis by auto
    qed auto
  qed
  note dead = vectors_rep_simps(1) [OF all] and old = vectors_rep_simps(2) [OF all]
  show ?thesis unfolding vectors_rep_def
  proof (intro conjI allI impI)
    fix y w assume "(S(x \<mapsto> v')) y = Some w"
    then show "\<exists>G ys. (A(x \<mapsto> xs')) y = Some ys \<and> vec_rep G h' w ys" using keep new by (cases "y = x") auto
  next
    fix y assume "(S(x \<mapsto> v')) y = None"
    then show "(A(x \<mapsto> xs')) y = None" using dead by (auto split: if_splits)
  next
    fix y z w u assume "(S(x \<mapsto> v')) y = Some w" "(S(x \<mapsto> v')) z = Some u" "y \<noteq> z" "m_begin w \<noteq> None"
    then show "m_begin w \<noteq> m_begin u" using old [of y w z u] apart [of z u] apart [of y w] by (auto split: if_splits)
  qed (use owned in auto)
qed

text \<open>A new vector without storage, and handing the storage of one to another that has none.\<close>

lemma vectors_rep_new:
  assumes all: "vectors_rep h S A" and x: "S x = None"
  shows "vectors_rep h (S(x \<mapsto> Vector)) (A(x \<mapsto> []))" "vec_rep (hblocks h) h Vector []"
proof -
  show rep: "vec_rep (hblocks h) h Vector []" by (rule vectors_rep_simps(5) [OF all])
  have own: "\<exists>y w. (S(x \<mapsto> Vector)) y = Some w \<and> m_begin w = Some (b, 0)" if b: "hblocks h b \<noteq> None" for b
  proof -
    obtain y w where y: "S y = Some w" "m_begin w = Some (b, 0)" using vectors_rep_simps(4) [OF all b] by blast
    with x have "y \<noteq> x" by auto
    with y show ?thesis by auto
  qed
  show "vectors_rep h (S(x \<mapsto> Vector)) (A(x \<mapsto> []))"
    using all rep own unfolding vectors_rep_def by (auto split: if_splits)
qed

lemma vectors_rep_hand:
  assumes all: "vectors_rep h S A" and x: "S x = Some Vector" and y: "S y = Some w" "x \<noteq> y"
  shows "vectors_rep h (S(x \<mapsto> w, y \<mapsto> Vector)) (A(x := A y, y \<mapsto> []))"
proof -
  note null = vectors_rep_simps(5) [OF all]
  have own: "\<exists>z u. (S(x \<mapsto> w, y \<mapsto> Vector)) z = Some u \<and> m_begin u = Some (b, 0)" if b: "hblocks h b \<noteq> None" for b
  proof -
    obtain z u where z: "S z = Some u" "m_begin u = Some (b, 0)" using vectors_rep_simps(4) [OF all b] by blast
    show ?thesis
    proof (cases "z = y")
      case True
      with z y show ?thesis by (intro exI [of _ x]) auto
    next
      case False
      with z x show ?thesis by (intro exI [of _ z]) auto
    qed
  qed
  have rep: "\<exists>F xs. (A(x := A y, y \<mapsto> [])) z = Some xs \<and> vec_rep F h u xs" if "(S(x \<mapsto> w, y \<mapsto> Vector)) z = Some u" for z u
    using that null y vectors_repD [OF all] by (auto split: if_splits) (metis vectors_repD [OF all])+
  note old = vectors_rep_simps(2) [OF all]
  have apart: "m_begin u \<noteq> m_begin t" if "(S(x \<mapsto> w, y \<mapsto> Vector)) z = Some u" "(S(x \<mapsto> w, y \<mapsto> Vector)) z' = Some t" "z \<noteq> z'" "m_begin u \<noteq> None" for z z' u t
    using that y old [of y w z' t] old [of z u y w] old [of z u z' t] by (auto split: if_splits)
  show ?thesis unfolding vectors_rep_def
    using rep apart own all y(1) by (auto simp: vectors_rep_def split: if_splits)
qed

lemma vectors_rep_drop:
  assumes all: "vectors_rep h S A" and x: "S x = Some Vector"
  shows "vectors_rep h (S(x := None)) (A(x := None))"
proof -
  have own: "\<exists>y w. (S(x := None)) y = Some w \<and> m_begin w = Some (b, 0)" if b: "hblocks h b \<noteq> None" for b
  proof -
    obtain y w where y: "S y = Some w" "m_begin w = Some (b, 0)" using vectors_rep_simps(4) [OF all b] by blast
    with x have "y \<noteq> x" by auto
    with y show ?thesis by auto
  qed
  with all show ?thesis unfolding vectors_rep_def by (auto split: if_splits)
qed

section \<open>The calls keep the ownership\<close>

lemma store_step:
  assumes "vectors_rep h S A" "S x = Some v"
    and "\<And>F xs. A x = Some xs \<Longrightarrow> vec_rep F h v xs \<Longrightarrow> \<exists>h' v'. r = Inr (h', v') \<and> vec_rep F h' v' (f xs)"
  shows "\<exists>h' S'. store_vector S x r = Inr (h', S') \<and> vectors_rep h' S' (A(x \<mapsto> f (the (A x))))"
proof -
  obtain F xs where F: "A x = Some xs" "vec_rep F h v xs" using vectors_repD [OF assms(1,2)] by blast
  obtain h' v' where "r = Inr (h', v')" "vec_rep F h' v' (f xs)" using assms(3) [OF F] by blast
  with vectors_rep_step [OF assms(1,2) F(2)] F(1) show ?thesis by (simp add: store_vector_def)
qed

lemma store_new:
  assumes "vectors_rep h S A" "S x = None" "\<exists>h' v'. r = Inr (h', v') \<and> vec_rep (hblocks h) h' v' xs"
  shows "\<exists>h' S'. store_vector S x r = Inr (h', S') \<and> vectors_rep h' S' (A(x \<mapsto> xs))"
proof -
  obtain h' v' where "r = Inr (h', v')" "vec_rep (hblocks h) h' v' xs" using assms(3) by blast
  with vectors_rep_step [OF vectors_rep_new(1) [OF assms(1,2)] _ vectors_rep_new(2) [OF assms(1,2)], of x h' v' xs]
  show ?thesis by (simp add: store_vector_def)
qed

text \<open>An argument that refers to an element is read after the storage has grown; elsewhere in the heap, or in a vector with room, it is still there.\<close>

lemma push_back_Ref:
  assumes rep: "vec_rep F h v xs" and ref: "heap_read h p = Inr a"
    and safe: "vec_size v < vec_capacity v \<or> (\<exists>c i. p = Some (c, i) \<and> F c \<noteq> None)"
  shows "push_back h v (Ref p) = push_back h v (Val a)"
proof -
  have still: "heap_read h' p = Inr a" if "vec_rep F h' v' xs'" "\<exists>c i. p = Some (c, i) \<and> F c \<noteq> None" for h' v' xs'
    using that ref vec_rep_frame [OF rep] vec_rep_frame [OF that(1)] by (auto simp: heap_read_def)
  have room: "m_begin v \<noteq> None \<and> m_end v \<noteq> m_cap v" if "vec_size v < vec_capacity v"
    using rep that by (cases rule: vec_rep_cases) (auto simp: vec_size_def vec_capacity_def)
  show ?thesis
  proof (cases "m_begin v \<noteq> None \<and> m_end v \<noteq> m_cap v")
    case True
    with ref show ?thesis by (auto simp: push_back_def emplace_back_def arg_value_def)
  next
    case False
    with room safe have p: "\<exists>c i. p = Some (c, i) \<and> F c \<noteq> None" by blast
    show ?thesis
    proof (cases "m_begin v = None")
      case True
      with allocate_from_nullptr_rep [OF rep True, of 1] still [OF _ p] show ?thesis
        by (auto simp: push_back_def emplace_back_def arg_value_def)
    next
      case nn: False
      then have "0 < vec_capacity v" "length xs \<le> vec_capacity v" using vec_rep_null_cap [OF rep] vec_rep_le_cap [OF rep] by simp_all
      with grow_capacity_rep [OF rep nn, of "vec_capacity v * expansion_mult"] False nn still [OF _ p] show ?thesis
        by (auto simp: push_back_def emplace_back_def arg_value_def expansion_mult_def)
    qed
  qed
qed

lemma sim_push_element:
  assumes all: "vectors_rep h S A" and x: "S x = Some v" and y: "S y = Some w" and i: "i < vec_size w" "x = y \<longrightarrow> vec_size v < vec_capacity v"
  shows "\<exists>h' S'. store_vector S x (push_back h v (Ref (ptr_add (m_begin w) i))) = Inr (h', S') \<and>
    vectors_rep h' S' (A(x \<mapsto> the (A x) @ [the (A y) ! i]))"
proof -
  obtain G ys where G: "A y = Some ys" "vec_rep G h w ys" using vectors_repD [OF all y] by blast
  have len: "i < length ys" using i(1) vec_rep_size [OF G(2)] by simp
  then have nn: "m_begin w \<noteq> None" using vec_rep_null_cap [OF G(2)] vec_rep_le_cap [OF G(2)] by auto
  then obtain b where b: "m_begin w = Some (b, 0)" using vec_rep_begin [OF G(2)] by blast
  have read: "heap_read h (ptr_add (m_begin w) i) = Inr (ys ! i)"
    using G(2) len by (cases rule: vec_rep_cases) (auto simp: heap_read_def read_filled_block)
  show ?thesis
  proof (rule store_step [OF all x])
    fix F xs assume F: "A x = Some xs" "vec_rep F h v xs"
    have "vec_size v < vec_capacity v \<or> (\<exists>c j. ptr_add (m_begin w) i = Some (c, j) \<and> F c \<noteq> None)"
      using i(2) vectors_rep_other [OF all x F(2) y _ b] b by (cases "x = y") auto
    from push_back_Ref [OF F(2) read this] emplace_back_rep [OF F(2), of "ys ! i"]
    show "\<exists>h' v'. push_back h v (Ref (ptr_add (m_begin w) i)) = Inr (h', v') \<and> vec_rep F h' v' (xs @ [the (A y) ! i])"
      using G(1) by (auto simp: push_back_def)
  qed
qed

text \<open>Copy assignment from a vector to itself assigns every element to itself.\<close>

lemma copy_n_self:
  assumes "hblocks h b = Some st" "\<And>j. j < n \<Longrightarrow> \<exists>x. read_at st (i + j) = Inr x"
  shows "copy_n h (Some (b, i)) n (Some (b, i)) = Inr (h, Some (b, i + n))"
  using assms(2)
proof (induction n arbitrary: i)
  case (Suc n)
  obtain x where x: "read_at st i = Inr x" using Suc.prems [of 0] by auto
  then have "st[i := Some x] = st" by (auto simp: read_at_def split: if_splits option.splits) (metis list_update_id)
  with x assms(1) have "heap_assign h (Some (b, i)) x = Inr h"
    by (auto simp: heap_assign_def heap_update_def fun_upd_idem intro!: heap.equality)
  moreover have "copy_n h (Some (b, i + 1)) n (Some (b, i + 1)) = Inr (h, Some (b, i + 1 + n))"
    by (rule Suc.IH) (use Suc.prems [of "Suc j" for j] in auto)
  ultimately show ?case using x assms(1) by (simp add: heap_read_def)
qed simp

lemma assign_self:
  assumes "vec_rep F h v xs" "0 < vec_capacity v"
  shows "vec_copy_assign h v v = Inr (h, v)"
  using assms(1)
proof (cases rule: vec_rep_cases)
  case null
  with assms(2) show ?thesis by (simp add: vec_capacity_def)
next
  case (block b k)
  have "copy_n h (Some (b, 0)) (length xs) (Some (b, 0)) = Inr (h, Some (b, 0 + length xs))"
    by (rule copy_n_self [where st = "filled_block xs k"]) (use block in \<open>auto simp: read_filled_block\<close>)
  with block(1) show ?thesis by (simp add: vec_copy_assign_def vec_reserve_def vec_size_def vec_capacity_def)
qed

lemma sim_assign_self:
  assumes all: "vectors_rep h S A" and x: "S x = Some v" "0 < vec_capacity v"
  shows "\<exists>h' S'. store_vector S x (vec_copy_assign h v v) = Inr (h', S') \<and> vectors_rep h' S' (A(x := A x))"
proof -
  obtain F xs where "vec_rep F h v xs" using vectors_repD [OF all x(1)] by blast
  from assign_self [OF this x(2)] all x(1) show ?thesis by (simp add: store_vector_def fun_upd_idem)
qed

lemma sim_assign:
  assumes all: "vectors_rep h S A" and x: "S x = Some v" and y: "S y = Some w" "x \<noteq> y"
    and len: "vec_size w = vec_size v" "0 < vec_capacity v"
  shows "\<exists>h' S'. store_vector S x (vec_copy_assign h v w) = Inr (h', S') \<and> vectors_rep h' S' (A(x := A y))"
proof -
  obtain G ys where G: "A y = Some ys" "vec_rep G h w ys" using vectors_repD [OF all y(1)] by blast
  have "\<exists>h' S'. store_vector S x (vec_copy_assign h v w) = Inr (h', S') \<and> vectors_rep h' S' (A(x \<mapsto> (\<lambda>_. ys) (the (A x))))"
  proof (rule store_step [OF all x])
    fix F xs assume F: "A x = Some xs" "vec_rep F h v xs"
    have nn: "m_begin v \<noteq> None" using vec_rep_null_cap [OF F(2)] len(2) by simp
    have eq: "length ys = length xs" using len(1) vec_rep_size [OF F(2)] vec_rep_size [OF G(2)] by simp
    show "\<exists>h' v'. vec_copy_assign h v w = Inr (h', v') \<and> vec_rep F h' v' ys"
      using G(2)
    proof (cases rule: vec_rep_cases)
      case null
      with eq nn F(2) vec_rep_end [OF F(2) nn] show ?thesis
        by (auto simp: vec_copy_assign_def vec_reserve_def vec_size_def)
    next
      case (block c j)
      have "F c \<noteq> None" by (rule vectors_rep_other [OF all x F(2) y(1)]) (use y(2) block(1) in auto)
      from vec_rep_frame [OF F(2) this] block(5) have "F c = Some (filled_block ys j)" by simp
      from assign_cases [OF F(2) this block(1)] eq nn show ?thesis by auto
    qed
  qed
  with G(1) show ?thesis by (simp add: fun_upd_def)
qed

lemma sim_move_assign:
  assumes all: "vectors_rep h S A" and x: "S x = Some v" and y: "S y = Some w"
  shows "\<exists>h' S'. move_assign_names h S x y = Inr (h', S') \<and> vectors_rep h' S' (vcall_spec d A (VMoveAssign x y))"
proof -
  obtain F xs where F: "A x = Some xs" "vec_rep F h v xs" using vectors_repD [OF all x] by blast
  obtain h1 where h1: "destroy_and_free h v = Inr (h1, Vector)" "vec_rep F h1 Vector []" using destroy_and_free_rep [OF F(2)] by blast
  have freed: "vectors_rep h1 (S(x \<mapsto> Vector)) (A(x \<mapsto> []))" by (rule vectors_rep_step [OF all x F(2) h1(2)])
  show ?thesis
  proof (cases "x = y")
    case True
    with h1(1) x freed show ?thesis by (simp add: move_assign_names_def with_vector_def store_vector_def)
  next
    case False
    with y have "vectors_rep h1 (S(x \<mapsto> Vector, x \<mapsto> w, y \<mapsto> Vector)) (A(x \<mapsto> [], x := (A(x \<mapsto> [])) y, y \<mapsto> []))"
      by (intro vectors_rep_hand [OF freed]) auto
    with h1(1) x y False show ?thesis by (simp add: move_assign_names_def with_vector_def store_vector_def)
  qed
qed

lemma sim_resize:
  assumes "vectors_rep h S A" "S x = Some v" "if vec_capacity v = 0 then 0 < n else n \<le> vec_capacity v"
  shows "\<exists>h' S'. store_vector S x (vec_resize d h v n) = Inr (h', S') \<and>
    vectors_rep h' S' (A(x \<mapsto> take n (the (A x)) @ replicate (n - length (the (A x))) d))"
proof (rule store_step [OF assms(1,2)])
  fix F xs assume F: "vec_rep F h v xs"
  show "\<exists>h' v'. vec_resize d h v n = Inr (h', v') \<and> vec_rep F h' v' (take n xs @ replicate (n - length xs) d)"
  proof (cases "m_begin v = None")
    case True
    with F have "xs = []" by (simp add: vec_rep_def)
    with resize_null [OF F True, of n d] True assms(3) vec_rep_null_cap [OF F] show ?thesis by auto
  next
    case False
    with resize_shrink [OF F False, of n d] resize_fits [OF F False, of n d] assms(3) vec_rep_null_cap [OF F] show ?thesis
      by (cases "n \<le> length xs") auto
  qed
qed

lemma sim_copy:
  assumes all: "vectors_rep h S A" and x: "S x = None" and w: "S y = Some w" "0 < vec_capacity w"
  shows "\<exists>h' S'. store_vector S x (Vector_copy h w) = Inr (h', S') \<and> vectors_rep h' S' (A(x := A y))"
proof -
  obtain F ys where F: "A y = Some ys" "vec_rep F h w ys" using vectors_repD [OF all w(1)] by blast
  then have "m_begin w \<noteq> None" using vec_rep_null_cap [OF F(2)] w(2) by simp
  from store_new [OF all x, of "Vector_copy h w" ys] Vector_copy_rep [OF F(2) this] F(1) show ?thesis by (auto simp: fun_upd_def)
qed

lemma sim_pop:
  assumes all: "vectors_rep h S A" and v: "S x = Some v" "0 < vec_size v"
  shows "\<exists>h' S'. store_vector S x (pop_back h v) = Inr (h', S') \<and> vectors_rep h' S' (A(x \<mapsto> butlast (the (A x))))"
proof (rule store_step [OF all v(1)])
  fix F xs assume F: "vec_rep F h v xs"
  then have "xs = butlast xs @ [last xs]" using v(2) vec_rep_size [OF F] by auto
  with F pop_back_rep [of F h v "butlast xs" "last xs"] show "\<exists>h' v'. pop_back h v = Inr (h', v') \<and> vec_rep F h' v' (butlast xs)" by auto
qed

lemma sim_reserve:
  assumes all: "vectors_rep h S A" and v: "S x = Some v" "0 < n \<or> 0 < vec_capacity v"
  shows "\<exists>h' S'. store_vector S x (vec_reserve h v n) = Inr (h', S') \<and> vectors_rep h' S' A"
proof -
  have "\<exists>h' S'. store_vector S x (vec_reserve h v n) = Inr (h', S') \<and> vectors_rep h' S' (A(x \<mapsto> (\<lambda>xs. xs) (the (A x))))"
  proof (rule store_step [OF all v(1)])
    fix F xs assume F: "vec_rep F h v xs"
    show "\<exists>h' v'. vec_reserve h v n = Inr (h', v') \<and> vec_rep F h' v' xs"
      using reserve_rep [OF F, of n] v(2) vec_rep_null_cap [OF F] by auto
  qed
  moreover have "A(x \<mapsto> the (A x)) = A" using vectors_repD [OF all v(1)] by (metis fun_upd_triv option.sel)
  ultimately show ?thesis by simp
qed

lemma sim_destroy:
  assumes all: "vectors_rep h S A" and v: "S x = Some v"
  shows "\<exists>h'. Vector_destructor h v = Inr h' \<and> vectors_rep h' (S(x := None)) (A(x := None))"
proof -
  obtain F xs where F: "A x = Some xs" "vec_rep F h v xs" using vectors_repD [OF all v] by blast
  obtain h1 where h1: "destroy_and_free h v = Inr (h1, Vector)" "vec_rep F h1 Vector []" using destroy_and_free_rep [OF F(2)] by blast
  from vectors_rep_drop [OF vectors_rep_step [OF all v F(2) h1(2)], of x] h1(1) show ?thesis by (simp add: Vector_destructor_def)
qed

lemma sim_move:
  assumes all: "vectors_rep h S A" and x: "S x = None" and w: "S y = Some w"
  shows "vectors_rep h (S(x \<mapsto> w, y \<mapsto> Vector)) (A(x := A y, y \<mapsto> []))"
proof -
  have "x \<noteq> y" using x w by auto
  with vectors_rep_hand [OF vectors_rep_new(1) [OF all x], of x y w] w show ?thesis by simp
qed

lemma vcall_sim:
  assumes all: "vectors_rep h S A" and legal: "vcall_legal S p"
  shows "\<exists>h' S'. vcall_exec d (h, S) p = Inr (h', S') \<and> vectors_rep h' S' (vcall_spec d A p)"
proof (cases p)
  case (VReserved x n)
  with legal allocate_from_nullptr_rep [OF vectors_rep_simps(5) [OF all], of n] show ?thesis
    by (auto simp: Vector_reserve_initial_def intro!: store_new [OF all])
next
  case (VPush x a)
  with legal show ?thesis using store_step [OF all, of x _ _ "\<lambda>xs. xs @ [a]"] emplace_back_rep
    by (fastforce simp: with_vector_def push_back_def)
next
  case (VClear x)
  with legal show ?thesis using store_step [OF all, of x _ _ "\<lambda>_. []"] destroy_all_rep
    by (fastforce simp: with_vector_def vec_clear_def)
next
  case (VMoveAssign x y)
  with legal sim_move_assign [OF all, of x _ y _ d] show ?thesis by auto
next
  case (VDestroy x)
  with legal sim_destroy [OF all] show ?thesis by (fastforce simp: with_vector_def)
next
  case (VAssign x y)
  then obtain v w where v: "S x = Some v" "S y = Some w" "vec_size w = vec_size v" "0 < vec_capacity v"
    using legal by (auto split: option.splits)
  show ?thesis
  proof (cases "x = y")
    case True
    with sim_assign_self [OF all v(1,4)] v VAssign show ?thesis by (simp add: with_vector_def)
  next
    case False
    with sim_assign [OF all v(1,2) False v(3,4)] v VAssign show ?thesis by (simp add: with_vector_def)
  qed
qed (use legal sim_copy [OF all] sim_move [OF all] sim_push_element [OF all] sim_pop [OF all] sim_reserve [OF all]
    sim_resize [OF all] vectors_rep_new(1) [OF all] in \<open>auto simp: with_vector_def Vector_move_def split: option.splits\<close>)

section \<open>The calls that are not safe\<close>

lemma store_fault: "store_vector S x (Inl e) = Inl e"
  by (simp add: store_vector_def)

lemma unsafe_assign:
  assumes all: "vectors_rep h S A" and x: "S x = Some v" and y: "S y = Some w"
    and bad: "\<not> vcall_legal S (VAssign x y)"
  shows "if vec_size w < vec_size v
     then \<exists>h' v'. vec_copy_assign h v w = Inr (h', v') \<and> Vector_destructor h' v' = Inl LiveObject
     else vec_copy_assign h v w = Inl (if vec_size v < vec_size w then DeadObject else AssertFailed)"
proof -
  obtain F xs where F: "vec_rep F h v xs" using vectors_repD [OF all x] by blast
  obtain G ys where G: "vec_rep G h w ys" using vectors_repD [OF all y] by blast
  show ?thesis
  proof (cases "vec_size w = vec_size v")
    case True
    then have null: "v = Vector" using bad x y F vec_rep_null_cap [OF F] by (simp add: vec_rep_def split: if_splits)
    then have "vec_size w = 0" using True by (simp add: vec_size_def)
    with null show ?thesis by (simp add: vec_copy_assign_def vec_reserve_def allocate_from_nullptr_def vec_allocate_def vec_size_def [of Vector])
  next
    case False
    show ?thesis using G
    proof (cases rule: vec_rep_cases)
      case null
      with False have lt: "vec_size w < vec_size v" and w: "vec_size w = 0" by (simp_all add: vec_size_def)
      from F show ?thesis
      proof (cases rule: vec_rep_cases)
        case null
        with lt show ?thesis by (simp add: vec_size_def)
      next
        case (block b k)
        let ?v = "v\<lparr>m_end := m_begin v\<rparr>"
        have "vec_copy_assign h v w = Inr (h, ?v)" using w block(1) by (simp add: vec_copy_assign_def vec_reserve_def)
        moreover have "Vector_destructor h ?v = Inl LiveObject"
        proof (rule destructor_leaks [of h F b "[]"])
          show "hblocks h = F(b \<mapsto> map Some [] @ filled_block xs k)" using block by simp
          show "list_ex (\<lambda>s. s \<noteq> None) (filled_block xs k)" using lt w vec_rep_size [OF F] unfolding list_ex_filled_block by auto
        qed (use block(1) in simp)
        ultimately show ?thesis using lt by auto
      qed
    next
      case (block c j)
      have ne: "y \<noteq> x" using False x y by auto
      have "F c \<noteq> None" by (rule vectors_rep_other [OF all x F y ne]) (use block(1) in simp)
      from vec_rep_frame [OF F this] block(5) have "F c = Some (filled_block ys j)" by simp
      from assign_cases [OF F this block(1)] False vec_rep_size [OF F] vec_rep_size [OF G] show ?thesis by auto
    qed
  qed
qed

lemma unsafe_resize:
  assumes F: "vec_rep F h v xs" and bad: "\<not> (if vec_capacity v = 0 then 0 < n else n \<le> vec_capacity v)"
  shows "vec_resize d h v n = Inl (if vec_capacity v = 0 then AssertFailed else OutOfBounds)"
proof (cases "vec_capacity v = 0")
  case True
  with bad vec_rep_null_cap [OF F] show ?thesis by (simp add: vec_resize_def allocate_from_nullptr_def vec_allocate_def)
next
  case False
  with bad vec_rep_null_cap [OF F] resize_overrun [OF F, of n d] show ?thesis by simp
qed

lemma unsafe_copy: "vec_capacity w = 0 \<Longrightarrow> Vector_copy h w = Inl AssertFailed"
  by (simp add: Vector_copy_def allocate_from_nullptr_def vec_allocate_def)

lemma unsafe_pop: "vec_rep F h v xs \<Longrightarrow> vec_size v = 0 \<Longrightarrow> pop_back h v = Inl AssertFailed"
  by (erule vec_rep_cases) (simp_all add: pop_back_def vec_empty_def vec_size_def)

lemma unsafe_reserve: "vec_rep F h v xs \<Longrightarrow> vec_capacity v = 0 \<Longrightarrow> vec_reserve h v 0 = Inl AssertFailed"
  using vec_rep_null_cap [of F h v xs] by (auto simp: vec_reserve_def allocate_from_nullptr_def vec_allocate_def)

lemma vcall_unsafe:
  assumes all: "vectors_rep h S A" and named: "vcall_named S p" and bad: "\<not> vcall_legal S p"
  shows "case vcall_forgets S p of
      None \<Rightarrow> vcall_exec d (h, S) p = Inl (vcall_error S p)
    | Some x \<Rightarrow> \<exists>h' S'. vcall_exec d (h, S) p = Inr (h', S') \<and> vcall_exec d (h', S') (VDestroy x) = Inl LiveObject"
proof (cases p)
  case (VReserved x n)
  with named bad show ?thesis by (simp add: Vector_reserve_initial_def allocate_from_nullptr_def vec_allocate_def store_fault)
next
  case (VCopy x y)
  then obtain w where "S y = Some w" "vec_capacity w = 0" using named bad by auto
  with VCopy unsafe_copy [of w h] show ?thesis by (simp add: with_vector_def store_fault)
next
  case (VAssign x y)
  then obtain v w where v: "S x = Some v" "S y = Some w" using named by auto
  note un = unsafe_assign [OF all v bad [unfolded VAssign]]
  show ?thesis
  proof (cases "vec_size w < vec_size v")
    case True
    with un VAssign v show ?thesis by (auto simp: with_vector_def store_vector_def)
  next
    case False
    with un VAssign v show ?thesis by (simp add: with_vector_def store_fault)
  qed
next
  case (VPushElement x y i)
  then obtain v where v: "S x = Some v" "x = y" "i < vec_size v" "\<not> vec_size v < vec_capacity v"
    using named bad by (auto split: option.splits if_splits)
  obtain F xs where F: "vec_rep F h v xs" using vectors_repD [OF all v(1)] by blast
  from push_own_full [OF F, of i] v vec_rep_size [OF F] vec_rep_le_cap [OF F] VPushElement show ?thesis
    by (simp add: with_vector_def store_fault)
next
  case (VPop x)
  then obtain v where v: "S x = Some v" "vec_size v = 0" using named bad by (auto split: option.splits)
  obtain F xs where "vec_rep F h v xs" using vectors_repD [OF all v(1)] by blast
  from unsafe_pop [OF this v(2)] v VPop show ?thesis by (simp add: with_vector_def store_fault)
next
  case (VReserve x n)
  then obtain v where v: "S x = Some v" "vec_capacity v = 0" "n = 0" using named bad by (auto split: option.splits)
  obtain F xs where "vec_rep F h v xs" using vectors_repD [OF all v(1)] by blast
  from unsafe_reserve [OF this v(2)] v VReserve show ?thesis by (simp add: with_vector_def store_fault)
next
  case (VResize x n)
  then obtain v where v: "S x = Some v" "\<not> (if vec_capacity v = 0 then 0 < n else n \<le> vec_capacity v)"
    using named bad by (auto split: option.splits)
  obtain F xs where "vec_rep F h v xs" using vectors_repD [OF all v(1)] by blast
  from unsafe_resize [OF this v(2)] v(1) VResize show ?thesis by (simp add: with_vector_def store_fault)
qed (use named bad in simp_all)

lemma vectors_rep_start: "vectors_rep empty_heap Map.empty Map.empty"
  by (simp add: vectors_rep_def empty_heap_def)

interpretation vprogram: inductive_invariant vprogram_start "vprogram_step d" "\<lambda>s. vectors_rep (fst (fst s)) (snd (fst s)) (snd s)" for d
proof
  show "vectors_rep (fst (fst s)) (snd (fst s)) (snd s)" if "vprogram_start s" for s :: "('a heap \<times> (nat \<rightharpoonup> vector)) \<times> (nat \<rightharpoonup> 'a list)"
    using that by (simp add: vprogram_start_def vectors_rep_start)
  show "vectors_rep (fst (fst t)) (snd (fst t)) (snd t)"
    if "vectors_rep (fst (fst s)) (snd (fst s)) (snd s)" "vprogram_step d s t" for s t :: "('a heap \<times> (nat \<rightharpoonup> vector)) \<times> (nat \<rightharpoonup> 'a list)"
    using that(2)
  proof (cases rule: vprogram_step.cases)
    case (vprogram_call c p c' A)
    with that(1) vcall_sim [of "fst c" "snd c" A p d] show ?thesis by auto
  qed
qed

section \<open>Properties\<close>

text \<open>
  C21. Programs with several vectors. A call on vectors that are alive is safe exactly under these conditions:
  copy assignment between vectors of one size whose target has storage (a vector may be assigned to itself);
  the copy constructor from a vector with storage; \<^verbatim>\<open>resize\<close> within the capacity; \<^verbatim>\<open>reserve\<close> and the
  reserving constructor for a size that is not zero, unless there is storage; \<^verbatim>\<open>pop_back\<close> from a vector that is not empty;
  insertion of an element of the same vector when there is room; moves, insertions of other elements, \<^verbatim>\<open>clear\<close> and
  destructors always. Whatever sequence of safe calls a program has made: a safe call runs without a fault;
  every other call ends with the fault named by \<open>vcall_error\<close>, except copy assignment from a shorter vector, after which the
  destructor of the target releases storage with live elements; every vector
  holds, and a loop from \<^verbatim>\<open>begin()\<close> to \<^verbatim>\<open>end()\<close> visits, exactly the elements of the list it stands for, and when
  all vectors are destroyed no storage is left. (A vector moved to itself becomes empty.)\<close>

theorem vectors_refine_lists:
  assumes "reach vprogram_start (vprogram_step d) ((h, S), A)"
  shows "(vcall_legal S p \<longrightarrow> (\<exists>h' S'. vcall_exec d (h, S) p = Inr (h', S'))) \<and>
    (vcall_named S p \<and> \<not> vcall_legal S p \<longrightarrow>
       (case vcall_forgets S p of
          None \<Rightarrow> vcall_exec d (h, S) p = Inl (vcall_error S p)
        | Some x \<Rightarrow> \<exists>h' S'. vcall_exec d (h, S) p = Inr (h', S') \<and> vcall_exec d (h', S') (VDestroy x) = Inl LiveObject)) \<and>
    (case S x of None \<Rightarrow> A x = None | Some v \<Rightarrow> \<exists>xs. A x = Some xs \<and> vec_size v = length xs \<and> range_for h v = Inr xs) \<and>
    (S = Map.empty \<longrightarrow> hblocks h = Map.empty)"
proof -
  have rep: "vectors_rep h S A" using vprogram.reach_inv [OF assms] by simp
  have "\<exists>xs. A x = Some xs \<and> vec_size v = length xs \<and> range_for h v = Inr xs" if "S x = Some v" for v
    using vectors_repD [OF rep that] vec_rep_size range_for_rep by metis
  moreover have "hblocks h = Map.empty" if "S = Map.empty" using vectors_rep_simps(4) [OF rep] that by fastforce
  moreover have "case S x of None \<Rightarrow> A x = None | Some v \<Rightarrow> \<exists>xs. A x = Some xs \<and> vec_size v = length xs \<and> range_for h v = Inr xs"
    using calculation(1) vectors_rep_simps(1) [OF rep] by (cases "S x") simp_all
  ultimately show ?thesis using vcall_sim [OF rep, of p d] vcall_unsafe [OF rep, of p d] by blast
qed

lemma vprogram_reach_call:
  "reach vprogram_start (vprogram_step d) (c, A) \<Longrightarrow> vcall_legal (snd c) p \<Longrightarrow> vcall_exec d c p = Inr c' \<Longrightarrow>
   reach vprogram_start (vprogram_step d) (c', vcall_spec d A p)"
  by (auto intro: reach_step vprogram_call)

theorem vectors_refine_lists_witness:
  "\<exists>h S v. reach vprogram_start (vprogram_step (0 :: nat)) ((h, S), [0 \<mapsto> [7]]) \<and> S 0 = Some v \<and> range_for h v = Inr [7] \<and>
     (\<exists>h' S'. vcall_exec 0 (h, S) (VMoveAssign 0 0) = Inr (h', S')) \<and> vcall_exec 0 (h, S) (VPushElement 0 0 0) = Inl UseAfterFree"
proof -
  have r0: "reach vprogram_start (vprogram_step (0 :: nat)) ((empty_heap, Map.empty), Map.empty)"
    by (rule reach_init) (simp add: vprogram_start_def)
  have r1: "reach vprogram_start (vprogram_step (0 :: nat)) ((empty_heap, [0 \<mapsto> Vector]), [0 \<mapsto> []])"
    using vprogram_reach_call [OF r0, of "VDefault 0"] by simp
  let ?v = "\<lparr>m_begin = Some (0, 0), m_end = Some (0, 1), m_cap = Some (0, 1)\<rparr>"
  let ?h = "\<lparr>hblocks = [0 \<mapsto> [Some (7 :: nat)]], hnext = 1\<rparr>"
  have e: "vcall_exec 0 (empty_heap, [0 \<mapsto> Vector]) (VPush 0 (7 :: nat)) = Inr (?h, [0 \<mapsto> ?v])"
    by (simp add: with_vector_def store_vector_def push_back_def emplace_back_def allocate_from_nullptr_def vec_allocate_def heap_new_def
        empty_heap_def arg_value_def heap_construct_def heap_update_def construct_at_def)
  have r2: "reach vprogram_start (vprogram_step (0 :: nat)) ((?h, [0 \<mapsto> ?v]), [0 \<mapsto> [7]])"
    using vprogram_reach_call [OF r1 _ e] by simp
  have "\<exists>h' S'. vcall_exec 0 (?h, [0 \<mapsto> ?v]) (VMoveAssign 0 0) = Inr (h', S')" "range_for ?h ?v = Inr [7]"
    using vectors_refine_lists [OF r2, of "VMoveAssign 0 0" 0] by simp_all
  moreover have "vcall_exec 0 (?h, [0 \<mapsto> ?v]) (VPushElement 0 0 0) = Inl UseAfterFree"
    using vectors_refine_lists [OF r2, of "VPushElement 0 0 0" 0] by (simp add: vec_size_def vec_capacity_def)
  ultimately show ?thesis using r2 by (intro exI [of _ ?h] exI [of _ "[0 \<mapsto> ?v]"] exI [of _ ?v]) simp
qed

end
