(* ===== verification/Shared_Ptr.thy ===== *)
theory Shared_Ptr
  imports Fiah_Prelude
begin

text \<open>
  The reference-counted handle of \<^verbatim>\<open>include/fiah/handle/SharedPtr.hh\<close>. Handles are variables
  at non-null 64-bit addresses, each with an object pointer and a control block pointer;
  control blocks live in a store and carry the 64-bit counter, the object and the deleter.
  The calls of the deleter are recorded. The deleter itself is a parameter, known by name
  only. A program is any sequence of calls on handles, each call on handles that are in
  their lifetime.
\<close>

section \<open>State\<close>

record 'd control_block =
  m_count :: u64_t
  cb_obj :: "nat option"
  cb_deleter :: 'd

record handle =
  p_obj :: "nat option"
  p_cb :: "nat option"

text \<open>\<open>adopted\<close> and \<open>deleted\<close> record the objects handed to a handle and the deleter calls.\<close>

record 'd sp_state =
  handles :: "u64_t \<rightharpoonup> handle"
  cbs :: "nat \<rightharpoonup> 'd control_block"
  cb_next :: nat
  adopted :: "('d \<times> nat) list"
  deleted :: "('d \<times> nat) list"

section \<open>Control blocks\<close>

text \<open>\<^verbatim>\<open>operator new\<close>, the constructor of the control block and \<^verbatim>\<open>init\<close>.\<close>

definition cb_create :: "'d sp_state \<Rightarrow> nat option \<Rightarrow> 'd \<Rightarrow> nat \<times> 'd sp_state" where
  "cb_create s ptr d =
     (cb_next s,
      s\<lparr>cbs := (cbs s)(cb_next s \<mapsto> \<lparr>m_count = 1, cb_obj = ptr, cb_deleter = d\<rparr>),
        cb_next := Suc (cb_next s)\<rparr>)"

definition add_ref :: "'d sp_state \<Rightarrow> nat \<Rightarrow> 'd sp_state res" where
  "add_ref s c =
     (case cbs s c of
        None \<Rightarrow> Inl UseAfterFree
      | Some b \<Rightarrow> Inr (s\<lparr>cbs := (cbs s)(c \<mapsto> b\<lparr>m_count := m_count b + 1\<rparr>)\<rparr>))"

text \<open>\<^verbatim>\<open>fetch_sub\<close> returns the old count; at 1 the object and the control block go.\<close>

definition cb_release :: "'d sp_state \<Rightarrow> nat \<Rightarrow> 'd sp_state res" where
  "cb_release s c =
     (case cbs s c of
        None \<Rightarrow> Inl UseAfterFree
      | Some b \<Rightarrow>
          if m_count b = 1 then
            Inr (s\<lparr>cbs := (cbs s)(c := None),
                   deleted := (case cb_obj b of None \<Rightarrow> deleted s | Some ob \<Rightarrow> deleted s @ [(cb_deleter b, ob)])\<rparr>)
          else Inr (s\<lparr>cbs := (cbs s)(c \<mapsto> b\<lparr>m_count := m_count b - 1\<rparr>)\<rparr>))"

definition release_opt :: "'d sp_state \<Rightarrow> nat option \<Rightarrow> 'd sp_state res" where
  "release_opt s c = (case c of None \<Rightarrow> Inr s | Some c \<Rightarrow> cb_release s c)"

definition add_ref_opt :: "'d sp_state \<Rightarrow> nat option \<Rightarrow> 'd sp_state res" where
  "add_ref_opt s c = (case c of None \<Rightarrow> Inr s | Some c \<Rightarrow> add_ref s c)"

section \<open>Operations on handles\<close>

definition get_handle :: "'d sp_state \<Rightarrow> u64_t \<Rightarrow> handle res" where
  "get_handle s x = (case handles s x of None \<Rightarrow> Inl DeadObject | Some h \<Rightarrow> Inr h)"

definition set_handle :: "'d sp_state \<Rightarrow> u64_t \<Rightarrow> handle \<Rightarrow> 'd sp_state" where
  "set_handle s x h = s\<lparr>handles := (handles s)(x \<mapsto> h)\<rparr>"

definition null_handle :: handle where
  "null_handle = \<lparr>p_obj = None, p_cb = None\<rparr>"

definition record_adopted :: "'d sp_state \<Rightarrow> nat option \<Rightarrow> 'd \<Rightarrow> 'd sp_state" where
  "record_adopted s ptr d = s\<lparr>adopted := (case ptr of None \<Rightarrow> adopted s | Some ob \<Rightarrow> adopted s @ [(d, ob)])\<rparr>"

definition sp_default :: "'d sp_state \<Rightarrow> u64_t \<Rightarrow> 'd sp_state res" where
  "sp_default s x = Inr (set_handle s x null_handle)"

definition sp_make :: "'d sp_state \<Rightarrow> u64_t \<Rightarrow> nat option \<Rightarrow> 'd \<Rightarrow> 'd sp_state res" where
  "sp_make s x ptr d =
     (let (c, s) = cb_create s ptr d
      in Inr (set_handle (record_adopted s ptr d) x \<lparr>p_obj = ptr, p_cb = Some c\<rparr>))"

definition sp_copy :: "'d sp_state \<Rightarrow> u64_t \<Rightarrow> u64_t \<Rightarrow> 'd sp_state res" where
  "sp_copy s x other =
     bind_res (get_handle s other) (\<lambda>h.
       add_ref_opt (set_handle s x h) (p_cb h))"

definition sp_assign :: "'d sp_state \<Rightarrow> u64_t \<Rightarrow> u64_t \<Rightarrow> 'd sp_state res" where
  "sp_assign s this other =
     (if this = other then Inr s
      else bind_res (get_handle s this) (\<lambda>h.
             bind_res (release_opt s (p_cb h)) (\<lambda>s.
               bind_res (get_handle s other) (\<lambda>h'.
                 add_ref_opt (set_handle s this h') (p_cb h')))))"

definition sp_move :: "'d sp_state \<Rightarrow> u64_t \<Rightarrow> u64_t \<Rightarrow> 'd sp_state res" where
  "sp_move s x other =
     bind_res (get_handle s other) (\<lambda>h.
       Inr (set_handle (set_handle s x h) other null_handle))"

definition sp_move_assign :: "'d sp_state \<Rightarrow> u64_t \<Rightarrow> u64_t \<Rightarrow> 'd sp_state res" where
  "sp_move_assign s this other =
     (if this = other then Inr s
      else bind_res (get_handle s this) (\<lambda>h.
             bind_res (release_opt s (p_cb h)) (\<lambda>s.
               bind_res (get_handle s other) (\<lambda>h'.
                 Inr (set_handle (set_handle s this h') other null_handle)))))"

definition sp_reset :: "'d sp_state \<Rightarrow> u64_t \<Rightarrow> 'd sp_state res" where
  "sp_reset s x =
     bind_res (get_handle s x) (\<lambda>h.
       bind_res (release_opt s (p_cb h)) (\<lambda>s. Inr (set_handle s x null_handle)))"

definition sp_reset_to :: "'d sp_state \<Rightarrow> u64_t \<Rightarrow> nat option \<Rightarrow> 'd \<Rightarrow> 'd sp_state res" where
  "sp_reset_to s x ptr d =
     bind_res (get_handle s x) (\<lambda>h.
       bind_res (release_opt s (p_cb h)) (\<lambda>s.
         if ptr \<noteq> None then
           (let (c, s) = cb_create s ptr d
            in Inr (set_handle (record_adopted s ptr d) x \<lparr>p_obj = ptr, p_cb = Some c\<rparr>))
         else Inr (set_handle s x null_handle)))"

text \<open>The destructor resets the handle; then its lifetime ends.\<close>

definition sp_destroy :: "'d sp_state \<Rightarrow> u64_t \<Rightarrow> 'd sp_state res" where
  "sp_destroy s x = bind_res (sp_reset s x) (\<lambda>s. Inr (s\<lparr>handles := (handles s)(x := None)\<rparr>))"

definition sp_use_count :: "'d sp_state \<Rightarrow> u64_t \<Rightarrow> u64_t res" where
  "sp_use_count s x =
     bind_res (get_handle s x) (\<lambda>h.
       case p_cb h of
         None \<Rightarrow> Inr 0
       | Some c \<Rightarrow> (case cbs s c of None \<Rightarrow> Inl UseAfterFree | Some b \<Rightarrow> Inr (m_count b)))"

definition sp_deref :: "'d sp_state \<Rightarrow> u64_t \<Rightarrow> nat res" where
  "sp_deref s x =
     bind_res (get_handle s x) (\<lambda>h. case p_obj h of None \<Rightarrow> Inl NullDeref | Some ob \<Rightarrow> Inr ob)"

definition sp_bool :: "'d sp_state \<Rightarrow> u64_t \<Rightarrow> bool res" where
  "sp_bool s x = bind_res (get_handle s x) (\<lambda>h. Inr (p_obj h \<noteq> None))"

section \<open>Programs\<close>

datatype 'd sp_call =
    Default u64_t
  | Make u64_t "nat option" 'd
  | Copy u64_t u64_t
  | Assign u64_t u64_t
  | Move u64_t u64_t
  | MoveAssign u64_t u64_t
  | Reset u64_t
  | ResetTo u64_t "nat option" 'd
  | Destroy u64_t

fun sp_exec :: "'d sp_state \<Rightarrow> 'd sp_call \<Rightarrow> 'd sp_state res" where
  "sp_exec s (Default x) = sp_default s x"
| "sp_exec s (Make x ptr d) = sp_make s x ptr d"
| "sp_exec s (Copy x y) = sp_copy s x y"
| "sp_exec s (Assign x y) = sp_assign s x y"
| "sp_exec s (Move x y) = sp_move s x y"
| "sp_exec s (MoveAssign x y) = sp_move_assign s x y"
| "sp_exec s (Reset x) = sp_reset s x"
| "sp_exec s (ResetTo x ptr d) = sp_reset_to s x ptr d"
| "sp_exec s (Destroy x) = sp_destroy s x"

text \<open>
  A call is legal when constructors run on free, non-null addresses, the other operations on
  handles in their lifetime, and an object is handed over once only.
\<close>

definition fresh_obj :: "'d sp_state \<Rightarrow> nat option \<Rightarrow> bool" where
  "fresh_obj s ptr \<longleftrightarrow> (case ptr of None \<Rightarrow> True | Some ob \<Rightarrow> ob \<notin> snd ` set (adopted s))"

definition fresh_var :: "'d sp_state \<Rightarrow> u64_t \<Rightarrow> bool" where
  "fresh_var s x \<longleftrightarrow> x \<noteq> 0 \<and> handles s x = None"

abbreviation alive :: "'d sp_state \<Rightarrow> u64_t \<Rightarrow> bool" where
  "alive s x \<equiv> handles s x \<noteq> None"

fun sp_legal :: "'d sp_state \<Rightarrow> 'd sp_call \<Rightarrow> bool" where
  "sp_legal s (Default x) = fresh_var s x"
| "sp_legal s (Make x ptr d) = (fresh_var s x \<and> fresh_obj s ptr)"
| "sp_legal s (Copy x y) = (fresh_var s x \<and> alive s y)"
| "sp_legal s (Assign x y) = (alive s x \<and> alive s y)"
| "sp_legal s (Move x y) = (fresh_var s x \<and> alive s y)"
| "sp_legal s (MoveAssign x y) = (alive s x \<and> alive s y)"
| "sp_legal s (Reset x) = alive s x"
| "sp_legal s (ResetTo x ptr d) = (alive s x \<and> fresh_obj s ptr)"
| "sp_legal s (Destroy x) = alive s x"

definition sp_start :: "'d sp_state" where
  "sp_start = \<lparr>handles = Map.empty, cbs = Map.empty, cb_next = 0, adopted = [], deleted = []\<rparr>"

inductive sp_step :: "'d sp_state \<Rightarrow> 'd sp_state \<Rightarrow> bool" where
  sp_step_call: "sp_legal s p \<Longrightarrow> sp_exec s p = Inr t \<Longrightarrow> sp_step s t"

inductive_cases sp_step_elim: "sp_step s t"

section \<open>Owners of a control block\<close>

definition owners :: "(u64_t \<rightharpoonup> handle) \<Rightarrow> nat \<Rightarrow> u64_t set" where
  "owners hs c = {x. \<exists>h. hs x = Some h \<and> p_cb h = Some c}"

lemma owners_upd:
  "owners (hs(x \<mapsto> h)) c = (if p_cb h = Some c then insert x (owners hs c) else owners hs c - {x})"
  by (auto simp: owners_def)

lemma owners_remove: "owners (hs(x := None)) c = owners hs c - {x}"
  by (auto simp: owners_def)

lemma null_handle_simps [simp]: "p_obj null_handle = None" "p_cb null_handle = None"
  by (simp_all add: null_handle_def)

lemma finite_u64: "finite (A :: u64_t set)"
  by (rule finite_subset [OF subset_UNIV]) simp

lemma card_nonzero_less:
  assumes "0 \<notin> (A :: u64_t set)"
  shows "card A < 2 ^ 64"
proof -
  have "unat ` A \<subseteq> {1..<2 ^ 64}"
  proof
    fix n assume "n \<in> unat ` A"
    then obtain w where w: "w \<in> A" "n = unat w" by blast
    then have "w \<noteq> 0" using assms by metis
    then have "0 < unat w" by (simp add: unat_gt_0)
    with w unat_u64_less [of w] show "n \<in> {1..<2 ^ 64}" by simp
  qed
  then have "card (unat ` A) \<le> card {1..<(2 :: nat) ^ 64}" by (intro card_mono) simp_all
  moreover have "card (unat ` A) = card A"
    by (rule card_image) (auto intro: inj_onI simp: word_unat_eq_iff)
  ultimately show ?thesis by simp
qed

section \<open>Invariant\<close>

text \<open>The object of one control block with its deleter, and those of all of them.\<close>

definition entry :: "'d control_block option \<Rightarrow> ('d \<times> nat) set" where
  "entry v = (case v of None \<Rightarrow> {} | Some b \<Rightarrow> (case cb_obj b of None \<Rightarrow> {} | Some ob \<Rightarrow> {(cb_deleter b, ob)}))"

definition managed :: "(nat \<rightharpoonup> 'd control_block) \<Rightarrow> ('d \<times> nat) set" where
  "managed m = (\<Union>c. entry (m c))"

definition others :: "(nat \<rightharpoonup> 'd control_block) \<Rightarrow> nat \<Rightarrow> ('d \<times> nat) set" where
  "others m c = (\<Union>c' \<in> - {c}. entry (m c'))"

lemma managed_split: "managed m = entry (m c) \<union> others m c"
  by (auto simp: managed_def others_def)

lemma managedI: "m c = Some b \<Longrightarrow> cb_obj b = Some ob \<Longrightarrow> (cb_deleter b, ob) \<in> managed m"
  by (simp add: managed_split [of m c] entry_def)

lemma managed_upd: "managed (m(c := v)) = entry v \<union> others m c"
proof -
  have "others (m(c := v)) c = others m c" by (auto simp: others_def)
  with managed_split [of "m(c := v)" c] show ?thesis by simp
qed

lemma managed_count: "m c = Some b \<Longrightarrow> managed (m(c \<mapsto> b\<lparr>m_count := n\<rparr>)) = managed m"
  by (simp add: managed_upd managed_split [of m c] entry_def split: option.split)

definition handles_ok :: "(u64_t \<rightharpoonup> handle) \<Rightarrow> (nat \<rightharpoonup> 'd control_block) \<Rightarrow> bool" where
  "handles_ok hs m \<longleftrightarrow> (\<forall>x h. hs x = Some h \<longrightarrow> x \<noteq> 0 \<and>
     (case p_cb h of None \<Rightarrow> p_obj h = None | Some c \<Rightarrow> \<exists>b. m c = Some b \<and> cb_obj b = p_obj h))"

definition counts_ok :: "(u64_t \<rightharpoonup> handle) \<Rightarrow> (nat \<rightharpoonup> 'd control_block) \<Rightarrow> nat \<Rightarrow> bool" where
  "counts_ok hs m n \<longleftrightarrow> (\<forall>c b. m c = Some b \<longrightarrow>
     c < n \<and> owners hs c \<noteq> {} \<and> m_count b = of_nat (card (owners hs c)))"

definition objects_ok :: "(nat \<rightharpoonup> 'd control_block) \<Rightarrow> ('d \<times> nat) list \<Rightarrow> ('d \<times> nat) list \<Rightarrow> bool" where
  "objects_ok m ad de \<longleftrightarrow>
     distinct (map snd ad) \<and> distinct de \<and>
     set de \<union> managed m = set ad \<and> set de \<inter> managed m = {} \<and>
     (\<forall>c c' b b' ob. m c = Some b \<longrightarrow> m c' = Some b' \<longrightarrow> cb_obj b = Some ob \<longrightarrow> cb_obj b' = Some ob \<longrightarrow> c = c')"

definition sp_inv :: "'d sp_state \<Rightarrow> bool" where
  "sp_inv s \<longleftrightarrow>
     handles_ok (handles s) (cbs s) \<and> counts_ok (handles s) (cbs s) (cb_next s) \<and>
     objects_ok (cbs s) (adopted s) (deleted s)"

lemmas sp_inv_defs = sp_inv_def handles_ok_def counts_ok_def

lemma sp_inv_start: "sp_inv sp_start"
  by (simp add: sp_inv_defs objects_ok_def sp_start_def managed_def entry_def)

lemma owners_nonzero: "handles_ok hs m \<Longrightarrow> 0 \<notin> owners hs c"
  by (auto simp: handles_ok_def owners_def)

text \<open>The counter stands at 1 exactly when there is one owner.\<close>

lemma count_one_iff:
  assumes "handles_ok hs m" "counts_ok hs m n" "m c = Some b"
  shows "m_count b = 1 \<longleftrightarrow> card (owners hs c) = 1"
proof -
  have "card (owners hs c) < 2 ^ 64" by (rule card_nonzero_less [OF owners_nonzero [OF assms(1)]])
  moreover have "m_count b = of_nat (card (owners hs c))" using assms(2,3) by (simp add: counts_ok_def)
  ultimately show ?thesis
    by (metis of_nat_1 unat_1 unat_of_nat_u64 mod_less)
qed

text \<open>Replacing a handle that owns nothing.\<close>

definition vacant :: "'d sp_state \<Rightarrow> u64_t \<Rightarrow> bool" where
  "vacant s x \<longleftrightarrow> x \<noteq> 0 \<and> (handles s x = None \<or> handles s x = Some null_handle)"

lemma vacant_owners: "vacant s x \<Longrightarrow> x \<notin> owners (handles s) c"
  by (auto simp: vacant_def owners_def)

lemma inv_set_null:
  assumes "sp_inv s" "vacant s x"
  shows "sp_inv (set_handle s x null_handle)"
proof -
  have "owners ((handles s)(x \<mapsto> null_handle)) c = owners (handles s) c" for c
    using vacant_owners [OF assms(2)] by (simp add: owners_upd)
  with assms show ?thesis by (auto simp: sp_inv_defs set_handle_def vacant_def)
qed

lemma inv_end_lifetime:
  assumes "sp_inv s" "handles s x = Some null_handle"
  shows "sp_inv (s\<lparr>handles := (handles s)(x := None)\<rparr>)"
proof -
  have "x \<notin> owners (handles s) c" for c using assms(2) by (simp add: owners_def)
  then have "owners ((handles s)(x := None)) c = owners (handles s) c" for c by (simp add: owners_remove)
  with assms(1) show ?thesis by (auto simp: sp_inv_defs)
qed

lemma inv_acquire:
  assumes inv: "sp_inv s" and x: "vacant s x" and y: "handles s y = Some h"
  shows "\<exists>t. add_ref_opt (set_handle s x h) (p_cb h) = Inr t \<and> sp_inv t"
proof (cases "p_cb h")
  case None
  moreover have "p_obj h = None" using inv y None by (fastforce simp: sp_inv_def handles_ok_def)
  ultimately have "h = null_handle" by (cases h) (simp add: null_handle_def)
  with inv_set_null [OF inv x] show ?thesis by (simp add: add_ref_opt_def)
next
  case (Some c)
  obtain b where b: "cbs s c = Some b" "cb_obj b = p_obj h"
    using inv y Some by (fastforce simp: sp_inv_def handles_ok_def)
  let ?m = "(cbs s)(c \<mapsto> b\<lparr>m_count := m_count b + 1\<rparr>)"
  let ?t = "s\<lparr>handles := (handles s)(x \<mapsto> h), cbs := ?m\<rparr>"
  have add: "add_ref_opt (set_handle s x h) (p_cb h) = Inr ?t"
    using Some b(1) by (simp add: add_ref_opt_def add_ref_def set_handle_def)
  have own: "owners ((handles s)(x \<mapsto> h)) c' = (if c' = c then insert x (owners (handles s) c) else owners (handles s) c')" for c'
    using vacant_owners [OF x] Some by (auto simp: owners_upd)
  have "handles_ok ((handles s)(x \<mapsto> h)) ?m"
    using inv x Some b by (fastforce simp: sp_inv_def handles_ok_def vacant_def split: option.splits)
  moreover have "counts_ok ((handles s)(x \<mapsto> h)) ?m (cb_next s)"
    using inv b(1) vacant_owners [OF x, of c] by (auto simp: sp_inv_def counts_ok_def own finite_u64 add.commute)
  moreover have "managed ?m = managed (cbs s)" using b(1) by (rule managed_count)
  then have "objects_ok ?m (adopted s) (deleted s)"
    using inv b(1) unfolding sp_inv_def objects_ok_def by (auto split: if_splits)
  ultimately show ?thesis using add by (auto simp: sp_inv_def)
qed

text \<open>Releasing what a handle owns, with the handle emptied.\<close>

lemma objects_ok_release:
  assumes ok: "objects_ok m ad de" and b: "m c = Some b"
  shows "objects_ok (m(c := None)) ad (case cb_obj b of None \<Rightarrow> de | Some ob \<Rightarrow> de @ [(cb_deleter b, ob)])"
    (is "objects_ok ?m _ _")
proof (cases "cb_obj b")
  case None
  then have "managed ?m = managed m" using b by (simp add: managed_upd managed_split [of m c] entry_def)
  with ok None show ?thesis unfolding objects_ok_def by (auto split: if_splits)
next
  case (Some ob)
  have inj: "c' = c" if "m c' = Some b'" "cb_obj b' = Some ob" for c' b'
    using ok b Some that unfolding objects_ok_def by blast
  have "(cb_deleter b, ob) \<notin> others m c" using inj by (auto simp: others_def entry_def split: option.splits)
  moreover have "managed m = insert (cb_deleter b, ob) (managed ?m)"
    using b Some by (simp add: managed_upd managed_split [of m c] entry_def)
  moreover have "managed ?m = others m c" by (simp add: managed_upd entry_def)
  ultimately show ?thesis using ok Some unfolding objects_ok_def by (auto split: if_splits)
qed

lemma inv_release_last:
  assumes inv: "sp_inv s" and x: "handles s x = Some h" and c: "p_cb h = Some c" and b: "cbs s c = Some b"
    and last: "owners (handles s) c = {x}"
  shows "sp_inv (s\<lparr>cbs := (cbs s)(c := None),
    deleted := (case cb_obj b of None \<Rightarrow> deleted s | Some ob \<Rightarrow> deleted s @ [(cb_deleter b, ob)]),
    handles := (handles s)(x \<mapsto> null_handle)\<rparr>)"
proof -
  let ?m = "(cbs s)(c := None)"
  let ?hs = "(handles s)(x \<mapsto> null_handle)"
  have own: "owners ?hs c' = owners (handles s) c'" if "c' \<noteq> c" for c'
    using x c that by (auto simp: owners_upd) (auto simp: owners_def)
  have hok: "handles_ok (handles s) (cbs s)" using inv by (simp add: sp_inv_def)
  have gone: "p_cb h' \<noteq> Some c" if "handles s z = Some h'" "z \<noteq> x" for z h'
    using last that by (auto simp: owners_def)
  have "handles_ok ?hs ?m"
    unfolding handles_ok_def
  proof (intro allI impI)
    fix z h' assume z: "?hs z = Some h'"
    show "z \<noteq> 0 \<and> (case p_cb h' of None \<Rightarrow> p_obj h' = None | Some c \<Rightarrow> \<exists>b. ?m c = Some b \<and> cb_obj b = p_obj h')"
    proof (cases "z = x")
      case True
      with z hok x show ?thesis by (auto simp: handles_ok_def)
    next
      case False
      with z have "handles s z = Some h'" by simp
      with hok gone [OF this False] show ?thesis by (fastforce simp: handles_ok_def split: option.splits)
    qed
  qed
  moreover have "counts_ok ?hs ?m (cb_next s)"
    using inv by (auto simp: sp_inv_def counts_ok_def own)
  moreover have "objects_ok (cbs s) (adopted s) (deleted s)" using inv by (simp add: sp_inv_def)
  ultimately show ?thesis using objects_ok_release [of "cbs s", OF _ b] by (simp add: sp_inv_def)
qed

lemma inv_release_more:
  assumes inv: "sp_inv s" and x: "handles s x = Some h" and c: "p_cb h = Some c" and b: "cbs s c = Some b"
    and more: "owners (handles s) c \<noteq> {x}"
  shows "sp_inv (s\<lparr>cbs := (cbs s)(c \<mapsto> b\<lparr>m_count := m_count b - 1\<rparr>), handles := (handles s)(x \<mapsto> null_handle)\<rparr>)"
proof -
  let ?m = "(cbs s)(c \<mapsto> b\<lparr>m_count := m_count b - 1\<rparr>)"
  let ?hs = "(handles s)(x \<mapsto> null_handle)"
  have own: "owners ?hs c' = (if c' = c then owners (handles s) c - {x} else owners (handles s) c')" for c'
    using x c by (auto simp: owners_upd) (auto simp: owners_def)
  have xin: "x \<in> owners (handles s) c" using x c by (simp add: owners_def)
  have "handles_ok ?hs ?m"
    using inv x b by (fastforce simp: sp_inv_def handles_ok_def split: option.splits)
  moreover have "counts_ok ?hs ?m (cb_next s)"
  proof -
    have "1 \<le> card (owners (handles s) c)" using xin finite_u64 by (metis One_nat_def Suc_leI card_gt_0_iff empty_iff)
    then have "(of_nat (card (owners (handles s) c)) :: u64_t) - 1 = of_nat (card (owners (handles s) c - {x}))"
      using xin by (simp add: card_Diff_singleton of_nat_diff)
    moreover have "owners (handles s) c - {x} \<noteq> {}" using more xin by auto
    ultimately show ?thesis using inv b by (auto simp: sp_inv_def counts_ok_def own)
  qed
  moreover have "managed ?m = managed (cbs s)" using b by (rule managed_count)
  then have "objects_ok ?m (adopted s) (deleted s)"
    using inv b unfolding sp_inv_def objects_ok_def by (auto split: if_splits)
  ultimately show ?thesis by (simp add: sp_inv_def)
qed

lemma inv_release:
  assumes inv: "sp_inv s" and x: "handles s x = Some h"
  shows "\<exists>t. release_opt s (p_cb h) = Inr t \<and> handles t = handles s \<and> adopted t = adopted s \<and>
    sp_inv (set_handle t x null_handle)"
proof (cases "p_cb h")
  case None
  moreover have "p_obj h = None" using inv x None by (fastforce simp: sp_inv_def handles_ok_def)
  ultimately have "h = null_handle" by (cases h) (simp add: null_handle_def)
  moreover have "x \<noteq> 0" using inv x by (auto simp: sp_inv_def handles_ok_def)
  ultimately show ?thesis using inv_set_null [OF inv, of x] x by (auto simp: release_opt_def vacant_def)
next
  case (Some c)
  obtain b where b: "cbs s c = Some b" using inv x Some by (fastforce simp: sp_inv_def handles_ok_def)
  have "x \<in> owners (handles s) c" using x Some by (simp add: owners_def)
  then have one: "m_count b = 1 \<longleftrightarrow> owners (handles s) c = {x}"
    using count_one_iff [of "handles s" "cbs s" "cb_next s" c b] inv b
    by (auto simp: sp_inv_def card_1_singleton_iff)
  show ?thesis
  proof (cases "owners (handles s) c = {x}")
    case True
    with inv_release_last [OF inv x Some b True] one Some b show ?thesis
      by (simp add: release_opt_def cb_release_def set_handle_def)
  next
    case False
    with inv_release_more [OF inv x Some b False] one Some b show ?thesis
      by (simp add: release_opt_def cb_release_def set_handle_def)
  qed
qed

text \<open>Adopting an object, and handing a handle over to another one.\<close>

lemma objects_ok_adopt:
  assumes ok: "objects_ok m ad del" and new: "m c = None" and fr: "ob \<notin> snd ` set ad"
  shows "objects_ok (m(c \<mapsto> \<lparr>m_count = n, cb_obj = Some ob, cb_deleter = d\<rparr>)) (ad @ [(d, ob)]) del"
    (is "objects_ok ?m _ _")
proof -
  have man: "managed ?m = managed m \<union> {(d, ob)}"
    using new by (auto simp: managed_upd managed_split [of m c] entry_def)
  have sub: "managed m \<subseteq> set ad" "set del \<subseteq> set ad" using ok by (auto simp: objects_ok_def)
  have unmanaged: "cb_obj b' \<noteq> Some ob" if "m c' = Some b'" for c' b'
    using managedI [of m c' b' ob] that sub(1) fr by force
  have inj: "c1 = c2" if "?m c1 = Some b1" "?m c2 = Some b2" "cb_obj b1 = Some ob'" "cb_obj b2 = Some ob'" for c1 c2 b1 b2 ob'
  proof (cases "c1 = c \<or> c2 = c")
    case True
    with that unmanaged show ?thesis by (auto split: if_splits)
  next
    case False
    then have "m c1 = Some b1" "m c2 = Some b2" using that by simp_all
    with that(3,4) ok show ?thesis unfolding objects_ok_def by blast
  qed
  show ?thesis
    unfolding objects_ok_def man
  proof (intro conjI allI impI)
    show "distinct (map snd (ad @ [(d, ob)]))" "distinct del" using ok fr by (simp_all add: objects_ok_def)
    show "set del \<union> (managed m \<union> {(d, ob)}) = set (ad @ [(d, ob)])" using ok by (auto simp: objects_ok_def)
    have "(d, ob) \<notin> set del" using sub(2) fr by force
    then show "set del \<inter> (managed m \<union> {(d, ob)}) = {}" using ok by (simp add: objects_ok_def)
  qed (rule inj)
qed

lemma objects_ok_null:
  assumes ok: "objects_ok m ad del" and new: "m c = None"
  shows "objects_ok (m(c \<mapsto> \<lparr>m_count = n, cb_obj = None, cb_deleter = d\<rparr>)) ad del"
proof -
  have "managed (m(c \<mapsto> \<lparr>m_count = n, cb_obj = None, cb_deleter = d\<rparr>)) = managed m"
    using new by (auto simp: managed_upd managed_split [of m c] entry_def)
  with ok show ?thesis unfolding objects_ok_def by (auto split: if_splits)
qed

lemma inv_create:
  assumes inv: "sp_inv s" and x: "vacant s x" and fr: "fresh_obj s ptr"
  shows "sp_inv (set_handle (record_adopted (snd (cb_create s ptr d)) ptr d) x \<lparr>p_obj = ptr, p_cb = Some (cb_next s)\<rparr>)"
proof -
  let ?c = "cb_next s"
  let ?m = "(cbs s)(?c \<mapsto> \<lparr>m_count = 1, cb_obj = ptr, cb_deleter = d\<rparr> :: 'a control_block)"
  let ?hs = "(handles s)(x \<mapsto> \<lparr>p_obj = ptr, p_cb = Some ?c\<rparr>)"
  let ?ad = "case ptr of None \<Rightarrow> adopted s | Some ob \<Rightarrow> adopted s @ [(d, ob)]"
  have new: "cbs s ?c = None"
    using inv unfolding sp_inv_def counts_ok_def by (meson less_irrefl not_None_eq)
  have hok: "handles_ok (handles s) (cbs s)" and ok: "objects_ok (cbs s) (adopted s) (deleted s)"
    using inv by (simp_all add: sp_inv_def)
  have none: "owners (handles s) ?c = {}" using hok new by (fastforce simp: handles_ok_def owners_def)
  have own: "owners ?hs c' = (if c' = ?c then {x} else owners (handles s) c')" for c'
    using vacant_owners [OF x] none by (auto simp: owners_upd)
  have "handles_ok ?hs ?m"
    using hok x new by (fastforce simp: handles_ok_def vacant_def split: option.splits)
  moreover have "counts_ok ?hs ?m (Suc ?c)"
    using inv by (auto simp: sp_inv_def counts_ok_def own less_Suc_eq)
  moreover have "objects_ok ?m ?ad (deleted s)"
    using objects_ok_null [OF ok new] objects_ok_adopt [OF ok new] fr by (cases ptr) (simp_all add: fresh_obj_def)
  ultimately show ?thesis
    by (cases ptr) (simp_all add: sp_inv_def set_handle_def record_adopted_def cb_create_def)
qed

lemma inv_transfer:
  assumes inv: "sp_inv s" and x: "vacant s x" and y: "handles s y = Some h" and ne: "x \<noteq> y"
  shows "sp_inv (set_handle (set_handle s x h) y null_handle)"
proof -
  let ?hs = "(handles s)(x \<mapsto> h, y \<mapsto> null_handle)"
  have own: "owners ?hs c = (if p_cb h = Some c then insert x (owners (handles s) c - {y}) else owners (handles s) c)" for c
    using vacant_owners [OF x, of c] y ne by (auto simp: owners_upd) (auto simp: owners_def)
  have "card (owners ?hs c) = card (owners (handles s) c)" for c
  proof (cases "p_cb h = Some c")
    case True
    then have yin: "y \<in> owners (handles s) c" using y by (simp add: owners_def)
    have "card (insert x (owners (handles s) c - {y})) = Suc (card (owners (handles s) c - {y}))"
      using vacant_owners [OF x, of c] finite_u64 by (simp add: card_insert_disjoint)
    also have "\<dots> = card (owners (handles s) c)" using yin finite_u64 by (metis card_Suc_Diff1)
    finally show ?thesis using True by (simp add: own)
  qed (simp add: own)
  moreover have "owners ?hs c \<noteq> {}" if "owners (handles s) c \<noteq> {}" for c using that by (simp add: own)
  ultimately have "counts_ok ?hs (cbs s) (cb_next s)"
    using inv by (simp add: sp_inv_def counts_ok_def)
  moreover have "handles_ok ?hs (cbs s)"
    using inv x y by (fastforce simp: sp_inv_def handles_ok_def vacant_def split: option.splits)
  ultimately show ?thesis using inv by (simp add: sp_inv_def set_handle_def)
qed

section \<open>Every legal call succeeds and keeps the invariant\<close>

lemma set_handle_twice: "set_handle (set_handle s x h) x h' = set_handle s x h'"
  by (simp add: set_handle_def)

lemma vacant_null: "sp_inv (set_handle t x null_handle) \<Longrightarrow> vacant (set_handle t x null_handle) x"
  by (auto simp: vacant_def set_handle_def sp_inv_def handles_ok_def)

text \<open>Operations that release what the handle had before.\<close>

lemma inv_sp_assign:
  assumes inv: "sp_inv s" and h: "handles s x = Some h" "handles s y = Some h'"
  shows "\<exists>t. sp_assign s x y = Inr t \<and> sp_inv t" and "\<exists>t. sp_move_assign s x y = Inr t \<and> sp_inv t"
proof -
  obtain t where t: "release_opt s (p_cb h) = Inr t" "handles t = handles s" "sp_inv (set_handle t x null_handle)"
    using inv_release [OF inv h(1)] by blast
  have y: "handles (set_handle t x null_handle) y = Some h'" if "x \<noteq> y" using t(2) h(2) that by (simp add: set_handle_def)
  show "\<exists>t. sp_assign s x y = Inr t \<and> sp_inv t"
    using inv inv_acquire [OF t(3) vacant_null [OF t(3)] y] t h
    by (cases "x = y") (simp_all add: sp_assign_def get_handle_def set_handle_twice)
  show "\<exists>t. sp_move_assign s x y = Inr t \<and> sp_inv t"
    using inv inv_transfer [OF t(3) vacant_null [OF t(3)] y] t h
    by (cases "x = y") (simp_all add: sp_move_assign_def get_handle_def set_handle_twice)
qed

lemma inv_reset_to:
  assumes inv: "sp_inv s" and h: "handles s x = Some h" and fr: "fresh_obj s ptr"
  shows "\<exists>t. sp_reset_to s x ptr d = Inr t \<and> sp_inv t"
proof -
  obtain t where t: "release_opt s (p_cb h) = Inr t" "adopted t = adopted s" "sp_inv (set_handle t x null_handle)"
    using inv_release [OF inv h] by blast
  have "fresh_obj (set_handle t x null_handle) ptr"
    using fr t(2) by (cases ptr) (simp_all add: fresh_obj_def set_handle_def)
  from inv_create [OF t(3) vacant_null [OF t(3)] this, of d] t h show ?thesis
    by (cases ptr) (simp_all add: sp_reset_to_def get_handle_def cb_create_def record_adopted_def set_handle_def)
qed

lemma inv_sp_destroy:
  assumes inv: "sp_inv s" and h: "handles s x = Some h"
  shows "\<exists>t. sp_destroy s x = Inr t \<and> sp_inv t"
proof -
  obtain t where t: "release_opt s (p_cb h) = Inr t" "sp_inv (set_handle t x null_handle)"
    using inv_release [OF inv h] by blast
  have "handles (set_handle t x null_handle) x = Some null_handle" by (simp add: set_handle_def)
  from inv_end_lifetime [OF t(2) this] t(1) h show ?thesis by (simp add: sp_destroy_def sp_reset_def get_handle_def)
qed

lemma sp_inv_call:
  assumes inv: "sp_inv s" and legal: "sp_legal s p"
  shows "\<exists>t. sp_exec s p = Inr t \<and> sp_inv t"
proof (cases p)
  case (Default x)
  then have "vacant s x" using legal by (auto simp: fresh_var_def vacant_def)
  with inv_set_null [OF inv] Default show ?thesis by (simp add: sp_default_def)
next
  case (Make x ptr d)
  then have "vacant s x" "fresh_obj s ptr" using legal by (auto simp: fresh_var_def vacant_def)
  with inv_create [OF inv] Make show ?thesis by (simp add: sp_make_def cb_create_def)
next
  case (Copy x y)
  then obtain h where "vacant s x" "handles s y = Some h" using legal by (auto simp: fresh_var_def vacant_def)
  with inv_acquire [OF inv] Copy show ?thesis by (simp add: sp_copy_def get_handle_def)
next
  case (Move x y)
  then obtain h where "vacant s x" "handles s y = Some h" "x \<noteq> y"
    using legal by (cases "x = y") (auto simp: fresh_var_def vacant_def)
  with inv_transfer [OF inv] Move show ?thesis by (simp add: sp_move_def get_handle_def)
next
  case (Reset x)
  then obtain h where "handles s x = Some h" using legal by auto
  with inv_release [OF inv this] Reset show ?thesis by (auto simp: sp_reset_def get_handle_def)
qed (use legal inv_sp_assign [OF inv] inv_reset_to [OF inv] inv_sp_destroy [OF inv] in \<open>auto\<close>)

interpretation sp_sys: inductive_invariant "\<lambda>s. s = sp_start" sp_step sp_inv
proof
  show "sp_inv s" if "s = sp_start" for s :: "'a sp_state" using that sp_inv_start by simp
  show "sp_inv t" if "sp_inv s" "sp_step s t" for s t :: "'a sp_state"
    using that sp_inv_call by (fastforce elim!: sp_step_elim)
qed

section \<open>Properties\<close>

text \<open>
  Safety of shared handles. In every state a program of legal calls reaches, every
  further legal call succeeds: no control block is used after it was released and none is
  released twice.\<close>

theorem shared_ptr_safe:
  assumes "reach (\<lambda>s. s = sp_start) sp_step s" and "sp_legal s p"
  shows "\<exists>t. sp_exec s p = Inr t"
  using sp_inv_call [OF sp_sys.reach_inv [OF assms(1)] assms(2)] by blast

theorem shared_ptr_safe_witness:
  "\<exists>t. sp_exec (sp_start :: unit sp_state) (Make 8 (Some 100) ()) = Inr t"
  by (rule shared_ptr_safe) (auto intro: reach_init simp: sp_start_def fresh_var_def fresh_obj_def)

text \<open>
  C23. The counter counts. \<^verbatim>\<open>use_count\<close> of a handle that shares an object is the number of
  handles that share it, and never wraps around.\<close>

theorem use_count_exact:
  assumes "reach (\<lambda>s. s = sp_start) sp_step s" and "handles s x = Some h"
  shows "sp_use_count s x =
     Inr (case p_cb h of None \<Rightarrow> 0 | Some c \<Rightarrow> of_nat (card {y. \<exists>h'. handles s y = Some h' \<and> p_cb h' = Some c})) \<and>
     (\<forall>c. card {y. \<exists>h'. handles s y = Some h' \<and> p_cb h' = Some c} < 2 ^ 64)"
proof -
  have inv: "sp_inv s" by (rule sp_sys.reach_inv [OF assms(1)])
  have "card (owners (handles s) c) < 2 ^ 64" for c
    using inv by (intro card_nonzero_less owners_nonzero [where m = "cbs s"]) (simp add: sp_inv_def)
  moreover have "sp_use_count s x = Inr (case p_cb h of None \<Rightarrow> 0 | Some c \<Rightarrow> of_nat (card (owners (handles s) c)))"
  proof (cases "p_cb h")
    case None
    with assms(2) show ?thesis by (simp add: sp_use_count_def get_handle_def)
  next
    case (Some c)
    then obtain b where "cbs s c = Some b" using inv assms(2) by (fastforce simp: sp_inv_def handles_ok_def)
    moreover from this have "m_count b = of_nat (card (owners (handles s) c))"
      using inv by (auto simp: sp_inv_def counts_ok_def)
    ultimately show ?thesis using assms(2) Some by (simp add: sp_use_count_def get_handle_def)
  qed
  ultimately show ?thesis unfolding owners_def by blast
qed

lemma reach_call: "reach (\<lambda>s. s = sp_start) sp_step s \<Longrightarrow> sp_legal s p \<Longrightarrow> sp_exec s p = Inr t \<Longrightarrow>
    reach (\<lambda>s. s = sp_start) sp_step t"
  by (auto intro: reach_step sp_step_call)

text \<open>A run used as an example: an object shared by two handles, which then go.\<close>

lemma sp_example:
  defines "b n \<equiv> \<lparr>m_count = n, cb_obj = Some 100, cb_deleter = ()\<rparr>"
  defines "h \<equiv> \<lparr>p_obj = Some 100, p_cb = Some 0\<rparr>"
  shows "reach (\<lambda>s. s = sp_start) sp_step
      \<lparr>handles = [8 \<mapsto> h, 16 \<mapsto> h], cbs = [0 \<mapsto> b 2], cb_next = 1, adopted = [((), 100)], deleted = []\<rparr>" (is "reach _ _ ?s2")
    and "reach (\<lambda>s. s = sp_start) sp_step
      \<lparr>handles = Map.empty, cbs = Map.empty, cb_next = 1, adopted = [((), 100)], deleted = [((), 100)]\<rparr>" (is "reach _ _ ?s4")
proof -
  let ?s1 = "\<lparr>handles = [8 \<mapsto> h], cbs = [0 \<mapsto> b 1], cb_next = 1, adopted = [((), 100)], deleted = []\<rparr>"
  let ?s3 = "\<lparr>handles = [16 \<mapsto> h], cbs = [0 \<mapsto> b 1], cb_next = 1, adopted = [((), 100)], deleted = []\<rparr>"
  note ops = sp_make_def sp_copy_def sp_destroy_def sp_reset_def cb_create_def get_handle_def set_handle_def
    record_adopted_def add_ref_opt_def add_ref_def release_opt_def cb_release_def
  have "reach (\<lambda>s. s = sp_start) sp_step ?s1"
    by (rule reach_call [of sp_start "Make 8 (Some 100) ()", OF reach_init])
      (simp_all add: ops sp_start_def fresh_var_def fresh_obj_def b_def h_def)
  then show s2: "reach (\<lambda>s. s = sp_start) sp_step ?s2"
    by (rule reach_call [of _ "Copy 16 8"]) (simp_all add: ops fresh_var_def b_def h_def fun_upd_twist)
  then have "reach (\<lambda>s. s = sp_start) sp_step ?s3"
    by (rule reach_call [of _ "Destroy 8"])
      (simp_all add: ops b_def h_def fun_upd_twist fun_eq_iff)
  then show "reach (\<lambda>s. s = sp_start) sp_step ?s4"
    by (rule reach_call [of _ "Destroy 16"]) (simp_all add: ops b_def h_def fun_eq_iff)
qed

theorem use_count_exact_witness:
  "\<exists>s :: unit sp_state. reach (\<lambda>s. s = sp_start) sp_step s \<and> sp_use_count s 8 = Inr 2 \<and>
     card {y. \<exists>h'. handles s y = Some h' \<and> p_cb h' = Some 0} < 2 ^ 64"
proof -
  have "sp_use_count \<lparr>handles = [8 \<mapsto> \<lparr>p_obj = Some 100, p_cb = Some 0\<rparr>, 16 \<mapsto> \<lparr>p_obj = Some 100, p_cb = Some 0\<rparr>],
      cbs = [0 \<mapsto> \<lparr>m_count = 2, cb_obj = Some 100, cb_deleter = ()\<rparr>], cb_next = 1,
      adopted = [((), 100)], deleted = []\<rparr> 8 = Inr 2"
    by (simp add: sp_use_count_def get_handle_def)
  with sp_example(1) use_count_exact [OF sp_example(1), of 8] show ?thesis by auto
qed

text \<open>
  C22. Deleted exactly once, at the end. In every reachable state each object handed to the
  handles has been deleted at most once, with the deleter it came with; it has been deleted
  exactly when no handle shares it any more, so when the lifetimes of all handles have ended
  nothing is leaked.\<close>

theorem shared_ptr_deletes_once:
  assumes "reach (\<lambda>s. s = sp_start) sp_step s"
  shows "distinct (map snd (deleted s)) \<and> set (deleted s) \<subseteq> set (adopted s) \<and>
     (\<forall>(d, ob) \<in> set (adopted s).
        (d, ob) \<in> set (deleted s) \<longleftrightarrow> \<not> (\<exists>x h. handles s x = Some h \<and> p_obj h = Some ob))"
proof -
  have inv: "sp_inv s" by (rule sp_sys.reach_inv [OF assms])
  then have ok: "objects_ok (cbs s) (adopted s) (deleted s)" by (simp add: sp_inv_def)
  have sub: "set (deleted s) \<subseteq> set (adopted s)" using ok by (auto simp: objects_ok_def)
  have inj: "inj_on snd (set (adopted s))" using ok by (simp add: objects_ok_def distinct_map)
  then have "distinct (map snd (deleted s))"
    using ok sub by (auto simp: objects_ok_def distinct_map intro: inj_on_subset)
  moreover have man: "(d, ob) \<in> managed (cbs s) \<longleftrightarrow> (\<exists>x h. handles s x = Some h \<and> p_obj h = Some ob)"
    if ad: "(d, ob) \<in> set (adopted s)" for d ob
  proof
    assume "(d, ob) \<in> managed (cbs s)"
    then obtain c b where b: "cbs s c = Some b" "cb_obj b = Some ob"
      by (auto simp: managed_def entry_def split: option.splits)
    then obtain x h where "handles s x = Some h" "p_cb h = Some c"
      using inv by (fastforce simp: sp_inv_def counts_ok_def owners_def)
    with b inv show "\<exists>x h. handles s x = Some h \<and> p_obj h = Some ob"
      by (fastforce simp: sp_inv_def handles_ok_def)
  next
    assume "\<exists>x h. handles s x = Some h \<and> p_obj h = Some ob"
    then obtain x h where h: "handles s x = Some h" "p_obj h = Some ob" by blast
    then obtain c b where b: "p_cb h = Some c" "cbs s c = Some b" "cb_obj b = Some ob"
      using inv by (fastforce simp: sp_inv_def handles_ok_def split: option.splits)
    from b(2,3) managedI [of "cbs s" c b ob] have "(cb_deleter b, ob) \<in> managed (cbs s)" by simp
    moreover from this have "(cb_deleter b, ob) \<in> set (adopted s)" using ok by (auto simp: objects_ok_def)
    moreover have "(cb_deleter b, ob) = (d, ob)" if "(cb_deleter b, ob) \<in> set (adopted s)"
      using inj_onD [OF inj _ that ad] by simp
    ultimately show "(d, ob) \<in> managed (cbs s)" by auto
  qed
  moreover have "(d, ob) \<in> set (deleted s) \<longleftrightarrow> \<not> (\<exists>x h. handles s x = Some h \<and> p_obj h = Some ob)"
    if "(d, ob) \<in> set (adopted s)" for d ob
  proof -
    have "(d, ob) \<in> set (deleted s) \<longleftrightarrow> (d, ob) \<notin> managed (cbs s)"
      using ok that unfolding objects_ok_def by blast
    with man [OF that] show ?thesis by simp
  qed
  ultimately show ?thesis using sub by blast
qed

theorem shared_ptr_deletes_once_witness:
  "\<exists>s :: unit sp_state. reach (\<lambda>s. s = sp_start) sp_step s \<and> adopted s = [((), 100)] \<and>
     distinct (map snd (deleted s)) \<and> ((), 100) \<in> set (deleted s)"
  using sp_example(2) shared_ptr_deletes_once [OF sp_example(2)] by (intro exI conjI) auto

end
