(* ===== verification/Shared_Ptr_Threads.thy ===== *)
theory Shared_Ptr_Threads
  imports Shared_Ptr
begin

text \<open>
  A control block of \<^verbatim>\<open>include/fiah/handle/SharedPtr.hh\<close> used by several threads. The counter is
  atomic: \<^verbatim>\<open>fetch_add\<close> and \<^verbatim>\<open>fetch_sub\<close> are one step each, with the comparison of the old value,
  which is local. The call of the deleter and the release of the block's memory are steps of
  their own, so that other threads can run in between. A thread may touch the block while one
  of its handles shares it and inside \<^verbatim>\<open>release\<close>; touching a block that is gone is a fault.
\<close>

section \<open>Threads on one control block\<close>

datatype rel_pc = RIdle | RDelete | RFree

text \<open>\<open>held\<close> counts the handles of each thread that share the block.\<close>

record 'd shared_sys =
  block :: "'d control_block option"
  held :: "nat list"
  pcs :: "nat \<Rightarrow> rel_pc"
  del_calls :: "('d \<times> nat) list"
  fault :: bool

definition shared_init :: "nat \<Rightarrow> nat option \<Rightarrow> 'd \<Rightarrow> 'd shared_sys \<Rightarrow> bool" where
  "shared_init n ptr d s \<longleftrightarrow>
     s = \<lparr>block = Some \<lparr>m_count = 1, cb_obj = ptr, cb_deleter = d\<rparr>, held = 1 # replicate n 0,
          pcs = (\<lambda>_. RIdle), del_calls = [], fault = False\<rparr>"

definition n_handles :: "nat list \<Rightarrow> nat" where
  "n_handles hs = sum_list hs"

definition touches :: "'d shared_sys \<Rightarrow> nat \<Rightarrow> bool" where
  "touches s t \<longleftrightarrow> t < length (held s) \<and> (held s ! t > 0 \<or> pcs s t \<noteq> RIdle)"

text \<open>
  A copy needs an address for the new handle, so there are fewer than \<open>2 ^ 64\<close> handles. A move
  does not touch the block; its two handles may belong to different threads.
\<close>

inductive shared_step :: "'d shared_sys \<Rightarrow> 'd shared_sys \<Rightarrow> bool" where
  sh_add_ref: "t < length (held s) \<Longrightarrow> pcs s t = RIdle \<Longrightarrow> held s ! t > 0 \<Longrightarrow> n_handles (held s) + 1 < 2 ^ 64 \<Longrightarrow>
    block s = Some b \<Longrightarrow>
    shared_step s (s\<lparr>block := Some (b\<lparr>m_count := m_count b + 1\<rparr>), held := (held s)[t := held s ! t + 1]\<rparr>)"
| sh_move: "t < length (held s) \<Longrightarrow> u < length (held s) \<Longrightarrow> t \<noteq> u \<Longrightarrow> pcs s t = RIdle \<Longrightarrow> held s ! t > 0 \<Longrightarrow>
    shared_step s (s\<lparr>held := (held s)[t := held s ! t - 1, u := held s ! u + 1]\<rparr>)"
| sh_sub: "t < length (held s) \<Longrightarrow> pcs s t = RIdle \<Longrightarrow> held s ! t > 0 \<Longrightarrow> block s = Some b \<Longrightarrow>
    shared_step s (s\<lparr>block := Some (b\<lparr>m_count := m_count b - 1\<rparr>), held := (held s)[t := held s ! t - 1],
      pcs := (pcs s)(t := if m_count b = 1 then RDelete else RIdle)\<rparr>)"
| sh_delete: "t < length (held s) \<Longrightarrow> pcs s t = RDelete \<Longrightarrow> block s = Some b \<Longrightarrow>
    shared_step s (s\<lparr>block := Some (b\<lparr>cb_obj := None\<rparr>), pcs := (pcs s)(t := RFree),
      del_calls := (case cb_obj b of None \<Rightarrow> del_calls s | Some ob \<Rightarrow> del_calls s @ [(cb_deleter b, ob)])\<rparr>)"
| sh_free: "t < length (held s) \<Longrightarrow> pcs s t = RFree \<Longrightarrow> block s = Some b \<Longrightarrow>
    shared_step s (s\<lparr>block := None, pcs := (pcs s)(t := RIdle)\<rparr>)"
| sh_fault: "touches s t \<Longrightarrow> block s = None \<Longrightarrow> shared_step s (s\<lparr>fault := True\<rparr>)"

inductive_cases shared_step_elim: "shared_step s t"

section \<open>Invariant\<close>

definition obj_calls :: "nat option \<Rightarrow> 'd \<Rightarrow> ('d \<times> nat) list" where
  "obj_calls ptr d = (case ptr of None \<Rightarrow> [] | Some ob \<Rightarrow> [(d, ob)])"

text \<open>Shared by some handle; left by the last handle; gone.\<close>

definition live_inv :: "nat option \<Rightarrow> 'd \<Rightarrow> 'd shared_sys \<Rightarrow> bool" where
  "live_inv ptr d s \<longleftrightarrow> n_handles (held s) > 0 \<and> pcs s = (\<lambda>_. RIdle) \<and> del_calls s = [] \<and>
     block s = Some \<lparr>m_count = of_nat (n_handles (held s)), cb_obj = ptr, cb_deleter = d\<rparr>"

definition dying_inv :: "nat option \<Rightarrow> 'd \<Rightarrow> 'd shared_sys \<Rightarrow> bool" where
  "dying_inv ptr d s \<longleftrightarrow> n_handles (held s) = 0 \<and> (\<exists>t<length (held s).
     pcs s = (\<lambda>_. RIdle)(t := RDelete) \<and> del_calls s = [] \<and> block s = Some \<lparr>m_count = 0, cb_obj = ptr, cb_deleter = d\<rparr> \<or>
     pcs s = (\<lambda>_. RIdle)(t := RFree) \<and> del_calls s = obj_calls ptr d \<and>
       block s = Some \<lparr>m_count = 0, cb_obj = None, cb_deleter = d\<rparr>)"

definition dead_inv :: "nat option \<Rightarrow> 'd \<Rightarrow> 'd shared_sys \<Rightarrow> bool" where
  "dead_inv ptr d s \<longleftrightarrow> n_handles (held s) = 0 \<and> pcs s = (\<lambda>_. RIdle) \<and> del_calls s = obj_calls ptr d \<and> block s = None"

definition shared_inv :: "nat option \<Rightarrow> 'd \<Rightarrow> 'd shared_sys \<Rightarrow> bool" where
  "shared_inv ptr d s \<longleftrightarrow> \<not> fault s \<and> n_handles (held s) < 2 ^ 64 \<and> (live_inv ptr d s \<or> dying_inv ptr d s \<or> dead_inv ptr d s)"

lemma held_le: "t < length xs \<Longrightarrow> xs ! t \<le> sum_list (xs :: nat list)"
  by (rule member_le_sum_list) simp_all

lemma held_zero: "n_handles hs = 0 \<Longrightarrow> t < length hs \<Longrightarrow> hs ! t = 0"
  using held_le [of t hs] by (simp add: n_handles_def)

lemma sum_dec: "t < length xs \<Longrightarrow> xs ! t > 0 \<Longrightarrow> n_handles (xs[t := xs ! t - 1]) = n_handles xs - 1"
  using held_le [of t xs] by (simp add: sum_list_update n_handles_def)

lemma sum_inc: "t < length xs \<Longrightarrow> n_handles (xs[t := xs ! t + 1]) = n_handles xs + 1"
  by (simp add: sum_list_update n_handles_def)

lemma sum_transfer:
  assumes "t < length xs" "u < length xs" "t \<noteq> u" "xs ! t > 0"
  shows "n_handles (xs[t := xs ! t - 1, u := xs ! u + 1]) = n_handles xs"
proof -
  have "n_handles xs > 0" using held_le [of t xs] assms by (simp add: n_handles_def)
  then show ?thesis using sum_inc [of u "xs[t := xs ! t - 1]"] sum_dec [of t xs] assms by simp
qed

lemma count_is_one: "m < 2 ^ 64 \<Longrightarrow> (of_nat m :: u64_t) = 1 \<longleftrightarrow> m = 1"
  using word_of_nat_eq_iff [of m 1, where 'a = 64] by (simp add: take_bit_eq_mod)

lemma shared_live_step:
  assumes live: "live_inv ptr d s" and nf: "\<not> fault s" and lim: "n_handles (held s) < 2 ^ 64" and st: "shared_step s s'"
  shows "shared_inv ptr d s'"
  using st
proof cases
  case (sh_add_ref t b)
  with live nf sum_inc [of t "held s"] show ?thesis by (simp add: shared_inv_def live_inv_def)
next
  case (sh_move t u)
  with live nf lim sum_transfer [of t "held s" u] show ?thesis by (simp add: shared_inv_def live_inv_def)
next
  case (sh_sub t b)
  have sum: "n_handles ((held s)[t := held s ! t - 1]) = n_handles (held s) - 1" using sh_sub by (intro sum_dec)
  have b: "b = \<lparr>m_count = of_nat (n_handles (held s)), cb_obj = ptr, cb_deleter = d\<rparr>" using sh_sub live by (simp add: live_inv_def)
  show ?thesis
  proof (cases "n_handles (held s) = 1")
    case True
    with sh_sub live nf sum b have "dying_inv ptr d s'" by (auto simp: dying_inv_def live_inv_def)
    with True sum nf sh_sub show ?thesis by (simp add: shared_inv_def)
  next
    case False
    with live have "n_handles (held s) > 1" by (simp add: live_inv_def)
    then have "of_nat (n_handles (held s)) - 1 = (of_nat (n_handles (held s) - 1) :: u64_t)" by (simp add: of_nat_diff)
    moreover have "(of_nat (n_handles (held s)) :: u64_t) \<noteq> 1" using False lim count_is_one by blast
    ultimately have "live_inv ptr d s'"
      using sh_sub live sum b False \<open>n_handles (held s) > 1\<close> by (auto simp: live_inv_def)
    with sum lim nf sh_sub show ?thesis by (simp add: shared_inv_def)
  qed
qed (use live in \<open>simp_all add: live_inv_def\<close>)

lemma shared_dying_step:
  assumes dying: "dying_inv ptr d s" and nf: "\<not> fault s" and st: "shared_step s s'"
  shows "shared_inv ptr d s' \<and> n_handles (held s') = 0 \<and> \<not> live_inv ptr d s'"
proof -
  have z: "n_handles (held s) = 0" using dying by (simp add: dying_inv_def)
  from st show ?thesis
  proof cases
    case (sh_delete t b)
    with dying have "pcs s = (\<lambda>_. RIdle)(t := RDelete)" "del_calls s = []" "b = \<lparr>m_count = 0, cb_obj = ptr, cb_deleter = d\<rparr>"
      by (auto simp: dying_inv_def fun_upd_def split: if_splits)
    with sh_delete z nf show ?thesis
      by (auto simp: shared_inv_def dying_inv_def live_inv_def obj_calls_def split: option.splits)
  next
    case (sh_free t b)
    with dying have "pcs s = (\<lambda>_. RIdle)(t := RFree)" "del_calls s = obj_calls ptr d"
      by (auto simp: dying_inv_def fun_upd_def split: if_splits)
    with sh_free z nf show ?thesis by (auto simp: shared_inv_def dead_inv_def live_inv_def)
  qed (use dying held_zero [OF z] in \<open>auto simp: dying_inv_def touches_def\<close>)
qed

lemma shared_dead_stuck: "dead_inv ptr d s \<Longrightarrow> \<not> shared_step s s'"
  by (auto simp: dead_inv_def touches_def held_zero elim!: shared_step_elim)

interpretation shared: inductive_invariant "shared_init n ptr d" shared_step "shared_inv ptr d" for n ptr d
proof
  show "shared_inv ptr d s" if "shared_init n ptr d s" for s
    using that by (simp add: shared_init_def shared_inv_def live_inv_def n_handles_def sum_list_replicate)
  show "shared_inv ptr d s'" if "shared_inv ptr d s" "shared_step s s'" for s s'
    using that shared_live_step [of ptr d s s'] shared_dying_step [of ptr d s s'] shared_dead_stuck [of ptr d s s']
    unfolding shared_inv_def [of ptr d s] by blast
qed

section \<open>The last handle\<close>

text \<open>Steps left until the block is gone, once no handle shares it.\<close>

fun rel_rank :: "rel_pc \<Rightarrow> nat" where
  "rel_rank RIdle = 0"
| "rel_rank RFree = 1"
| "rel_rank RDelete = 2"

definition shared_rank :: "'d shared_sys \<Rightarrow> nat" where
  "shared_rank s = (\<Sum>t<length (held s). rel_rank (pcs s t))"

lemma shared_rank_upd:
  "t < length (held s) \<Longrightarrow> pcs s = (\<lambda>_. RIdle)(t := p) \<Longrightarrow> shared_rank s = rel_rank p"
  by (simp add: shared_rank_def sum.remove [of _ t])

interpretation last_handle: terminating_system shared_step
  "\<lambda>s. \<not> fault s \<and> (dying_inv ptr d s \<or> dead_inv ptr d s)" shared_rank "dead_inv ptr d" for ptr d
proof
  fix s s' assume r: "\<not> fault s \<and> (dying_inv ptr d s \<or> dead_inv ptr d s)"
  { assume st: "shared_step s s'"
    with r shared_dead_stuck [of ptr d s s'] have dy: "dying_inv ptr d s" by blast
    note inv = shared_dying_step [OF dy _ st]
    from st have "shared_rank s' < shared_rank s"
    proof cases
      case (sh_delete t b)
      with dy have "pcs s = (\<lambda>_. RIdle)(t := RDelete)" by (auto simp: dying_inv_def fun_upd_def split: if_splits)
      with sh_delete shared_rank_upd [of t s RDelete] shared_rank_upd [of t s' RFree] show ?thesis by simp
    next
      case (sh_free t b)
      with dy have "pcs s = (\<lambda>_. RIdle)(t := RFree)" by (auto simp: dying_inv_def fun_upd_def split: if_splits)
      with sh_free shared_rank_upd [of t s RFree] shared_rank_upd [of t s' RIdle] show ?thesis by simp
    qed (use dy held_zero [of "held s"] in \<open>auto simp: dying_inv_def touches_def\<close>)
    with inv r show "(\<not> fault s' \<and> (dying_inv ptr d s' \<or> dead_inv ptr d s')) \<and> shared_rank s' < shared_rank s"
      by (auto simp: shared_inv_def) }
  assume "\<not> dead_inv ptr d s"
  with r have "dying_inv ptr d s" by blast
  then obtain t b where "t < length (held s)" "block s = Some b" "pcs s t = RDelete \<or> pcs s t = RFree"
    by (auto simp: dying_inv_def)
  then show "\<exists>s'. shared_step s s'" by (blast intro: sh_delete sh_free)
qed

lemma dying_rank: "dying_inv ptr d s \<or> dead_inv ptr d s \<Longrightarrow> shared_rank s \<le> 2"
  by (auto simp: dying_inv_def dead_inv_def shared_rank_upd) (simp add: shared_rank_def)

section \<open>Properties\<close>

text \<open>
  C26. Reference counting is safe between threads. In every interleaving of copies, moves and
  releases no thread touches a control block that is gone; while some handle shares the block,
  the count is the number of such handles, the object is there and the deleter has not been
  called; once no handle is left, every run ends within two steps, and it ends with the
  deleter called once on the object and the block freed.\<close>

theorem shared_ptr_threads:
  assumes "reach (shared_init n ptr d) shared_step s"
  shows "\<not> fault s \<and>
    (n_handles (held s) > 0 \<longrightarrow> (\<exists>b. block s = Some b \<and> unat (m_count b) = n_handles (held s) \<and> cb_obj b = ptr) \<and> del_calls s = []) \<and>
    (n_handles (held s) = 0 \<longrightarrow>
      (\<forall>m t. (shared_step ^^ m) s t \<longrightarrow> m \<le> 2) \<and>
      (\<exists>m t. (shared_step ^^ m) s t \<and> block t = None \<and> del_calls t = obj_calls ptr d) \<and>
      (block s = None \<longrightarrow> del_calls s = obj_calls ptr d))"
proof -
  note inv = shared.reach_inv [OF assms]
  then have nf: "\<not> fault s" and lim: "n_handles (held s) < 2 ^ 64" by (simp_all add: shared_inv_def)
  show ?thesis
  proof (cases "live_inv ptr d s")
    case True
    with lim have "unat (of_nat (n_handles (held s)) :: u64_t) = n_handles (held s)" by (simp add: unat_of_nat take_bit_eq_mod)
    with True nf show ?thesis by (simp add: live_inv_def)
  next
    case False
    with inv have r: "dying_inv ptr d s \<or> dead_inv ptr d s" by (simp add: shared_inv_def)
    with nf have reg: "\<not> fault s \<and> (dying_inv ptr d s \<or> dead_inv ptr d s)" by simp
    have "m \<le> 2" if "(shared_step ^^ m) s t" for m t
      using last_handle.run_bound [OF that reg] dying_rank [OF r] by simp
    moreover have "\<exists>m t. (shared_step ^^ m) s t \<and> block t = None \<and> del_calls t = obj_calls ptr d"
      using last_handle.reaches_goal [OF reg] by (auto simp: dead_inv_def)
    moreover have "block s = None \<longrightarrow> del_calls s = obj_calls ptr d" using r by (auto simp: dying_inv_def dead_inv_def)
    moreover have "n_handles (held s) = 0" using r by (auto simp: dying_inv_def dead_inv_def)
    ultimately show ?thesis using nf by simp
  qed
qed

theorem shared_ptr_threads_witness:
  "\<exists>s. reach (shared_init 1 (Some 7) ()) shared_step s \<and> held s = [1, 1] \<and>
     (\<exists>b. block s = Some b \<and> unat (m_count b) = 2) \<and> del_calls s = []"
proof -
  let ?s0 = "\<lparr>block = Some \<lparr>m_count = 1, cb_obj = Some 7, cb_deleter = ()\<rparr>, held = [1, 0], pcs = (\<lambda>_. RIdle), del_calls = [], fault = False\<rparr>"
  let ?s1 = "?s0\<lparr>block := Some \<lparr>m_count = 2, cb_obj = Some 7, cb_deleter = ()\<rparr>, held := [1 + 1, 0]\<rparr>"
  let ?s2 = "?s1\<lparr>held := [1, 1]\<rparr>"
  have "shared_init 1 (Some 7) () ?s0" by (simp add: shared_init_def)
  moreover have "shared_step ?s0 ?s1"
    using sh_add_ref [of 0 ?s0 "\<lparr>m_count = 1, cb_obj = Some 7, cb_deleter = ()\<rparr>"] by (simp add: n_handles_def)
  moreover have "shared_step ?s1 ?s2" using sh_move [of 0 ?s1 1] by simp
  ultimately have r: "reach (shared_init 1 (Some 7) ()) shared_step ?s2"
    by (intro reach_step [of _ _ ?s1 ?s2] reach_step [of _ _ ?s0 ?s1] reach_init)
  from shared_ptr_threads [OF r] have "\<exists>b. block ?s2 = Some b \<and> unat (m_count b) = 2" "del_calls ?s2 = []"
    by (simp_all add: n_handles_def)
  with r show ?thesis by (intro exI [of _ ?s2]) simp
qed

text \<open>
  A release that no other thread interrupts ends as the sequential one of \<^verbatim>\<open>Shared_Ptr\<close>: the same
  control block is left, or none, and the same calls of the deleter were made.\<close>

theorem release_alone:
  assumes "block s = Some b" "cbs q c = Some b" "deleted q = del_calls s" "t < length (held s)" "pcs s t = RIdle" "held s ! t > 0"
  shows "\<exists>s' q'. shared_step\<^sup>*\<^sup>* s s' \<and> cb_release q c = Inr q' \<and> block s' = cbs q' c \<and> del_calls s' = deleted q' \<and> pcs s' t = RIdle"
proof -
  let ?s1 = "s\<lparr>block := Some (b\<lparr>m_count := m_count b - 1\<rparr>), held := (held s)[t := held s ! t - 1],
      pcs := (pcs s)(t := if m_count b = 1 then RDelete else RIdle)\<rparr>"
  have st1: "shared_step s ?s1" using assms by (intro sh_sub)
  show ?thesis
  proof (cases "m_count b = 1")
    case True
    let ?s2 = "?s1\<lparr>block := Some (b\<lparr>m_count := 0, cb_obj := None\<rparr>), pcs := (pcs ?s1)(t := RFree),
      del_calls := (case cb_obj b of None \<Rightarrow> del_calls s | Some ob \<Rightarrow> del_calls s @ [(cb_deleter b, ob)])\<rparr>"
    let ?s3 = "?s2\<lparr>block := None, pcs := (pcs ?s2)(t := RIdle)\<rparr>"
    have "shared_step ?s1 ?s2"
      using sh_delete [of t ?s1 "b\<lparr>m_count := m_count b - 1\<rparr>"] assms(4) True by (cases "cb_obj b") simp_all
    moreover have "shared_step ?s2 ?s3" using assms(4) by (intro sh_free [of t _ "b\<lparr>m_count := 0, cb_obj := None\<rparr>"]) simp_all
    ultimately have "shared_step\<^sup>*\<^sup>* s ?s3" using st1 by (meson converse_rtranclp_into_rtranclp r_into_rtranclp)
    with assms True show ?thesis by (intro exI [of _ ?s3]) (auto simp: cb_release_def split: option.split)
  next
    case False
    with assms st1 show ?thesis by (intro exI [of _ ?s1]) (auto simp: cb_release_def)
  qed
qed

theorem release_alone_witness:
  "\<exists>s' q'. shared_step\<^sup>*\<^sup>* \<lparr>block = Some \<lparr>m_count = 1, cb_obj = Some 7, cb_deleter = ()\<rparr>, held = [1], pcs = (\<lambda>_. RIdle), del_calls = [], fault = False\<rparr> s' \<and>
     cb_release (sp_start\<lparr>cbs := [0 \<mapsto> \<lparr>m_count = 1, cb_obj = Some 7, cb_deleter = ()\<rparr>]\<rparr>) 0 = Inr q' \<and> del_calls s' = deleted q'"
  using release_alone [of "\<lparr>block = Some \<lparr>m_count = 1, cb_obj = Some 7, cb_deleter = ()\<rparr>, held = [1], pcs = (\<lambda>_. RIdle), del_calls = [], fault = False\<rparr>"
      "\<lparr>m_count = 1, cb_obj = Some 7, cb_deleter = ()\<rparr>" "sp_start\<lparr>cbs := [0 \<mapsto> \<lparr>m_count = 1, cb_obj = Some 7, cb_deleter = ()\<rparr>]\<rparr>" 0 0]
  by (auto simp: sp_start_def)

end
