(* ===== verification/Shared_Nested.thy ===== *)
theory Shared_Nested
  imports Shared_Ptr
begin

text \<open>
  Shared handles inside the objects they manage, as in a linked list, for
  \<^verbatim>\<open>include/fiah/handle/SharedPtr.hh\<close>. When the last handle goes, \<^verbatim>\<open>release\<close> calls the deleter, the deleter destroys the
  object, and the object's destructor destroys the handles that are its members, the last one first, which can
  release further objects. The parameter \<open>members\<close> gives the member handles of each object. A release
  may go as deep as a chain of objects is long: it has fuel for its depth, and \<open>None\<close> is the
  answer when that is used up.
\<close>

section \<open>Releasing objects that own handles\<close>

definition bind_fuel :: "'a res option \<Rightarrow> ('a \<Rightarrow> 'b res option) \<Rightarrow> 'b res option" where
  "bind_fuel m f = (case m of None \<Rightarrow> None | Some (Inl e) \<Rightarrow> Some (Inl e) | Some (Inr x) \<Rightarrow> f x)"

lemma bind_fuel_simps [simp]:
  "bind_fuel None f = None" "bind_fuel (Some (Inl e)) f = Some (Inl e)" "bind_fuel (Some (Inr x)) f = f x"
  by (simp_all add: bind_fuel_def)

lemma bind_fuel_InrD: "bind_fuel m f = Some (Inr y) \<Longrightarrow> \<exists>x. m = Some (Inr x) \<and> f x = Some (Inr y)"
  by (auto simp: bind_fuel_def split: option.splits sum.splits)

fun nested_release :: "nat \<Rightarrow> (nat \<Rightarrow> u64_t list) \<Rightarrow> 'd sp_state \<Rightarrow> nat option \<Rightarrow> 'd sp_state res option"
  and nested_destroy :: "nat \<Rightarrow> (nat \<Rightarrow> u64_t list) \<Rightarrow> 'd sp_state \<Rightarrow> u64_t list \<Rightarrow> 'd sp_state res option" where
  "nested_release 0 members s p = None"
| "nested_release (Suc k) members s None = Some (Inr s)"
| "nested_release (Suc k) members s (Some c) =
     (case cbs s c of
        None \<Rightarrow> Some (Inl UseAfterFree)
      | Some b \<Rightarrow>
          let s1 = s\<lparr>cbs := (cbs s)(c \<mapsto> b\<lparr>m_count := m_count b - 1\<rparr>)\<rparr>
          in if m_count b = 1 then
               bind_fuel
                 (case cb_obj b of
                    None \<Rightarrow> Some (Inr s1)
                  | Some ob \<Rightarrow> nested_destroy k members (s1\<lparr>deleted := deleted s1 @ [(cb_deleter b, ob)]\<rparr>) (rev (members ob)))
                 (\<lambda>s2. Some (Inr (s2\<lparr>cbs := (cbs s2)(c := None)\<rparr>)))
             else Some (Inr s1))"
| "nested_destroy k members s [] = Some (Inr s)"
| "nested_destroy k members s (x # xs) =
     (case handles s x of
        None \<Rightarrow> Some (Inl DeadObject)
      | Some h \<Rightarrow> bind_fuel (nested_release k members s (p_cb h)) (\<lambda>s1.
                    nested_destroy k members (s1\<lparr>handles := (handles s1)(x := None)\<rparr>) xs))"

text \<open>The assignments: the old object is released before the other handle is read.\<close>

definition nested_assign :: "nat \<Rightarrow> (nat \<Rightarrow> u64_t list) \<Rightarrow> 'd sp_state \<Rightarrow> u64_t \<Rightarrow> u64_t \<Rightarrow> 'd sp_state res option" where
  "nested_assign k members s this other =
     (if this = other then Some (Inr s)
      else bind_fuel (Some (get_handle s this)) (\<lambda>h.
             bind_fuel (nested_release k members s (p_cb h)) (\<lambda>s.
               bind_fuel (Some (get_handle s other)) (\<lambda>h'.
                 Some (add_ref_opt (set_handle s this h') (p_cb h'))))))"

definition nested_move_assign :: "nat \<Rightarrow> (nat \<Rightarrow> u64_t list) \<Rightarrow> 'd sp_state \<Rightarrow> u64_t \<Rightarrow> u64_t \<Rightarrow> 'd sp_state res option" where
  "nested_move_assign k members s this other =
     (if this = other then Some (Inr s)
      else bind_fuel (Some (get_handle s this)) (\<lambda>h.
             bind_fuel (nested_release k members s (p_cb h)) (\<lambda>s.
               bind_fuel (Some (get_handle s other)) (\<lambda>h'.
                 Some (Inr (set_handle (set_handle s this h') other null_handle))))))"

section \<open>What a release leaves\<close>

text \<open>Handles are only destroyed, and those of a deleted object all are.\<close>

definition only_destroyed :: "'d sp_state \<Rightarrow> 'd sp_state \<Rightarrow> bool" where
  "only_destroyed s t \<longleftrightarrow> (\<forall>x. handles t x = None \<or> handles t x = handles s x)"

definition dying :: "'d sp_state \<Rightarrow> nat \<Rightarrow> 'd control_block \<Rightarrow> nat \<Rightarrow> 'd sp_state" where
  "dying s c b ob = s\<lparr>cbs := (cbs s)(c \<mapsto> b\<lparr>m_count := 0\<rparr>), deleted := deleted s @ [(cb_deleter b, ob)]\<rparr>"

lemma nested_release_last:
  "cbs s c = Some b \<Longrightarrow> m_count b = 1 \<Longrightarrow> cb_obj b = Some ob \<Longrightarrow> nested_release (Suc k) members s (Some c) =
     bind_fuel (nested_destroy k members (dying s c b ob) (rev (members ob))) (\<lambda>s2. Some (Inr (s2\<lparr>cbs := (cbs s2)(c := None)\<rparr>)))"
  by (simp add: Let_def dying_def)

lemma nested_handles:
  "nested_release k members s p = Some (Inr t) \<Longrightarrow> only_destroyed s t"
  "nested_destroy k members s xs = Some (Inr t) \<Longrightarrow> only_destroyed s t \<and> (\<forall>x \<in> set xs. handles t x = None)"
proof (induction k members s p and k members s xs arbitrary: t and t rule: nested_release_nested_destroy.induct)
  case (3 k members s c)
  obtain b where b: "cbs s c = Some b" using 3(2) by (cases "cbs s c") auto
  show ?case
  proof (cases "m_count b = 1 \<and> cb_obj b \<noteq> None")
    case True
    then obtain ob where ob: "m_count b = 1" "cb_obj b = Some ob" by auto
    from 3(2) obtain s2 where "nested_destroy k members (dying s c b ob) (rev (members ob)) = Some (Inr s2)" "handles t = handles s2"
      unfolding nested_release_last [OF b ob] by (auto dest!: bind_fuel_InrD)
    with 3(1) [OF b refl ob] ob show ?thesis by (auto simp: only_destroyed_def dying_def)
  next
    case False
    with 3(2) b show ?thesis by (auto simp: Let_def only_destroyed_def split: if_splits)
  qed
next
  case (5 k members s x xs)
  then obtain h s1 where h: "handles s x = Some h" "nested_release k members s (p_cb h) = Some (Inr s1)"
    "nested_destroy k members (s1\<lparr>handles := (handles s1)(x := None)\<rparr>) xs = Some (Inr t)"
    by (auto dest!: bind_fuel_InrD split: option.splits)
  from 5(1) [OF h(1,2)] 5(2) [OF h(1,3)] show ?case by (auto simp: only_destroyed_def split: if_splits) metis
qed (auto simp: only_destroyed_def)

lemma release_members:
  assumes "nested_release k members s (Some c) = Some (Inr t)" "cbs s c = Some b" "m_count b = 1" "cb_obj b = Some ob"
    "y \<in> set (members ob)"
  shows "handles t y = None"
proof (cases k)
  case (Suc n)
  from assms(1) obtain s2 where s2: "nested_destroy n members (dying s c b ob) (rev (members ob)) = Some (Inr s2)" "handles t = handles s2"
    unfolding Suc nested_release_last [OF assms(2-4)] by (auto dest!: bind_fuel_InrD)
  from nested_handles(2) [OF s2(1)] assms(5) s2(2) show ?thesis by simp
qed (use assms in simp)

section \<open>Linked lists\<close>

text \<open>A chain of control blocks with their objects; each object has one member, the handle to the next.\<close>

fun list_rep :: "(nat \<Rightarrow> u64_t list) \<Rightarrow> 'd sp_state \<Rightarrow> nat option \<Rightarrow> (nat \<times> nat) list \<Rightarrow> bool" where
  "list_rep members s p [] \<longleftrightarrow> p = None"
| "list_rep members s p ((c, ob) # nodes) \<longleftrightarrow> p = Some c \<and>
     (\<exists>b a h. cbs s c = Some b \<and> m_count b = 1 \<and> cb_obj b = Some ob \<and> members ob = [a] \<and> handles s a = Some h \<and>
        list_rep members s (p_cb h) nodes)"

lemma list_rep_cong:
  "list_rep members s p nodes \<Longrightarrow> handles t = handles s \<Longrightarrow> (\<And>c. c \<in> fst ` set nodes \<Longrightarrow> cbs t c = cbs s c) \<Longrightarrow>
   list_rep members t p nodes"
proof (induction nodes arbitrary: p)
  case (Cons n nodes)
  obtain c ob where n: "n = (c, ob)" by (cases n)
  from Cons.prems(1) obtain b a h where "p = Some c" "cbs s c = Some b" "m_count b = 1" "cb_obj b = Some ob" "members ob = [a]"
    "handles s a = Some h" "list_rep members s (p_cb h) nodes" by (auto simp: n)
  with Cons.IH [of "p_cb h"] Cons.prems(2,3) show ?case by (auto simp: n)
qed simp

lemma list_release:
  "list_rep members s p nodes \<Longrightarrow> distinct (map fst nodes) \<Longrightarrow> length nodes < k \<Longrightarrow>
   \<exists>t. nested_release k members s p = Some (Inr t) \<and> map snd (deleted t) = map snd (deleted s) @ map snd nodes \<and>
     (\<forall>c. cbs t c = (if c \<in> fst ` set nodes then None else cbs s c))"
proof (induction nodes arbitrary: k s p)
  case Nil
  then show ?case by (cases k) auto
next
  case (Cons n nodes)
  obtain c ob where n: "n = (c, ob)" by (cases n)
  obtain j where j: "k = Suc j" "length nodes < j" using Cons.prems(3) by (cases k) auto
  from Cons.prems(1) obtain b a h where b: "p = Some c" "cbs s c = Some b" "m_count b = 1" "cb_obj b = Some ob" "members ob = [a]"
    "handles s a = Some h" "list_rep members s (p_cb h) nodes" by (auto simp: n)
  define s1 where "s1 = dying s c b ob"
  note s1_def = s1_def [unfolded dying_def]
  have "list_rep members s1 (p_cb h) nodes"
    using Cons.prems(2) by (intro list_rep_cong [OF b(7)]) (auto simp: n s1_def)
  with Cons.IH [of s1 "p_cb h" j] Cons.prems(2) j obtain t where t: "nested_release j members s1 (p_cb h) = Some (Inr t)"
    "map snd (deleted t) = map snd (deleted s1) @ map snd nodes" "\<forall>c. cbs t c = (if c \<in> fst ` set nodes then None else cbs s1 c)"
    by (auto simp: n)
  let ?t = "t\<lparr>handles := (handles t)(a := None), cbs := (cbs t)(c := None)\<rparr>"
  have "nested_destroy j members s1 [a] = Some (Inr (t\<lparr>handles := (handles t)(a := None)\<rparr>))" using b(6) t(1) by (simp add: s1_def)
  then have "nested_release k members s p = Some (Inr ?t)" using b j by (simp add: s1_def Let_def)
  with t(2,3) show ?case by (intro exI [of _ ?t]) (auto simp: n s1_def)
qed

section \<open>Properties\<close>

text \<open>
  C29. Destroying a linked list. When the only handle to a list of objects goes, every object of the list is deleted
  once, from the first to the last, with its control block; the calls nest as deep as the list is long.\<close>

theorem list_destroyed:
  assumes "handles s x = Some h" and "list_rep members s (p_cb h) nodes" and "distinct (map fst nodes)"
  shows "\<exists>t. nested_destroy (Suc (length nodes)) members s [x] = Some (Inr t) \<and> handles t x = None \<and>
    map snd (deleted t) = map snd (deleted s) @ map snd nodes \<and> (\<forall>c \<in> fst ` set nodes. cbs t c = None)"
proof -
  obtain t where "nested_release (Suc (length nodes)) members s (p_cb h) = Some (Inr t)"
    "map snd (deleted t) = map snd (deleted s) @ map snd nodes" "\<forall>c. cbs t c = (if c \<in> fst ` set nodes then None else cbs s c)"
    using list_release [OF assms(2,3), of "Suc (length nodes)"] by auto
  with assms(1) show ?thesis by (intro exI [of _ "t\<lparr>handles := (handles t)(x := None)\<rparr>"]) auto
qed

lemma assign_release:
  assumes "handles s this = Some h" "this \<noteq> other" "nested_release k members s (p_cb h) = Some (Inr t)" "handles t other = None"
  shows "nested_assign k members s this other = Some (Inl DeadObject)" "nested_move_assign k members s this other = Some (Inl DeadObject)"
  using assms by (simp_all add: nested_assign_def nested_move_assign_def get_handle_def)

text \<open>
  C25. Assigning from a member of the own object. When a handle shares its object with another one,
  assigning to it from a handle inside the object works as on independent handles. When it is the only one, both
  assignments release the object first; whenever that release ends, it has destroyed the other handle, and the
  assignment then reads that destroyed handle, which is the fault it ends with. For a linked list of any length, with
  fuel for its length, the release does end, all objects of the list are deleted by it, and the assignment ends with
  that fault: the usual step \<^verbatim>\<open>head = head->next\<close> from a list node to the next.\<close>

theorem nested_assign_exact:
  assumes "handles s this = Some h" and "p_cb h = Some c" and "cbs s c = Some b" and "cb_obj b = Some ob"
    and "other \<in> set (members ob)" and "this \<noteq> other"
  shows "(m_count b \<noteq> 1 \<longrightarrow> nested_assign (Suc k) members s this other = Some (sp_assign s this other) \<and>
      nested_move_assign (Suc k) members s this other = Some (sp_move_assign s this other)) \<and>
    (m_count b = 1 \<longrightarrow> (\<forall>t. nested_release k members s (Some c) = Some (Inr t) \<longrightarrow> handles t other = None \<and>
      nested_assign k members s this other = Some (Inl DeadObject) \<and> nested_move_assign k members s this other = Some (Inl DeadObject))) \<and>
    (\<forall>nodes. list_rep members s (Some c) nodes \<and> distinct (map fst nodes) \<and> length nodes < k \<longrightarrow>
      (\<exists>t. nested_release k members s (Some c) = Some (Inr t) \<and> map snd (deleted t) = map snd (deleted s) @ map snd nodes) \<and>
      nested_assign k members s this other = Some (Inl DeadObject) \<and> nested_move_assign k members s this other = Some (Inl DeadObject))"
proof -
  have shared: "nested_assign (Suc k) members s this other = Some (sp_assign s this other) \<and>
      nested_move_assign (Suc k) members s this other = Some (sp_move_assign s this other)" if "m_count b \<noteq> 1"
  proof -
    have "nested_release (Suc k) members s (Some c) = Some (cb_release s c)" using that assms(3) by (simp add: cb_release_def Let_def)
    with assms show ?thesis
      by (simp add: nested_assign_def nested_move_assign_def sp_assign_def sp_move_assign_def get_handle_def release_opt_def bind_fuel_def
          bind_res_def split: sum.splits option.splits)
  qed
  have sole: "handles t other = None \<and> nested_assign k members s this other = Some (Inl DeadObject) \<and>
      nested_move_assign k members s this other = Some (Inl DeadObject)"
    if "m_count b = 1" "nested_release k members s (Some c) = Some (Inr t)" for t
    using release_members [OF that(2) assms(3) that(1) assms(4,5)] assign_release [OF assms(1,6), of k members t] that(2) assms(2) by simp
  have "(\<exists>t. nested_release k members s (Some c) = Some (Inr t) \<and> map snd (deleted t) = map snd (deleted s) @ map snd nodes) \<and>
      nested_assign k members s this other = Some (Inl DeadObject) \<and> nested_move_assign k members s this other = Some (Inl DeadObject)"
    if l: "list_rep members s (Some c) nodes" "distinct (map fst nodes)" "length nodes < k" for nodes
  proof -
    obtain t where t: "nested_release k members s (Some c) = Some (Inr t)" "map snd (deleted t) = map snd (deleted s) @ map snd nodes"
      using list_release [OF l] by blast
    have "m_count b = 1" using l(1) assms(3) by (cases nodes) auto
    from sole [OF this t(1)] t show ?thesis by blast
  qed
  with shared sole show ?thesis by blast
qed

text \<open>A list of two nodes: \<^verbatim>\<open>head = head->next\<close> reads the handle of the first node after it was destroyed.\<close>

definition two_nodes :: "unit sp_state" where
  "two_nodes = \<lparr>handles = [1 \<mapsto> \<lparr>p_obj = Some 10, p_cb = Some 0\<rparr>, 2 \<mapsto> \<lparr>p_obj = Some 20, p_cb = Some 1\<rparr>, 3 \<mapsto> null_handle],
     cbs = [0 \<mapsto> \<lparr>m_count = 1, cb_obj = Some 10, cb_deleter = ()\<rparr>, 1 \<mapsto> \<lparr>m_count = 1, cb_obj = Some 20, cb_deleter = ()\<rparr>],
     cb_next = 2, adopted = [((), 10), ((), 20)], deleted = []\<rparr>"

definition next_member :: "nat \<Rightarrow> u64_t list" where
  "next_member ob = (if ob = 10 then [2] else if ob = 20 then [3] else [])"

theorem list_destroyed_witness: "\<exists>t. nested_destroy 3 next_member two_nodes [1] = Some (Inr t) \<and> map snd (deleted t) = [10, 20]"
  using list_destroyed [of two_nodes 1 _ next_member "[(0, 10), (1, 20)]"]
  by (auto simp: two_nodes_def next_member_def null_handle_def numeral_3_eq_3)

theorem nested_assign_exact_witness:
  "nested_assign 3 next_member two_nodes 1 2 = Some (Inl DeadObject) \<and> nested_move_assign 3 next_member two_nodes 1 2 = Some (Inl DeadObject)"
proof -
  have h: "handles two_nodes 1 = Some \<lparr>p_obj = Some 10, p_cb = Some 0\<rparr>" "p_cb \<lparr>p_obj = Some 10, p_cb = Some 0\<rparr> = Some 0"
    "cbs two_nodes 0 = Some \<lparr>m_count = 1, cb_obj = Some 10, cb_deleter = ()\<rparr>"
    "cb_obj \<lparr>m_count = 1, cb_obj = Some 10, cb_deleter = ()\<rparr> = Some 10" "2 \<in> set (next_member 10)" "(1 :: u64_t) \<noteq> 2"
    by (simp_all add: two_nodes_def next_member_def)
  have "list_rep next_member two_nodes (Some 0) [(0, 10), (1, 20)] \<and> distinct (map fst [(0 :: nat, 10 :: nat), (1, 20)]) \<and>
      length [(0 :: nat, 10 :: nat), (1, 20)] < 3"
    by (simp add: two_nodes_def next_member_def null_handle_def)
  from nested_assign_exact [of two_nodes 1, OF h(1-4), of 2 next_member 3, OF h(5,6), THEN conjunct2, THEN conjunct2, THEN spec, THEN mp, OF this]
  show ?thesis by blast
qed

end
