(* ===== verification/Handle_Heap.thy ===== *)
theory Handle_Heap
  imports Raw_Heap
begin

text \<open>
  Programs of handles on a heap. A model of handles records which objects its calls delete; here
  the same calls run on a heap, where \<^verbatim>\<open>new\<close> takes a block and constructs an object in it, and a
  deleter is called for every recorded deletion. The parameter \<open>obj\<close> is the value a constructor
  gives to each object; objects are numbered by their blocks. The locale \<open>handle_heap\<close> says what a
  model of handles and a deleter must promise so that no program leaks or touches a released block.
\<close>

section \<open>Calls on a heap\<close>

definition new_object :: "(nat \<Rightarrow> 'a) \<Rightarrow> 'a heap \<Rightarrow> nat option \<Rightarrow> 'a heap res" where
  "new_object obj h new =
     (case new of
        None \<Rightarrow> Inr h
      | Some ob \<Rightarrow> (let (ptr, h) = heap_new h 1 in heap_construct h ptr (obj ob)))"

fun run_deleters :: "('a heap \<Rightarrow> nat option \<Rightarrow> 'a heap res) \<Rightarrow> 'a heap \<Rightarrow> nat list \<Rightarrow> 'a heap res" where
  "run_deleters del h [] = Inr h"
| "run_deleters del h (ob # obs) = bind_res (del h (Some ob)) (\<lambda>h. run_deleters del h obs)"

text \<open>An object in the argument of a call is made before the call, and the call makes its deletions.\<close>

definition heap_call ::
  "('a heap \<Rightarrow> nat option \<Rightarrow> 'a heap res) \<Rightarrow> (nat \<Rightarrow> 'a) \<Rightarrow> ('s \<Rightarrow> 'c \<Rightarrow> 's res) \<Rightarrow> ('s \<Rightarrow> nat list) \<Rightarrow> ('c \<Rightarrow> nat option) \<Rightarrow>
   'a heap \<times> 's \<Rightarrow> 'c \<Rightarrow> ('a heap \<times> 's) res" where
  "heap_call del obj exec dels news = (\<lambda>(h, s) p.
     bind_res (new_object obj h (news p)) (\<lambda>h.
     bind_res (exec s p) (\<lambda>t.
     bind_res (run_deleters del h (drop (length (dels s)) (dels t))) (\<lambda>h. Inr (h, t)))))"

definition heap_legal :: "('s \<Rightarrow> 'c \<Rightarrow> bool) \<Rightarrow> ('c \<Rightarrow> nat option) \<Rightarrow> 'a heap \<times> 's \<Rightarrow> 'c \<Rightarrow> bool" where
  "heap_legal legal news = (\<lambda>(h, s) p. legal s p \<and> (case news p of None \<Rightarrow> True | Some ob \<Rightarrow> ob = hnext h))"

section \<open>Blocks of live objects\<close>

definition live_blocks :: "(nat \<Rightarrow> 'a) \<Rightarrow> nat set \<Rightarrow> nat \<rightharpoonup> 'a option list" where
  "live_blocks obj A = (\<lambda>b. if b \<in> A then Some [Some (obj b)] else None)"

lemma live_blocks_remove: "(live_blocks obj A)(ob := None) = live_blocks obj (A - {ob})"
  by (auto simp: live_blocks_def)

lemma live_blocks_add: "(live_blocks obj A)(ob \<mapsto> [Some (obj ob)]) = live_blocks obj (insert ob A)"
  by (auto simp: live_blocks_def)

lemma live_blocks_in: "ob \<in> A \<Longrightarrow> live_blocks obj A ob = Some [Some (obj ob)]"
  by (simp add: live_blocks_def)

lemma live_blocks_empty: "live_blocks obj {} = Map.empty"
  by (simp add: live_blocks_def)

lemma dom_live_blocks: "dom (live_blocks obj A) = A"
  by (auto simp: live_blocks_def split: if_splits)

lemma new_object_live:
  assumes "hblocks h = live_blocks obj A" "case new of None \<Rightarrow> True | Some ob \<Rightarrow> ob = hnext h"
  shows "\<exists>h'. new_object obj h new = Inr h' \<and> hblocks h' = live_blocks obj (A \<union> set_option new) \<and>
    hnext h' = hnext h + (if new = None then 0 else 1)"
  using assms by (cases new) (simp_all add: new_object_def heap_new_def heap_construct_def heap_update_def construct_at_def live_blocks_add)

text \<open>Destroying the object of a block and releasing the block, as both \<^verbatim>\<open>default_deleter\<close>s do.\<close>

lemma delete_live:
  "ob \<in> A \<Longrightarrow> hblocks h = live_blocks obj A \<Longrightarrow>
   bind_res (heap_destroy h (Some (ob, 0))) (\<lambda>h. heap_free h (Some (ob, 0))) = Inr (h\<lparr>hblocks := live_blocks obj (A - {ob})\<rparr>)"
  by (simp add: heap_destroy_def heap_update_def live_blocks_in destroy_at_def heap_free_def flip: live_blocks_remove)

section \<open>What handles and deleters promise\<close>

locale handle_heap =
  fixes del :: "'a heap \<Rightarrow> nat option \<Rightarrow> 'a heap res"
    and exec :: "'s \<Rightarrow> 'c \<Rightarrow> 's res"
    and legal :: "'s \<Rightarrow> 'c \<Rightarrow> bool"
    and dels :: "'s \<Rightarrow> nat list"
    and news :: "'c \<Rightarrow> nat option"
    and live :: "'s \<Rightarrow> nat set"
    and known :: "'s \<Rightarrow> nat set"
    and inv :: "'s \<Rightarrow> bool"
    and start :: 's
  assumes inv_start: "inv start"
    and live_start: "live start = {}"
    and known_start: "known start = {}"
    and del_live: "ob \<in> A \<Longrightarrow> hblocks h = live_blocks obj A \<Longrightarrow> del h (Some ob) = Inr (h\<lparr>hblocks := live_blocks obj (A - {ob})\<rparr>)"
    and call_ok: "inv s \<Longrightarrow> legal s p \<Longrightarrow> set_option (news p) \<inter> known s = {} \<Longrightarrow>
      \<exists>t ds. exec s p = Inr t \<and> inv t \<and> dels t = dels s @ ds \<and> distinct ds \<and> set ds \<subseteq> live s \<union> set_option (news p) \<and>
        live t = live s \<union> set_option (news p) - set ds \<and> known t = known s \<union> set_option (news p)"
begin

definition heap_inv :: "(nat \<Rightarrow> 'a) \<Rightarrow> 'a heap \<times> 's \<Rightarrow> bool" where
  "heap_inv obj = (\<lambda>(h, s). inv s \<and> hblocks h = live_blocks obj (live s) \<and> known s \<subseteq> {..<hnext h})"

lemma run_deleters_live:
  "distinct obs \<Longrightarrow> set obs \<subseteq> A \<Longrightarrow> hblocks h = live_blocks obj A \<Longrightarrow>
   \<exists>h'. run_deleters del h obs = Inr h' \<and> hblocks h' = live_blocks obj (A - set obs) \<and> hnext h' = hnext h"
proof (induction obs arbitrary: A h)
  case (Cons ob obs)
  let ?h = "h\<lparr>hblocks := live_blocks obj (A - {ob})\<rparr>"
  have "del h (Some ob) = Inr ?h" using Cons.prems by (intro del_live) auto
  moreover have "\<exists>h'. run_deleters del ?h obs = Inr h' \<and> hblocks h' = live_blocks obj (A - {ob} - set obs) \<and> hnext h' = hnext ?h"
    using Cons.prems by (intro Cons.IH) auto
  moreover have "A - {ob} - set obs = A - set (ob # obs)" by auto
  ultimately show ?case by simp
qed simp

lemma heap_inv_call:
  assumes inv: "heap_inv obj (h, s)" and legal: "heap_legal legal news (h, s) p"
  shows "\<exists>h' t. heap_call del obj exec dels news (h, s) p = Inr (h', t) \<and> heap_inv obj (h', t)"
proof -
  have s: "inv s" "hblocks h = live_blocks obj (live s)" "known s \<subseteq> {..<hnext h}" using inv by (auto simp: heap_inv_def)
  have p: "legal s p" "case news p of None \<Rightarrow> True | Some ob \<Rightarrow> ob = hnext h" using legal by (simp_all add: heap_legal_def)
  have new: "set_option (news p) \<inter> known s = {}" using s(3) p(2) by (auto split: option.splits)
  obtain t ds where t: "exec s p = Inr t" "inv t" "dels t = dels s @ ds" "distinct ds" "set ds \<subseteq> live s \<union> set_option (news p)"
    "live t = live s \<union> set_option (news p) - set ds" "known t = known s \<union> set_option (news p)"
    using call_ok [OF s(1) p(1) new] by blast
  obtain h1 where h1: "new_object obj h (news p) = Inr h1" "hblocks h1 = live_blocks obj (live s \<union> set_option (news p))"
    "hnext h1 = hnext h + (if news p = None then 0 else 1)" using new_object_live [OF s(2) p(2)] by blast
  obtain h' where h': "run_deleters del h1 ds = Inr h'" "hblocks h' = live_blocks obj (live s \<union> set_option (news p) - set ds)" "hnext h' = hnext h1"
    using run_deleters_live [OF t(4,5) h1(2)] by blast
  have "known t \<subseteq> {..<hnext h'}" using s(3) p(2) h1(3) h'(3) t(7) by (auto split: option.splits)
  with h1(1) h' t show ?thesis by (simp add: heap_call_def heap_inv_def)
qed

lemma heap_inv_start: "heap_inv obj (empty_heap, start)"
  by (simp add: heap_inv_def empty_heap_def inv_start live_start known_start live_blocks_empty)

lemma heap_call_keeps:
  assumes "heap_inv obj (h, s)" "heap_legal legal news (h, s) p"
  shows "\<exists>h' t. heap_call del obj exec dels news (h, s) p = Inr (h', t) \<and>
    (\<forall>ob \<in> dom (hblocks h) \<inter> dom (hblocks h'). hblocks h' ob = hblocks h ob)"
proof -
  obtain h' t where t: "heap_call del obj exec dels news (h, s) p = Inr (h', t)" "heap_inv obj (h', t)"
    using heap_inv_call [OF assms] by blast
  with assms(1) show ?thesis by (auto simp: heap_inv_def live_blocks_def split: if_splits)
qed

lemma heap_read_live: "heap_inv obj (h, s) \<Longrightarrow> ob \<in> live s \<Longrightarrow> heap_read h (Some (ob, 0)) = Inr (obj ob)"
  by (simp add: heap_inv_def heap_read_def live_blocks_in read_at_def)

lemma heap_blocks: "heap_inv obj (h, s) \<Longrightarrow> dom (hblocks h) = live s"
  by (simp add: heap_inv_def dom_live_blocks)

end

text \<open>The steps of a program: legal calls, one after the other.\<close>

inductive heap_step ::
  "('a heap \<times> 's \<Rightarrow> 'c \<Rightarrow> bool) \<Rightarrow> ('a heap \<times> 's \<Rightarrow> 'c \<Rightarrow> ('a heap \<times> 's) res) \<Rightarrow> 'a heap \<times> 's \<Rightarrow> 'a heap \<times> 's \<Rightarrow> bool"
  for lg call where
  heap_step_call: "lg c p \<Longrightarrow> call c p = Inr c' \<Longrightarrow> heap_step lg call c c'"

inductive_cases heap_step_elim: "heap_step lg call c c'"

lemma reach_heap_call:
  "reach (\<lambda>c. c = c0) (heap_step lg call) c \<Longrightarrow> lg c p \<Longrightarrow> call c p = Inr c' \<Longrightarrow> reach (\<lambda>c. c = c0) (heap_step lg call) c'"
  by (auto intro: reach_step heap_step_call)

lemma reach_heap_start: "reach (\<lambda>c. c = c0) (heap_step lg call) c0"
  by (rule reach_init) simp

context handle_heap
begin

lemma heap_reach:
  assumes "reach (\<lambda>c. c = (empty_heap, start)) (heap_step (heap_legal legal news) (heap_call del obj exec dels news)) c"
  shows "heap_inv obj c"
  using assms
proof induction
  case (reach_step c c')
  then obtain p where "heap_legal legal news c p" "heap_call del obj exec dels news c p = Inr c'" by (auto elim: heap_step_elim)
  with heap_inv_call [of obj "fst c" "snd c" p] reach_step.IH show ?case by auto
qed (simp add: heap_inv_start)

end

end
