(* ===== verification/Shared_Heap.thy ===== *)
theory Shared_Heap
  imports Shared_Ptr Handle_Heap
begin

text \<open>
  Shared handles with \<^verbatim>\<open>default_deleter\<close> of \<^verbatim>\<open>include/fiah/handle/SharedPtr.hh\<close> on a heap. An object is made by
  \<^verbatim>\<open>new\<close> in the argument of the constructor or of \<^verbatim>\<open>reset\<close>.
\<close>

section \<open>The deleter\<close>

definition sp_default_deleter :: "'a heap \<Rightarrow> nat option \<Rightarrow> 'a heap res" where
  "sp_default_deleter h ptr =
     (if ptr \<noteq> None
      then let p = Some (the ptr, 0) in bind_res (heap_destroy h p) (\<lambda>h. heap_free h p)
      else Inr h)"

definition sp_news :: "unit sp_call \<Rightarrow> nat option" where
  "sp_news p = (case p of Make x ptr d \<Rightarrow> ptr | ResetTo x ptr d \<Rightarrow> ptr | _ \<Rightarrow> None)"

definition sp_dels :: "unit sp_state \<Rightarrow> nat list" where
  "sp_dels s = map snd (deleted s)"

definition sh_exec :: "(nat \<Rightarrow> 'a) \<Rightarrow> 'a heap \<times> unit sp_state \<Rightarrow> unit sp_call \<Rightarrow> ('a heap \<times> unit sp_state) res" where
  "sh_exec obj = heap_call sp_default_deleter obj sp_exec sp_dels sp_news"

definition sh_legal :: "'a heap \<times> unit sp_state \<Rightarrow> unit sp_call \<Rightarrow> bool" where
  "sh_legal = heap_legal sp_legal sp_news"

definition sh_start :: "'a heap \<times> unit sp_state" where
  "sh_start = (empty_heap, sp_start)"

abbreviation sh_reach :: "(nat \<Rightarrow> 'a) \<Rightarrow> 'a heap \<times> unit sp_state \<Rightarrow> bool" where
  "sh_reach obj \<equiv> reach (\<lambda>c. c = sh_start) (heap_step sh_legal (sh_exec obj))"

section \<open>The handles keep what the heap needs\<close>

definition held :: "unit sp_state \<Rightarrow> nat set" where
  "held s = snd ` managed (cbs s)"

definition adopted_objs :: "unit sp_state \<Rightarrow> nat set" where
  "adopted_objs s = snd ` set (adopted s)"

lemma release_opt_logs: "release_opt s c = Inr t \<Longrightarrow> adopted t = adopted s \<and> (\<exists>ds. deleted t = deleted s @ ds)"
  by (auto simp: release_opt_def cb_release_def split: option.splits if_splits)

lemma add_ref_opt_logs: "add_ref_opt s c = Inr t \<Longrightarrow> adopted t = adopted s \<and> deleted t = deleted s"
  by (auto simp: add_ref_opt_def add_ref_def split: option.splits)

lemma handle_logs [simp]:
  "adopted (set_handle s x h) = adopted s" "deleted (set_handle s x h) = deleted s"
  "adopted (record_adopted s ptr d) = adopted s @ (case ptr of None \<Rightarrow> [] | Some ob \<Rightarrow> [(d, ob)])" "deleted (record_adopted s ptr d) = deleted s"
  by (simp_all add: set_handle_def record_adopted_def split: option.splits)

lemma bind_res_InrD: "bind_res m f = Inr y \<Longrightarrow> \<exists>x. m = Inr x \<and> f x = Inr y"
  by (cases m) simp_all

lemma sp_exec_logs:
  assumes "sp_exec s p = Inr t"
  shows "adopted t = adopted s @ (case sp_news p of None \<Rightarrow> [] | Some ob \<Rightarrow> [((), ob)]) \<and> (\<exists>ds. deleted t = deleted s @ ds)"
  using assms
  by (cases p) (auto simp: sp_news_def sp_default_def sp_make_def sp_copy_def sp_assign_def sp_move_def sp_move_assign_def sp_reset_def
      sp_reset_to_def sp_destroy_def cb_create_def dest!: bind_res_InrD add_ref_opt_logs release_opt_logs split: if_splits option.splits)

lemma snd_inj_on: "distinct (map snd xs) \<Longrightarrow> inj_on snd (set xs)"
  by (simp add: distinct_map)

lemma sp_inv_logs:
  assumes "sp_inv s"
  shows "held s = adopted_objs s - set (sp_dels s)" "distinct (sp_dels s)" "set (sp_dels s) \<subseteq> adopted_objs s"
proof -
  have ok: "distinct (map snd (adopted s))" "distinct (deleted s)" "set (deleted s) \<union> managed (cbs s) = set (adopted s)"
    "set (deleted s) \<inter> managed (cbs s) = {}" using assms by (auto simp: sp_inv_def objects_ok_def)
  have inj: "inj_on snd (set (adopted s))" using ok(1) by (rule snd_inj_on)
  have man: "managed (cbs s) = set (adopted s) - set (deleted s)" and sub: "set (deleted s) \<subseteq> set (adopted s)" using ok(3,4) by auto
  show "held s = adopted_objs s - set (sp_dels s)"
    unfolding held_def adopted_objs_def sp_dels_def man using inj_on_image_set_diff [OF inj _ sub, of "set (adopted s)"] by simp
  show "distinct (sp_dels s)" using ok(2) inj_on_subset [OF inj sub] by (simp add: sp_dels_def distinct_map)
  show "set (sp_dels s) \<subseteq> adopted_objs s" using sub by (auto simp: sp_dels_def adopted_objs_def)
qed

lemma sp_call_heap:
  assumes inv: "sp_inv s" and legal: "sp_legal s p" and new: "set_option (sp_news p) \<inter> adopted_objs s = {}"
  shows "\<exists>t ds. sp_exec s p = Inr t \<and> sp_inv t \<and> sp_dels t = sp_dels s @ ds \<and> distinct ds \<and>
    set ds \<subseteq> held s \<union> set_option (sp_news p) \<and> held t = held s \<union> set_option (sp_news p) - set ds \<and>
    adopted_objs t = adopted_objs s \<union> set_option (sp_news p)"
proof -
  obtain t where t: "sp_exec s p = Inr t" "sp_inv t" using sp_inv_call [OF inv legal] by blast
  obtain ds where ds: "deleted t = deleted s @ ds" using sp_exec_logs [OF t(1)] by blast
  let ?ds = "map snd ds"
  have d: "sp_dels t = sp_dels s @ ?ds" by (simp add: sp_dels_def ds)
  have ad: "adopted_objs t = adopted_objs s \<union> set_option (sp_news p)"
    using sp_exec_logs [OF t(1)] by (auto simp: adopted_objs_def split: option.splits)
  note s = sp_inv_logs [OF inv] and u = sp_inv_logs [OF t(2)]
  have "distinct ?ds" "set ?ds \<inter> set (sp_dels s) = {}" using u(2) unfolding d by auto
  moreover have "set ?ds \<subseteq> held s \<union> set_option (sp_news p)" using u(3) calculation(2) unfolding d ad s(1) by auto
  moreover have "held t = held s \<union> set_option (sp_news p) - set ?ds" unfolding s(1) u(1) ad d using s(3) new by auto
  ultimately show ?thesis using t ad d by blast
qed

interpretation sh: handle_heap sp_default_deleter sp_exec sp_legal sp_dels sp_news held adopted_objs sp_inv sp_start
proof
  show "sp_default_deleter h (Some ob) = Inr (h\<lparr>hblocks := live_blocks obj (A - {ob})\<rparr>)"
    if "ob \<in> A" "hblocks h = live_blocks obj A" for ob A h and obj :: "nat \<Rightarrow> 'a"
    using delete_live [OF that] by (simp add: sp_default_deleter_def)
qed (use sp_inv_start sp_call_heap in \<open>auto simp: held_def managed_def entry_def adopted_objs_def sp_start_def\<close>)

lemmas sh_inv = sh.heap_reach [folded sh_exec_def sh_legal_def sh_start_def]

text \<open>Every object that is held has a handle pointing to it, and the other way round.\<close>

definition pointed :: "unit sp_state \<Rightarrow> nat set" where
  "pointed s = {ob. \<exists>x h. handles s x = Some h \<and> p_obj h = Some ob}"

lemma held_pointed:
  assumes "sp_inv s"
  shows "held s = pointed s"
proof (intro set_eqI iffI)
  have hok: "handles_ok (handles s) (cbs s)" and cok: "counts_ok (handles s) (cbs s) (cb_next s)" using assms by (simp_all add: sp_inv_def)
  fix ob
  show "ob \<in> pointed s" if ob: "ob \<in> held s"
  proof -
    obtain d c where "(d, ob) \<in> entry (cbs s c)" using ob unfolding held_def managed_def by force
    then obtain b where b: "cbs s c = Some b" "cb_obj b = Some ob" unfolding entry_def by (auto split: option.splits)
    obtain x h where x: "handles s x = Some h" "p_cb h = Some c" using cok b(1) unfolding counts_ok_def owners_def by blast
    have "p_obj h = Some ob" using hok x b by (fastforce simp: handles_ok_def)
    with x(1) show ?thesis by (auto simp: pointed_def)
  qed
  show "ob \<in> held s" if ob: "ob \<in> pointed s"
  proof -
    obtain x h where x: "handles s x = Some h" "p_obj h = Some ob" using ob by (auto simp: pointed_def)
    obtain c b where "cbs s c = Some b" "cb_obj b = Some ob" using hok x by (fastforce simp: handles_ok_def split: option.splits)
    then show ?thesis using managedI [of "cbs s" c b ob] by (force simp: held_def)
  qed
qed

section \<open>Properties\<close>

text \<open>
  C24. Shared objects on a heap. In every state that a program of legal calls on shared handles with the
  default deleter reaches, the allocated blocks are exactly the objects that some handle points to, so nothing is
  leaked once the last handle is gone; dereferencing a handle that is not empty reads its object as it was
  constructed; and every further legal call succeeds without changing the objects that remain.\<close>

theorem shared_ptr_heap:
  assumes "sh_reach obj (h, s)"
  shows "dom (hblocks h) = {ob. \<exists>x hd. handles s x = Some hd \<and> p_obj hd = Some ob} \<and>
    (\<forall>x ob. sp_deref s x = Inr ob \<longrightarrow> heap_read h (Some (ob, 0)) = Inr (obj ob)) \<and>
    (\<forall>p. sh_legal (h, s) p \<longrightarrow> (\<exists>h' t. sh_exec obj (h, s) p = Inr (h', t) \<and>
       (\<forall>ob \<in> dom (hblocks h) \<inter> dom (hblocks h'). hblocks h' ob = hblocks h ob)))"
proof -
  have inv: "sh.heap_inv obj (h, s)" using assms by (rule sh_inv)
  then have held: "held s = pointed s" by (intro held_pointed) (simp add: sh.heap_inv_def)
  have "ob \<in> held s" if "sp_deref s x = Inr ob" for x ob
    using that unfolding held by (auto simp: sp_deref_def get_handle_def bind_res_def pointed_def split: option.splits sum.splits)
  with sh.heap_blocks [OF inv] sh.heap_read_live [OF inv] sh.heap_call_keeps [OF inv] show ?thesis
    by (simp add: sh_exec_def sh_legal_def held pointed_def)
qed

text \<open>An object made in the argument of the constructor, shared by two handles.\<close>

lemma sh_example:
  "\<exists>h s. sh_reach (\<lambda>_. 7 :: int) (h, s) \<and> sp_deref s 2 = Inr 0 \<and> sh_legal (h, s) (Destroy 1)"
proof -
  let ?h = "\<lparr>hblocks = [0 \<mapsto> [Some (7 :: int)]], hnext = 1\<rparr>"
  let ?hd = "\<lparr>p_obj = Some 0, p_cb = Some 0\<rparr>"
  let ?s = "\<lambda>hs n. \<lparr>handles = hs, cbs = [0 \<mapsto> \<lparr>m_count = n, cb_obj = Some 0, cb_deleter = ()\<rparr>], cb_next = 1,
    adopted = [((), 0)], deleted = []\<rparr> :: unit sp_state"
  note defs = sh_legal_def heap_legal_def sh_exec_def heap_call_def sp_news_def sp_dels_def new_object_def set_handle_def fresh_var_def
  have "sh_reach (\<lambda>_. 7 :: int) (?h, ?s [1 \<mapsto> ?hd] 1)"
    by (rule reach_heap_call [OF reach_heap_start, of _ _ "Make 1 (Some 0) ()"])
      (simp_all add: defs sh_start_def empty_heap_def sp_start_def fresh_obj_def sp_make_def cb_create_def record_adopted_def
        heap_new_def heap_construct_def heap_update_def construct_at_def)
  then have "sh_reach (\<lambda>_. 7 :: int) (?h, ?s [1 \<mapsto> ?hd, 2 \<mapsto> ?hd] 2)"
    by (rule reach_heap_call [where p = "Copy 2 1"])
      (simp_all add: defs sp_copy_def get_handle_def add_ref_opt_def add_ref_def)
  then show ?thesis
    by (intro exI [of _ ?h] exI [of _ "?s [1 \<mapsto> ?hd, 2 \<mapsto> ?hd] 2"]) (simp add: sp_deref_def get_handle_def defs)
qed

theorem shared_ptr_heap_witness:
  "\<exists>h s. sh_reach (\<lambda>_. 7 :: int) (h, s) \<and> heap_read h (Some (0, 0)) = Inr 7 \<and> (\<exists>h' t. sh_exec (\<lambda>_. 7) (h, s) (Destroy 1) = Inr (h', t))"
  using sh_example shared_ptr_heap by blast

end
