(* ===== verification/Unique_Ptr.thy ===== *)
theory Unique_Ptr
  imports Fiah_Prelude
begin

text \<open>
  The move-only handle of \<^verbatim>\<open>include/fiah/handle/UniquePtr.hh\<close>: construction, move, release,
  reset, swap, assignment and comparison, over a state that records which objects the
  program holds through raw pointers and which deleter calls were made. The deleter is a
  parameter, known by name; a conversion of deleters between handle types is a parameter
  of the converting operations.
\<close>

section \<open>State\<close>

record 'd uptr =
  m_ptr :: "nat option"
  m_deleter :: 'd

text \<open>
  \<open>raw\<close> are the objects the program itself is responsible for. \<open>bound\<close> is the deleter the program
  meant for each object; no operation of a handle reads or writes it, only the calls of a program do.
\<close>

record 'd up_state =
  vars :: "nat \<rightharpoonup> 'd uptr"
  raw :: "nat set"
  bound :: "nat \<rightharpoonup> 'd"
  deletions :: "('d \<times> nat) list"

definition get_var :: "'d up_state \<Rightarrow> nat \<Rightarrow> 'd uptr res" where
  "get_var s x = (case vars s x of None \<Rightarrow> Inl DeadObject | Some u \<Rightarrow> Inr u)"

definition set_var :: "'d up_state \<Rightarrow> nat \<Rightarrow> 'd uptr \<Rightarrow> 'd up_state" where
  "set_var s x u = s\<lparr>vars := (vars s)(x \<mapsto> u)\<rparr>"

text \<open>Taking responsibility for an object.\<close>

definition entrust :: "'d up_state \<Rightarrow> nat option \<Rightarrow> 'd up_state" where
  "entrust s ptr = (case ptr of None \<Rightarrow> s | Some ob \<Rightarrow> s\<lparr>raw := raw s - {ob}\<rparr>)"

definition give_back :: "'d up_state \<Rightarrow> nat option \<Rightarrow> 'd up_state" where
  "give_back s ptr = (case ptr of None \<Rightarrow> s | Some ob \<Rightarrow> s\<lparr>raw := insert ob (raw s)\<rparr>)"

section \<open>Constructors and destructor\<close>

definition up_empty :: "'d \<Rightarrow> 'd up_state \<Rightarrow> nat \<Rightarrow> 'd up_state res" where
  "up_empty dflt s x = Inr (set_var s x \<lparr>m_ptr = None, m_deleter = dflt\<rparr>)"

definition up_make :: "'d up_state \<Rightarrow> nat \<Rightarrow> nat option \<Rightarrow> 'd \<Rightarrow> 'd up_state res" where
  "up_make s x ptr del = Inr (set_var (entrust s ptr) x \<lparr>m_ptr = ptr, m_deleter = del\<rparr>)"

definition up_move :: "'d up_state \<Rightarrow> nat \<Rightarrow> nat \<Rightarrow> 'd up_state res" where
  "up_move s x other =
     bind_res (get_var s other) (\<lambda>u.
       Inr (set_var (set_var s x u) other (u\<lparr>m_ptr := None\<rparr>)))"

text \<open>\<^verbatim>\<open>release\<close> returns the pointer and empties the handle.\<close>

definition up_release :: "'d up_state \<Rightarrow> nat \<Rightarrow> (nat option \<times> 'd up_state) res" where
  "up_release s x =
     bind_res (get_var s x) (\<lambda>u.
       Inr (m_ptr u, give_back (set_var s x (u\<lparr>m_ptr := None\<rparr>)) (m_ptr u)))"

text \<open>\<^verbatim>\<open>reset\<close> exchanges the pointer first and deletes the old object with its own deleter.\<close>

definition up_reset :: "'d up_state \<Rightarrow> nat \<Rightarrow> nat option \<Rightarrow> 'd up_state res" where
  "up_reset s x ptr =
     bind_res (get_var s x) (\<lambda>u.
       let s' = set_var (entrust s ptr) x (u\<lparr>m_ptr := ptr\<rparr>)
       in case m_ptr u of
            None \<Rightarrow> Inr s'
          | Some old \<Rightarrow> Inr (s'\<lparr>deletions := deletions s' @ [(m_deleter u, old)]\<rparr>))"

definition up_convert :: "('d \<Rightarrow> 'd) \<Rightarrow> 'd up_state \<Rightarrow> nat \<Rightarrow> nat \<Rightarrow> 'd up_state res" where
  "up_convert conv s x other =
     bind_res (up_release s other) (\<lambda>(ptr, s).
       bind_res (get_var s other) (\<lambda>u. up_make s x ptr (conv (m_deleter u))))"

definition up_destroy :: "'d up_state \<Rightarrow> nat \<Rightarrow> 'd up_state res" where
  "up_destroy s x = bind_res (up_reset s x None) (\<lambda>s. Inr (s\<lparr>vars := (vars s)(x := None)\<rparr>))"

section \<open>Assignment and modifiers\<close>

text \<open>\<^verbatim>\<open>m_deleter = ...\<close>, the assignment of the deleter.\<close>

definition up_take_deleter :: "'d up_state \<Rightarrow> nat \<Rightarrow> 'd \<Rightarrow> 'd up_state res" where
  "up_take_deleter s x d =
     bind_res (get_var s x) (\<lambda>u.
       Inr (set_var s x (u\<lparr>m_deleter := d\<rparr>)))"

definition up_move_assign :: "'d up_state \<Rightarrow> nat \<Rightarrow> nat \<Rightarrow> 'd up_state res" where
  "up_move_assign s this other =
     (if this = other then Inr s
      else bind_res (up_release s other) (\<lambda>(ptr, s).
             bind_res (up_reset s this ptr) (\<lambda>s.
               bind_res (get_var s other) (\<lambda>u. up_take_deleter s this (m_deleter u)))))"

text \<open>The converting assignment has no test for self-assignment: its operands differ in type.\<close>

definition up_convert_assign :: "('d \<Rightarrow> 'd) \<Rightarrow> 'd up_state \<Rightarrow> nat \<Rightarrow> nat \<Rightarrow> 'd up_state res" where
  "up_convert_assign conv s this other =
     bind_res (up_release s other) (\<lambda>(ptr, s).
       bind_res (up_reset s this ptr) (\<lambda>s.
         bind_res (get_var s other) (\<lambda>u. up_take_deleter s this (conv (m_deleter u)))))"

definition up_assign_null :: "'d up_state \<Rightarrow> nat \<Rightarrow> 'd up_state res" where
  "up_assign_null s x = up_reset s x None"

definition up_swap :: "'d up_state \<Rightarrow> nat \<Rightarrow> nat \<Rightarrow> 'd up_state res" where
  "up_swap s x y =
     bind_res (get_var s x) (\<lambda>u. bind_res (get_var s y) (\<lambda>v. Inr (set_var (set_var s x v) y u)))"

text \<open>The free function.\<close>

definition up_swap_free :: "'d up_state \<Rightarrow> nat \<Rightarrow> nat \<Rightarrow> 'd up_state res" where
  "up_swap_free s lhs rhs = up_swap s lhs rhs"

section \<open>Observers and comparisons\<close>

definition up_get_deleter :: "'d up_state \<Rightarrow> nat \<Rightarrow> 'd res" where
  "up_get_deleter s x = bind_res (get_var s x) (\<lambda>u. Inr (m_deleter u))"

definition up_bool :: "'d uptr \<Rightarrow> bool" where
  "up_bool u \<longleftrightarrow> m_ptr u \<noteq> None"

definition up_deref :: "'d up_state \<Rightarrow> nat \<Rightarrow> nat res" where
  "up_deref s x = bind_res (get_var s x) (\<lambda>u. case m_ptr u of None \<Rightarrow> Inl NullDeref | Some ob \<Rightarrow> Inr ob)"

definition up_arrow :: "'d up_state \<Rightarrow> nat \<Rightarrow> nat option res" where
  "up_arrow s x = bind_res (get_var s x) (\<lambda>u. Inr (m_ptr u))"

text \<open>Pointers compare by address, the null pointer below every object.\<close>

definition addr_less :: "nat option \<Rightarrow> nat option \<Rightarrow> bool" where
  "addr_less p q = (case q of None \<Rightarrow> False | Some b \<Rightarrow> (case p of None \<Rightarrow> True | Some a \<Rightarrow> a < b))"

definition up_eq :: "'d uptr \<Rightarrow> 'e uptr \<Rightarrow> bool" where
  "up_eq l r \<longleftrightarrow> m_ptr l = m_ptr r"

definition up_neq :: "'d uptr \<Rightarrow> 'e uptr \<Rightarrow> bool" where
  "up_neq l r \<longleftrightarrow> m_ptr l \<noteq> m_ptr r"

definition up_less :: "'d uptr \<Rightarrow> 'e uptr \<Rightarrow> bool" where
  "up_less l r \<longleftrightarrow> addr_less (m_ptr l) (m_ptr r)"

definition up_le :: "'d uptr \<Rightarrow> 'e uptr \<Rightarrow> bool" where
  "up_le l r \<longleftrightarrow> \<not> up_less r l"

definition up_gt :: "'d uptr \<Rightarrow> 'e uptr \<Rightarrow> bool" where
  "up_gt l r \<longleftrightarrow> up_less r l"

definition up_ge :: "'d uptr \<Rightarrow> 'e uptr \<Rightarrow> bool" where
  "up_ge l r \<longleftrightarrow> \<not> up_less l r"

definition up_eq_null :: "'d uptr \<Rightarrow> bool" where
  "up_eq_null u \<longleftrightarrow> \<not> up_bool u"

definition up_neq_null :: "'d uptr \<Rightarrow> bool" where
  "up_neq_null u \<longleftrightarrow> up_bool u"

section \<open>Programs\<close>

datatype 'd up_call =
    NewObject nat
  | Empty nat
  | Construct nat "nat option" 'd
  | MoveC nat nat
  | Convert nat nat
  | DestroyU nat
  | MoveA nat nat
  | ConvertA nat nat
  | AssignNull nat
  | Release nat
  | ResetU nat "nat option"
  | Swap nat nat

text \<open>\<open>dflt\<close> is the default deleter, \<open>conv\<close> the conversion between deleter types.\<close>

fun up_run :: "'d \<Rightarrow> ('d \<Rightarrow> 'd) \<Rightarrow> 'd up_state \<Rightarrow> 'd up_call \<Rightarrow> 'd up_state res" where
  "up_run dflt conv s (NewObject ob) = Inr (s\<lparr>raw := insert ob (raw s)\<rparr>)"
| "up_run dflt conv s (Empty x) = up_empty dflt s x"
| "up_run dflt conv s (Construct x ptr d) = up_make s x ptr d"
| "up_run dflt conv s (MoveC x y) = up_move s x y"
| "up_run dflt conv s (Convert x y) = up_convert conv s x y"
| "up_run dflt conv s (DestroyU x) = up_destroy s x"
| "up_run dflt conv s (MoveA x y) = up_move_assign s x y"
| "up_run dflt conv s (ConvertA x y) = up_convert_assign conv s x y"
| "up_run dflt conv s (AssignNull x) = up_assign_null s x"
| "up_run dflt conv s (Release x) = bind_res (up_release s x) (\<lambda>(ptr, s). Inr s)"
| "up_run dflt conv s (ResetU x ptr) = up_reset s x ptr"
| "up_run dflt conv s (Swap x y) = up_swap s x y"

text \<open>The objects owned through a variable.\<close>

definition ptr_set :: "'d uptr option \<Rightarrow> nat set" where
  "ptr_set v = (case v of None \<Rightarrow> {} | Some u \<Rightarrow> set_option (m_ptr u))"

text \<open>
  The deleter meant for each object: the one given with it to the constructor, the one of the
  handle whose \<^verbatim>\<open>reset\<close> it was passed to, and after a conversion the converted one. A move or
  a swap hands an object over with the deleter it has.
\<close>

fun up_meant :: "('d \<Rightarrow> 'd) \<Rightarrow> 'd up_state \<Rightarrow> 'd up_call \<Rightarrow> nat \<rightharpoonup> 'd" where
  "up_meant conv s (Construct x (Some ob) d) = (bound s)(ob \<mapsto> d)"
| "up_meant conv s (ResetU x (Some ob)) = (bound s)(ob := map_option m_deleter (vars s x))"
| "up_meant conv s (Convert x y) = (\<lambda>ob. if ob \<in> ptr_set (vars s y) then map_option conv (bound s ob) else bound s ob)"
| "up_meant conv s (ConvertA x y) = (\<lambda>ob. if ob \<in> ptr_set (vars s y) then map_option conv (bound s ob) else bound s ob)"
| "up_meant conv s _ = bound s"

definition up_exec :: "'d \<Rightarrow> ('d \<Rightarrow> 'd) \<Rightarrow> 'd up_state \<Rightarrow> 'd up_call \<Rightarrow> 'd up_state res" where
  "up_exec dflt conv s p = bind_res (up_run dflt conv s p) (\<lambda>t. Inr (t\<lparr>bound := up_meant conv s p\<rparr>))"

text \<open>\<^verbatim>\<open>make_unique\<close>: a new object and the constructor, with the default deleter.\<close>

definition up_make_unique :: "'d \<Rightarrow> 'd up_state \<Rightarrow> nat \<Rightarrow> nat \<Rightarrow> 'd up_state res" where
  "up_make_unique dflt s x ob = up_make (s\<lparr>raw := insert ob (raw s)\<rparr>) x (Some ob) dflt"

definition owned :: "('d up_state) \<Rightarrow> nat set" where
  "owned s = {ob. \<exists>x u. vars s x = Some u \<and> m_ptr u = Some ob}"

text \<open>
  A call is legal when constructors run on free variables and the other operations on
  handles in their lifetime, when a pointer handed over is the program's own, and when a
  new object is really new.
\<close>

definition own_ptr :: "'d up_state \<Rightarrow> nat option \<Rightarrow> bool" where
  "own_ptr s ptr \<longleftrightarrow> (case ptr of None \<Rightarrow> True | Some ob \<Rightarrow> ob \<in> raw s)"

fun up_legal :: "'d up_state \<Rightarrow> 'd up_call \<Rightarrow> bool" where
  "up_legal s (NewObject ob) = (ob \<notin> raw s \<and> ob \<notin> owned s \<and> ob \<notin> snd ` set (deletions s))"
| "up_legal s (Empty x) = (vars s x = None)"
| "up_legal s (Construct x ptr d) = (vars s x = None \<and> own_ptr s ptr)"
| "up_legal s (MoveC x y) = (vars s x = None \<and> vars s y \<noteq> None)"
| "up_legal s (Convert x y) = (vars s x = None \<and> vars s y \<noteq> None)"
| "up_legal s (DestroyU x) = (vars s x \<noteq> None)"
| "up_legal s (MoveA x y) = (vars s x \<noteq> None \<and> vars s y \<noteq> None)"
| "up_legal s (ConvertA x y) = (vars s x \<noteq> None \<and> vars s y \<noteq> None \<and> x \<noteq> y)"
| "up_legal s (AssignNull x) = (vars s x \<noteq> None)"
| "up_legal s (Release x) = (vars s x \<noteq> None)"
| "up_legal s (ResetU x ptr) = (vars s x \<noteq> None \<and> own_ptr s ptr)"
| "up_legal s (Swap x y) = (vars s x \<noteq> None \<and> vars s y \<noteq> None)"

definition up_start :: "'d up_state" where
  "up_start = \<lparr>vars = Map.empty, raw = {}, bound = Map.empty, deletions = []\<rparr>"

inductive up_step :: "'d \<Rightarrow> ('d \<Rightarrow> 'd) \<Rightarrow> 'd up_state \<Rightarrow> 'd up_state \<Rightarrow> bool" for dflt conv where
  up_step_call: "up_legal s p \<Longrightarrow> up_exec dflt conv s p = Inr t \<Longrightarrow> up_step dflt conv s t"

inductive_cases up_step_elim: "up_step dflt conv s t"

section \<open>Invariant\<close>

definition gone :: "'d up_state \<Rightarrow> nat set" where
  "gone s = snd ` set (deletions s)"

text \<open>Every object ever created is in exactly one of these places.\<close>

definition holdings :: "'d up_state \<Rightarrow> nat set" where
  "holdings s = owned s \<union> raw s \<union> gone s"

definition up_own :: "'d up_state \<Rightarrow> bool" where
  "up_own s \<longleftrightarrow>
     (\<forall>x y u v ob. vars s x = Some u \<longrightarrow> vars s y = Some v \<longrightarrow> m_ptr u = Some ob \<longrightarrow> m_ptr v = Some ob \<longrightarrow> x = y) \<and>
     (\<forall>x u ob. vars s x = Some u \<longrightarrow> m_ptr u = Some ob \<longrightarrow> ob \<notin> raw s \<and> ob \<notin> gone s) \<and>
     raw s \<inter> gone s = {} \<and> distinct (map snd (deletions s))"

text \<open>Every handle carries the deleter meant for its object, and every deletion was made by it.\<close>

definition up_right :: "(nat \<rightharpoonup> 'd) \<Rightarrow> 'd up_state \<Rightarrow> bool" where
  "up_right B s \<longleftrightarrow> (\<forall>x u ob. vars s x = Some u \<longrightarrow> m_ptr u = Some ob \<longrightarrow> B ob = Some (m_deleter u)) \<and>
     (\<forall>(d, ob) \<in> set (deletions s). B ob = Some d)"

definition up_inv :: "'d up_state \<Rightarrow> bool" where
  "up_inv s \<longleftrightarrow> up_own s \<and> up_right (bound s) s"

lemma up_own_unique:
  "up_own s \<Longrightarrow> vars s x = Some u \<Longrightarrow> vars s y = Some v \<Longrightarrow> m_ptr u = Some ob \<Longrightarrow> m_ptr v = Some ob \<Longrightarrow> x = y"
  unfolding up_own_def by blast

lemma up_own_owned: "up_own s \<Longrightarrow> vars s x = Some u \<Longrightarrow> m_ptr u = Some ob \<Longrightarrow> ob \<notin> raw s \<and> ob \<notin> gone s"
  unfolding up_own_def by blast

lemma up_own_rest: "up_own s \<Longrightarrow> raw s \<inter> gone s = {} \<and> distinct (map snd (deletions s))"
  unfolding up_own_def by blast

lemma up_ownI:
  assumes "\<And>x y u v ob. vars s x = Some u \<Longrightarrow> vars s y = Some v \<Longrightarrow> m_ptr u = Some ob \<Longrightarrow> m_ptr v = Some ob \<Longrightarrow> x = y"
    and "\<And>x u ob. vars s x = Some u \<Longrightarrow> m_ptr u = Some ob \<Longrightarrow> ob \<notin> raw s \<and> ob \<notin> gone s"
    and "raw s \<inter> gone s = {}" "distinct (map snd (deletions s))"
  shows "up_own s"
  unfolding up_own_def using assms by blast

lemma up_inv_start: "up_inv up_start"
  by (auto simp: up_inv_def up_own_def up_right_def up_start_def gone_def)

lemma owned_vars: "owned s = (\<Union>x. ptr_set (vars s x))"
  by (force simp: owned_def ptr_set_def split: option.splits)

lemma owned_split: "owned s = ptr_set (vars s x) \<union> (\<Union>y \<in> - {x}. ptr_set (vars s y))"
  unfolding owned_vars by auto

lemma owned_upd:
  "vars t = (vars s)(x := v) \<Longrightarrow> owned t = ptr_set v \<union> (\<Union>y \<in> - {x}. ptr_set (vars s y))"
  unfolding owned_split [of t x] by auto

section \<open>Effect of the operations\<close>

lemma inv_make:
  assumes inv: "up_own s" and x: "vars s x = None \<or> (\<exists>u. vars s x = Some u \<and> m_ptr u = None)" and own: "own_ptr s ptr"
  shows "up_own (set_var (entrust s ptr) x \<lparr>m_ptr = ptr, m_deleter = d\<rparr>) \<and>
    holdings (set_var (entrust s ptr) x \<lparr>m_ptr = ptr, m_deleter = d\<rparr>) = holdings s"
    (is "up_own ?t \<and> _")
proof -
  have vars: "vars ?t = (vars s)(x \<mapsto> \<lparr>m_ptr = ptr, m_deleter = d\<rparr>)"
    and del: "deletions ?t = deletions s" and gone: "gone ?t = gone s"
    by (auto simp: set_var_def entrust_def gone_def split: option.splits)
  have none: "m_ptr u \<noteq> Some ob" if "vars s y = Some u" "ptr = Some ob" for y u ob
    using up_own_owned [OF inv that(1)] own that(2) by (auto simp: own_ptr_def)
  have inv': "up_own ?t"
  proof (rule up_ownI)
    fix y z u v ob
    assume "vars ?t y = Some u" "vars ?t z = Some v" "m_ptr u = Some ob" "m_ptr v = Some ob"
    with none up_own_unique [OF inv] show "y = z"
      unfolding vars by (auto split: if_splits)
  next
    fix y u ob assume y: "vars ?t y = Some u" "m_ptr u = Some ob"
    show "ob \<notin> raw ?t \<and> ob \<notin> gone ?t"
    proof (cases "y = x")
      case True
      then have "u = \<lparr>m_ptr = ptr, m_deleter = d\<rparr>" "ptr = Some ob" using y vars by auto
      moreover have "ob \<notin> gone s" using up_own_rest [OF inv] own calculation(2) by (auto simp: own_ptr_def)
      ultimately show ?thesis unfolding gone by (simp add: set_var_def entrust_def)
    next
      case False
      then have v: "vars s y = Some u" using y vars by simp
      with up_own_owned [OF inv v y(2)] none [OF v] y(2) show ?thesis
        unfolding gone by (auto simp: set_var_def entrust_def split: option.splits)
    qed
  next
    show "raw ?t \<inter> gone ?t = {}"
      unfolding gone using up_own_rest [OF inv] by (auto simp: set_var_def entrust_def split: option.splits)
    show "distinct (map snd (deletions ?t))" unfolding del using up_own_rest [OF inv] by simp
  qed
  have "ptr_set (vars s x) = {}" using x by (auto simp: ptr_set_def)
  then have "owned s = (\<Union>y \<in> - {x}. ptr_set (vars s y))" unfolding owned_split [of s x] by simp
  moreover have "owned ?t = set_option ptr \<union> (\<Union>y \<in> - {x}. ptr_set (vars s y))"
    using owned_upd [OF vars] by (simp add: ptr_set_def)
  moreover have "raw ?t = raw s - set_option ptr" "set_option ptr \<subseteq> raw s"
    using own by (auto simp: set_var_def entrust_def own_ptr_def split: option.splits)
  ultimately show ?thesis using inv' by (auto simp: holdings_def gone)
qed

lemma inv_up_release:
  assumes inv: "up_own s" and x: "vars s x = Some u"
  shows "\<exists>t. up_release s x = Inr (m_ptr u, t) \<and> up_own t \<and> own_ptr t (m_ptr u) \<and> holdings t = holdings s \<and>
    vars t = (vars s)(x \<mapsto> u\<lparr>m_ptr := None\<rparr>)"
proof -
  let ?t = "give_back (set_var s x (u\<lparr>m_ptr := None\<rparr>)) (m_ptr u)"
  have vars: "vars ?t = (vars s)(x \<mapsto> u\<lparr>m_ptr := None\<rparr>)" and gone: "gone ?t = gone s"
    and del: "deletions ?t = deletions s" and rw: "raw ?t = raw s \<union> set_option (m_ptr u)"
    by (auto simp: give_back_def set_var_def gone_def split: option.splits)
  have "up_own ?t"
  proof (rule up_ownI)
    fix y z v w ob
    assume "vars ?t y = Some v" "vars ?t z = Some w" "m_ptr v = Some ob" "m_ptr w = Some ob"
    with up_own_unique [OF inv] show "y = z" unfolding vars by (auto split: if_splits)
  next
    fix y v ob assume y: "vars ?t y = Some v" "m_ptr v = Some ob"
    then have v: "vars s y = Some v" "y \<noteq> x" using vars by (auto split: if_splits)
    have "m_ptr u \<noteq> Some ob" using up_own_unique [OF inv v(1) x y(2)] v(2) by blast
    with up_own_owned [OF inv v(1) y(2)] show "ob \<notin> raw ?t \<and> ob \<notin> gone ?t"
      unfolding gone rw by auto
  next
    show "raw ?t \<inter> gone ?t = {}"
      unfolding gone rw using up_own_rest [OF inv] up_own_owned [OF inv x] by auto
  qed (use up_own_rest [OF inv] in \<open>auto simp: del\<close>)
  moreover have "own_ptr ?t (m_ptr u)" using rw by (auto simp: own_ptr_def split: option.splits)
  moreover have "holdings ?t = holdings s"
    using owned_upd [OF vars] owned_split [of s x] x by (auto simp: holdings_def gone rw ptr_set_def)
  ultimately show ?thesis using x vars by (simp add: up_release_def get_var_def)
qed

text \<open>
  The other operations do the same as releasing an object, deleting it or entrusting it
  again.
\<close>

lemma released_state:
  assumes "up_own s" "vars s x = Some u"
  shows "\<exists>t. up_own t \<and> holdings t = holdings s \<and> vars t = (vars s)(x \<mapsto> u\<lparr>m_ptr := None\<rparr>) \<and>
    raw t = raw s \<union> set_option (m_ptr u) \<and> bound t = bound s \<and> deletions t = deletions s"
proof -
  let ?t = "give_back (set_var s x (u\<lparr>m_ptr := None\<rparr>)) (m_ptr u)"
  from inv_up_release [OF assms] have "up_own ?t" "holdings ?t = holdings s"
    using assms(2) by (auto simp: up_release_def get_var_def)
  then show ?thesis
    by (intro exI [of _ ?t]) (auto simp: give_back_def set_var_def split: option.splits)
qed

lemma inv_delete:
  assumes inv: "up_own s" and ob: "ob \<in> raw s"
  shows "up_own (s\<lparr>raw := raw s - {ob}, deletions := deletions s @ [(d, ob)]\<rparr>) \<and>
    holdings (s\<lparr>raw := raw s - {ob}, deletions := deletions s @ [(d, ob)]\<rparr>) = holdings s"
    (is "up_own ?t \<and> _")
proof -
  have gone: "gone ?t = insert ob (gone s)" by (auto simp: gone_def)
  have new: "ob \<notin> gone s" using up_own_rest [OF inv] ob by auto
  have free: "m_ptr u \<noteq> Some ob" if "vars s x = Some u" for x u
    using up_own_owned [OF inv that] ob by blast
  have "up_own ?t"
  proof (rule up_ownI)
    fix x u ob' assume "vars ?t x = Some u" "m_ptr u = Some ob'"
    with free up_own_owned [OF inv] show "ob' \<notin> raw ?t \<and> ob' \<notin> gone ?t"
      unfolding gone by auto
  qed (use up_own_unique [OF inv] up_own_rest [OF inv] ob new in \<open>auto simp: gone gone_def\<close>)
  moreover have "owned ?t = owned s" by (simp add: owned_def)
  ultimately show ?thesis using ob by (auto simp: holdings_def gone)
qed

lemma inv_reset:
  assumes inv: "up_own s" and x: "vars s x = Some u" and own: "own_ptr s ptr"
  shows "\<exists>t. up_reset s x ptr = Inr t \<and> up_own t \<and> holdings t = holdings s \<and> vars t = (vars s)(x \<mapsto> u\<lparr>m_ptr := ptr\<rparr>)"
proof -
  obtain s1 where s1: "up_own s1" "holdings s1 = holdings s" "vars s1 = (vars s)(x \<mapsto> u\<lparr>m_ptr := None\<rparr>)"
    "raw s1 = raw s \<union> set_option (m_ptr u)" "bound s1 = bound s" "deletions s1 = deletions s"
    using released_state [OF inv x] by blast
  define s2 where "s2 = (case m_ptr u of None \<Rightarrow> s1
    | Some old \<Rightarrow> s1\<lparr>raw := raw s1 - {old}, deletions := deletions s1 @ [(m_deleter u, old)]\<rparr>)"
  have s2: "up_own s2 \<and> holdings s2 = holdings s"
  proof (cases "m_ptr u")
    case None
    with s1 show ?thesis by (simp add: s2_def)
  next
    case (Some old)
    with inv_delete [OF s1(1), of old "m_deleter u"] s1 up_own_owned [OF inv x Some] show ?thesis
      by (simp add: s2_def)
  qed
  have rw: "raw s2 = raw s" using s1(4) up_own_owned [OF inv x]
    by (auto simp: s2_def split: option.splits)
  have vs: "vars s2 = (vars s)(x \<mapsto> u\<lparr>m_ptr := None\<rparr>)" using s1(3) by (auto simp: s2_def split: option.splits)
  let ?t = "set_var (entrust s2 ptr) x \<lparr>m_ptr = ptr, m_deleter = m_deleter u\<rparr>"
  have "own_ptr s2 ptr" using own rw by (cases ptr) (simp_all add: own_ptr_def)
  then have t: "up_own ?t \<and> holdings ?t = holdings s"
    using inv_make [of s2 x ptr "m_deleter u"] s2 vs by simp
  have u: "\<lparr>m_ptr = ptr, m_deleter = m_deleter u\<rparr> = u\<lparr>m_ptr := ptr\<rparr>" by (cases u) simp
  have "up_reset s x ptr = Inr ?t"
    using x s1 rw vs unfolding up_reset_def get_var_def u
    by (auto simp: s2_def set_var_def entrust_def Let_def split: option.splits intro!: up_state.equality)
  moreover have "vars ?t = (vars s)(x \<mapsto> u\<lparr>m_ptr := ptr\<rparr>)"
    unfolding u using vs by (auto simp: set_var_def entrust_def split: option.splits)
  ultimately show ?thesis using t by blast
qed

lemma inv_take_deleter:
  assumes inv: "up_own s" and x: "vars s x = Some u"
  shows "\<exists>t. up_take_deleter s x d = Inr t \<and> up_own t \<and> holdings t = holdings s"
proof -
  obtain s1 where s1: "up_own s1" "holdings s1 = holdings s" "vars s1 = (vars s)(x \<mapsto> u\<lparr>m_ptr := None\<rparr>)"
    "raw s1 = raw s \<union> set_option (m_ptr u)" "bound s1 = bound s" "deletions s1 = deletions s"
    using released_state [OF inv x] by blast
  let ?t = "set_var (entrust s1 (m_ptr u)) x \<lparr>m_ptr = m_ptr u, m_deleter = d\<rparr>"
  have "own_ptr s1 (m_ptr u)" using s1(4) by (auto simp: own_ptr_def split: option.splits)
  then have t: "up_own ?t \<and> holdings ?t = holdings s"
    using inv_make [OF s1(1), of x "m_ptr u" d] s1 by simp
  have u: "\<lparr>m_ptr = m_ptr u, m_deleter = d\<rparr> = u\<lparr>m_deleter := d\<rparr>" by (cases u) simp
  have "up_take_deleter s x d = Inr ?t"
    using x s1 up_own_owned [OF inv x] unfolding up_take_deleter_def get_var_def u
    by (auto simp: set_var_def entrust_def split: option.splits intro!: up_state.equality)
  with t show ?thesis by blast
qed

lemma inv_move:
  assumes inv: "up_own s" and x: "vars s x = None" and y: "vars s y = Some u"
  shows "\<exists>t. up_move s x y = Inr t \<and> up_own t \<and> holdings t = holdings s"
proof -
  obtain s1 where s1: "up_own s1" "holdings s1 = holdings s" "vars s1 = (vars s)(y \<mapsto> u\<lparr>m_ptr := None\<rparr>)"
    "raw s1 = raw s \<union> set_option (m_ptr u)" "bound s1 = bound s" "deletions s1 = deletions s"
    using released_state [OF inv y] by blast
  have ne: "x \<noteq> y" using x y by auto
  let ?t = "set_var (entrust s1 (m_ptr u)) x \<lparr>m_ptr = m_ptr u, m_deleter = m_deleter u\<rparr>"
  have "own_ptr s1 (m_ptr u)" using s1(4) by (auto simp: own_ptr_def split: option.splits)
  then have t: "up_own ?t \<and> holdings ?t = holdings s"
    using inv_make [OF s1(1), of x "m_ptr u" "m_deleter u"] s1 x ne by simp
  have u: "\<lparr>m_ptr = m_ptr u, m_deleter = m_deleter u\<rparr> = u" by (cases u) simp
  have "up_move s x y = Inr ?t"
    using y ne s1 up_own_owned [OF inv y] unfolding up_move_def get_var_def u
    by (auto simp: set_var_def entrust_def fun_upd_idem fun_upd_twist split: option.splits intro!: up_state.equality)
  with t show ?thesis by blast
qed

lemma inv_swap:
  assumes inv: "up_own s" and x: "vars s x = Some u" and y: "vars s y = Some v"
  shows "\<exists>t. up_swap s x y = Inr t \<and> up_own t \<and> holdings t = holdings s"
proof -
  let ?t = "set_var (set_var s x v) y u"
  have vars: "vars ?t = (vars s)(x \<mapsto> v, y \<mapsto> u)" and rest: "raw ?t = raw s" "bound ?t = bound s"
    "deletions ?t = deletions s" "gone ?t = gone s"
    by (auto simp: set_var_def gone_def)
  define \<pi> where "\<pi> z = (if z = x then y else if z = y then x else z)" for z
  have perm: "vars ?t z = vars s (\<pi> z)" for z using x y by (auto simp: vars \<pi>_def)
  have inj: "\<pi> z = \<pi> z' \<Longrightarrow> z = z'" for z z' by (auto simp: \<pi>_def split: if_splits)
  have "up_own ?t"
  proof (rule up_ownI)
    fix z z' w w' ob assume "vars ?t z = Some w" "vars ?t z' = Some w'" "m_ptr w = Some ob" "m_ptr w' = Some ob"
    with up_own_unique [OF inv, of "\<pi> z" w "\<pi> z'" w' ob] inj show "z = z'" unfolding perm by blast
  next
    fix z w ob assume "vars ?t z = Some w" "m_ptr w = Some ob"
    with up_own_owned [OF inv, of "\<pi> z" w ob] show "ob \<notin> raw ?t \<and> ob \<notin> gone ?t"
      unfolding rest perm by simp
  qed (use up_own_rest [OF inv] in \<open>auto simp: rest\<close>)
  moreover have "owned ?t = owned s"
  proof -
    have "range \<pi> = UNIV" by (auto simp: \<pi>_def image_iff)
    then have "(\<Union>z. ptr_set (vars s (\<pi> z))) = (\<Union>z. ptr_set (vars s z))"
      by (metis image_image)
    then show ?thesis unfolding owned_vars perm .
  qed
  ultimately show ?thesis using x y by (simp add: up_swap_def get_var_def holdings_def rest)
qed

lemma inv_up_end_lifetime:
  assumes inv: "up_own s" and x: "vars s x = Some u" "m_ptr u = None"
  shows "up_own (s\<lparr>vars := (vars s)(x := None)\<rparr>) \<and> holdings (s\<lparr>vars := (vars s)(x := None)\<rparr>) = holdings s"
    (is "up_own ?t \<and> _")
proof -
  have gone: "gone ?t = gone s" by (simp add: gone_def)
  have "up_own ?t"
  proof (rule up_ownI)
    fix z z' w w' ob assume "vars ?t z = Some w" "vars ?t z' = Some w'" "m_ptr w = Some ob" "m_ptr w' = Some ob"
    with up_own_unique [OF inv] show "z = z'" by (auto split: if_splits)
  next
    fix z w ob assume "vars ?t z = Some w" "m_ptr w = Some ob"
    with up_own_owned [OF inv] show "ob \<notin> raw ?t \<and> ob \<notin> gone ?t"
      unfolding gone by (auto split: if_splits)
  qed (use up_own_rest [OF inv] in \<open>auto simp: gone\<close>)
  moreover have "owned ?t = owned s"
    using owned_upd [of ?t s x None] owned_split [of s x] x by (simp add: ptr_set_def)
  ultimately show ?thesis by (simp add: holdings_def gone)
qed

section \<open>Every legal call succeeds and keeps the invariant\<close>

lemma inv_assign_like:
  assumes inv: "up_own s" and x: "vars s x = Some u" and y: "vars s y = Some v" and ne: "x \<noteq> y"
  shows "\<exists>t. bind_res (up_release s y) (\<lambda>(ptr, s). bind_res (up_reset s x ptr) (\<lambda>s.
      bind_res (get_var s y) (\<lambda>u. up_take_deleter s x (f (m_deleter u))))) = Inr t \<and> up_own t \<and> holdings t = holdings s"
proof -
  obtain s1 where s1: "up_release s y = Inr (m_ptr v, s1)" "up_own s1" "own_ptr s1 (m_ptr v)" "holdings s1 = holdings s"
    "vars s1 = (vars s)(y \<mapsto> v\<lparr>m_ptr := None\<rparr>)" using inv_up_release [OF inv y] by blast
  have x1: "vars s1 x = Some u" using s1(5) x ne by simp
  obtain s2 where s2: "up_reset s1 x (m_ptr v) = Inr s2" "up_own s2" "holdings s2 = holdings s1"
    "vars s2 = (vars s1)(x \<mapsto> u\<lparr>m_ptr := m_ptr v\<rparr>)" using inv_reset [OF s1(2) x1 s1(3)] by blast
  have "vars s2 y = Some (v\<lparr>m_ptr := None\<rparr>)" using s2(4) s1(5) ne by simp
  moreover have "vars s2 x = Some (u\<lparr>m_ptr := m_ptr v\<rparr>)" using s2(4) by simp
  ultimately show ?thesis
    using inv_take_deleter [OF s2(2), of x _ "f (m_deleter v)"] s1 s2 by (simp add: get_var_def)
qed

lemma inv_new_object:
  assumes inv: "up_own s" and new: "ob \<notin> owned s" "ob \<notin> gone s"
  shows "up_own (s\<lparr>raw := insert ob (raw s)\<rparr>)" (is "up_own ?t") and "holdings (s\<lparr>raw := insert ob (raw s)\<rparr>) = holdings s \<union> {ob}"
proof -
  have gone: "gone ?t = gone s" and own: "owned ?t = owned s" by (simp_all add: gone_def owned_def)
  show "up_own ?t"
  proof (rule up_ownI)
    fix x u ob' assume u: "vars ?t x = Some u" "m_ptr u = Some ob'"
    then have "ob' \<noteq> ob" using new(1) by (auto simp: owned_def)
    with up_own_owned [OF inv, of x u ob'] u show "ob' \<notin> raw ?t \<and> ob' \<notin> gone ?t"
      unfolding gone by simp
  qed (use up_own_unique [OF inv] up_own_rest [OF inv] new(2) in \<open>auto simp: gone\<close>)
  show "holdings ?t = holdings s \<union> {ob}" by (auto simp: holdings_def gone own)
qed

lemma inv_empty:
  assumes "up_own s" "vars s x = None"
  shows "\<exists>t. up_empty dflt s x = Inr t \<and> up_own t \<and> holdings t = holdings s"
  using inv_make [OF assms(1), of x None dflt] assms(2) by (simp add: up_empty_def entrust_def own_ptr_def)

lemma inv_convert:
  assumes inv: "up_own s" and x: "vars s x = None" and y: "vars s y = Some u"
  shows "\<exists>t. up_convert conv s x y = Inr t \<and> up_own t \<and> holdings t = holdings s"
proof -
  obtain s1 where s1: "up_release s y = Inr (m_ptr u, s1)" "up_own s1" "own_ptr s1 (m_ptr u)" "holdings s1 = holdings s"
    "vars s1 = (vars s)(y \<mapsto> u\<lparr>m_ptr := None\<rparr>)" using inv_up_release [OF inv y] by blast
  have "vars s1 x = None" using x y s1(5) by auto
  with inv_make [OF s1(2), of x "m_ptr u" "conv (m_deleter u)"] s1 show ?thesis
    by (simp add: up_convert_def get_var_def up_make_def)
qed

lemma inv_up_destroy:
  assumes inv: "up_own s" and x: "vars s x = Some u"
  shows "\<exists>t. up_destroy s x = Inr t \<and> up_own t \<and> holdings t = holdings s"
proof -
  obtain t where t: "up_reset s x None = Inr t" "up_own t" "holdings t = holdings s" "vars t x = Some (u\<lparr>m_ptr := None\<rparr>)"
    using inv_reset [OF inv x, of None] by (auto simp: own_ptr_def)
  from inv_up_end_lifetime [OF t(2,4)] t show ?thesis by (simp add: up_destroy_def)
qed

lemma inv_move_assign:
  assumes inv: "up_own s" and x: "vars s x = Some u" and y: "vars s y = Some v"
  shows "\<exists>t. up_move_assign s x y = Inr t \<and> up_own t \<and> holdings t = holdings s"
  using inv inv_assign_like [OF inv x y, of "\<lambda>d. d"] by (cases "x = y") (simp_all add: up_move_assign_def)

lemma up_own_call:
  assumes inv: "up_own s" and legal: "up_legal s p"
  shows "\<exists>t. up_run dflt conv s p = Inr t \<and> up_own t \<and>
    holdings t = holdings s \<union> (case p of NewObject ob \<Rightarrow> {ob} | _ \<Rightarrow> {})"
proof (cases p)
  case (NewObject ob)
  with inv_new_object [OF inv, of ob] legal show ?thesis by (auto simp: gone_def)
next
  case (Construct x ptr d)
  with inv_make [OF inv, of x ptr d] legal show ?thesis by (simp add: up_make_def)
next
  case (ConvertA x y)
  with inv_assign_like [OF inv, of x _ y _ conv] legal show ?thesis by (auto simp: up_convert_assign_def)
next
  case (AssignNull x)
  with inv_reset [OF inv, of x _ None] legal show ?thesis by (auto simp: up_assign_null_def own_ptr_def)
next
  case (Release x)
  then obtain u where "vars s x = Some u" using legal by auto
  with inv_up_release [OF inv this] Release show ?thesis by auto
next
  case (ResetU x ptr)
  then obtain u where "vars s x = Some u" "own_ptr s ptr" using legal by auto
  with inv_reset [OF inv this] ResetU show ?thesis by auto
qed (use legal inv_empty [OF inv] inv_move [OF inv] inv_convert [OF inv] inv_up_destroy [OF inv] inv_move_assign [OF inv]
    inv_swap [OF inv] in \<open>auto\<close>)

section \<open>Every deletion is made by the deleter meant for the object\<close>

lemma up_rightD:
  "up_right B s \<Longrightarrow> vars s x = Some u \<Longrightarrow> m_ptr u = Some ob \<Longrightarrow> B ob = Some (m_deleter u)"
  "up_right B s \<Longrightarrow> (d, ob) \<in> set (deletions s) \<Longrightarrow> B ob = Some d"
  unfolding up_right_def by auto

lemma up_rightI:
  assumes "\<And>x u ob. vars s x = Some u \<Longrightarrow> m_ptr u = Some ob \<Longrightarrow> B ob = Some (m_deleter u)"
    and "\<And>d ob. (d, ob) \<in> set (deletions s) \<Longrightarrow> B ob = Some d"
  shows "up_right B s"
  unfolding up_right_def using assms by auto

text \<open>The old object of a handle, deleted by the deleter of the handle.\<close>

definition old_of :: "'d uptr \<Rightarrow> ('d \<times> nat) list" where
  "old_of u = (case m_ptr u of None \<Rightarrow> [] | Some old \<Rightarrow> [(m_deleter u, old)])"

lemma old_of_iff: "(d, ob) \<in> set (old_of u) \<longleftrightarrow> m_ptr u = Some ob \<and> d = m_deleter u"
  by (auto simp: old_of_def split: option.splits)

text \<open>Some handle among the variables owns the object and has the deleter.\<close>

definition carries :: "(nat \<rightharpoonup> 'd uptr) \<Rightarrow> 'd \<Rightarrow> nat \<Rightarrow> bool" where
  "carries vs d ob \<longleftrightarrow> (\<exists>z w. vs z = Some w \<and> m_ptr w = Some ob \<and> m_deleter w = d)"

lemma carriesI: "vs z = Some w \<Longrightarrow> m_ptr w = Some ob \<Longrightarrow> carries vs (m_deleter w) ob"
  by (auto simp: carries_def)

lemma right_carries: "up_right B s \<Longrightarrow> carries (vars s) d ob \<Longrightarrow> B ob = Some d"
  by (auto simp: carries_def up_right_def)

lemma run_reset:
  "up_reset s x ptr = Inr t \<Longrightarrow> vars s x = Some u \<Longrightarrow> vars t = (vars s)(x \<mapsto> u\<lparr>m_ptr := ptr\<rparr>) \<and> deletions t = deletions s @ old_of u"
  by (auto simp: up_reset_def get_var_def set_var_def entrust_def old_of_def Let_def split: option.splits)

lemma run_assign:
  assumes "bind_res (up_release s y) (\<lambda>(ptr, s). bind_res (up_reset s x ptr) (\<lambda>s.
      bind_res (get_var s y) (\<lambda>u. up_take_deleter s x (f (m_deleter u))))) = Inr t"
    and "vars s x = Some u" "vars s y = Some v" "x \<noteq> y"
  shows "vars t = (vars s)(y \<mapsto> v\<lparr>m_ptr := None\<rparr>, x \<mapsto> \<lparr>m_ptr = m_ptr v, m_deleter = f (m_deleter v)\<rparr>) \<and>
    deletions t = deletions s @ old_of u"
  using assms by (auto simp: up_release_def up_reset_def up_take_deleter_def get_var_def set_var_def entrust_def give_back_def
      old_of_def Let_def fun_upd_twist split: option.splits)

lemma right_fresh:
  assumes own: "up_own s" and right: "up_right B s" and raw: "own_ptr s (Some ob)"
    and t: "\<And>z w ob'. vars t z = Some w \<Longrightarrow> m_ptr w = Some ob' \<Longrightarrow> ob' = ob \<and> m_deleter w = d \<or> vars s z = Some w"
    and del: "\<And>e ob'. (e, ob') \<in> set (deletions t) \<Longrightarrow> (e, ob') \<in> set (deletions s) \<or> carries (vars s) e ob'"
  shows "up_right (B(ob \<mapsto> d)) t"
proof (rule up_rightI)
  have new: "ob \<notin> gone s" "\<And>z w. vars s z = Some w \<Longrightarrow> m_ptr w \<noteq> Some ob"
    using raw up_own_rest [OF own] up_own_owned [OF own] by (auto simp: own_ptr_def)
  show "(B(ob \<mapsto> d)) ob' = Some (m_deleter w)" if "vars t z = Some w" "m_ptr w = Some ob'" for z w ob'
    using t [OF that] new(2) up_rightD(1) [OF right _ that(2)] that(2) by auto
  show "(B(ob \<mapsto> d)) ob' = Some e" if "(e, ob') \<in> set (deletions t)" for e ob'
    using del [OF that]
  proof
    assume e: "(e, ob') \<in> set (deletions s)"
    then have "ob' \<in> gone s" by (force simp: gone_def)
    with new(1) up_rightD(2) [OF right e] show ?thesis by auto
  qed (use new(2) right_carries [OF right] in \<open>auto simp: carries_def\<close>)
qed

lemma right_converted:
  assumes own: "up_own s" and right: "up_right B s" and y: "vars s y = Some v"
    and t: "\<And>z w ob. vars t z = Some w \<Longrightarrow> m_ptr w = Some ob \<Longrightarrow>
        m_ptr v = Some ob \<and> m_deleter w = conv (m_deleter v) \<or> vars s z = Some w \<and> z \<noteq> y"
    and del: "\<And>e ob. (e, ob) \<in> set (deletions t) \<Longrightarrow>
        (e, ob) \<in> set (deletions s) \<or> carries ((vars s)(y := None)) e ob"
  shows "up_right (\<lambda>ob. if ob \<in> ptr_set (Some v) then map_option conv (B ob) else B ob) t"
proof (rule up_rightI)
  have mem: "ob \<in> ptr_set (Some v) \<longleftrightarrow> m_ptr v = Some ob" for ob by (auto simp: ptr_set_def)
  have other: "m_ptr v \<noteq> Some ob" if "vars s z = Some w" "m_ptr w = Some ob" "z \<noteq> y" for z w ob
    using up_own_unique [OF own that(1) y that(2)] that(3) by blast
  show "(if ob \<in> ptr_set (Some v) then map_option conv (B ob) else B ob) = Some (m_deleter w)"
    if "vars t z = Some w" "m_ptr w = Some ob" for z w ob
    using t [OF that] up_rightD(1) [OF right y] up_rightD(1) [OF right _ that(2)] other [OF _ that(2)] unfolding mem by auto
  show "(if ob \<in> ptr_set (Some v) then map_option conv (B ob) else B ob) = Some e" if "(e, ob) \<in> set (deletions t)" for e ob
    using del [OF that]
  proof
    assume e: "(e, ob) \<in> set (deletions s)"
    then have "ob \<in> gone s" by (force simp: gone_def)
    with up_own_owned [OF own y] up_rightD(2) [OF right e] show ?thesis unfolding mem by auto
  qed (use other up_rightD(1) [OF right] in \<open>auto simp: mem carries_def split: if_splits\<close>)
qed

lemma right_kept:
  assumes right: "up_right B s"
    and t: "\<And>z w ob. vars t z = Some w \<Longrightarrow> m_ptr w = Some ob \<Longrightarrow> 
        carries (vars s) (m_deleter w) ob"
    and del: "\<And>e ob. (e, ob) \<in> set (deletions t) \<Longrightarrow>
        (e, ob) \<in> set (deletions s) \<or> carries (vars s) e ob"
  shows "up_right B t"
  using t del right_carries [OF right] up_rightD(2) [OF right] by (blast intro: up_rightI)

lemma right_construct:
  assumes own: "up_own s" and right: "up_right (bound s) s" and Construct: "p = Construct x ptr d" and legal: "up_legal s p" and run: "up_run dflt conv s p = Inr t"
  shows "up_right (up_meant conv s p) t"
proof -
  have t: "vars t = (vars s)(x \<mapsto> \<lparr>m_ptr = ptr, m_deleter = d\<rparr>)" "deletions t = deletions s" using run Construct
    by (auto simp: up_make_def set_var_def entrust_def split: option.splits)
  show ?thesis
  proof (cases ptr)
    case None
    with Construct t show ?thesis by (auto intro!: right_kept [OF right] intro: carriesI split: if_splits)
  next
    case (Some ob)
    with Construct t legal show ?thesis by (auto intro!: right_fresh [OF own right] intro: carriesI split: if_splits)
  qed
qed

lemma right_reset:
  assumes own: "up_own s" and right: "up_right (bound s) s" and ResetU: "p = ResetU x ptr" and legal: "up_legal s p" and run: "up_run dflt conv s p = Inr t"
  shows "up_right (up_meant conv s p) t"
proof -
  obtain u where u: "vars s x = Some u" "own_ptr s ptr" using legal ResetU by auto
  with run ResetU have t: "vars t = (vars s)(x \<mapsto> u\<lparr>m_ptr := ptr\<rparr>)" "deletions t = deletions s @ old_of u" using run_reset [of s x ptr t u] by auto
  show ?thesis
  proof (cases ptr)
    case None
    with ResetU t u show ?thesis by (auto intro!: right_kept [OF right] intro: carriesI simp: old_of_iff split: if_splits)
  next
    case (Some ob)
    with ResetU t u show ?thesis by (auto intro!: right_fresh [OF own right] intro: carriesI simp: old_of_iff split: if_splits)
  qed
qed

lemma right_convert:
  assumes own: "up_own s" and right: "up_right (bound s) s" and Convert: "p = Convert x y" and legal: "up_legal s p" and run: "up_run dflt conv s p = Inr t"
  shows "up_right (up_meant conv s p) t"
proof -
  obtain v where v: "vars s x = None" "vars s y = Some v" using legal Convert by auto
  then have ne: "x \<noteq> y" by auto
  with v run Convert have "vars t = (vars s)(y \<mapsto> v\<lparr>m_ptr := None\<rparr>, x \<mapsto> \<lparr>m_ptr = m_ptr v, m_deleter = conv (m_deleter v)\<rparr>)" "deletions t = deletions s"
    by (auto simp: up_convert_def up_release_def up_make_def get_var_def set_var_def entrust_def give_back_def split: option.splits)
  with Convert v ne show ?thesis by (auto intro!: right_converted [OF own right v(2)] intro: carriesI split: if_splits)
qed

lemma right_convert_assign:
  assumes own: "up_own s" and right: "up_right (bound s) s" and ConvertA: "p = ConvertA x y" and legal: "up_legal s p" and run: "up_run dflt conv s p = Inr t"
  shows "up_right (up_meant conv s p) t"
proof -
  obtain u v where v: "vars s x = Some u" "vars s y = Some v" "x \<noteq> y" using legal ConvertA by auto
  note r = run_assign [OF _ this, of conv t]
  from ConvertA run r have "vars t = (vars s)(y \<mapsto> v\<lparr>m_ptr := None\<rparr>, x \<mapsto> \<lparr>m_ptr = m_ptr v, m_deleter = conv (m_deleter v)\<rparr>)"
    "deletions t = deletions s @ old_of u" by (simp_all add: up_convert_assign_def)
  with ConvertA v carriesI [of "(vars s)(y := None)" x u] show ?thesis by (auto intro!: right_converted [OF own right v(2)] simp: old_of_iff split: if_splits)
qed

lemma right_move_assign:
  assumes own: "up_own s" and right: "up_right (bound s) s" and MoveA: "p = MoveA x y" and legal: "up_legal s p" and run: "up_run dflt conv s p = Inr t"
  shows "up_right (up_meant conv s p) t"
proof -
  obtain u v where v: "vars s x = Some u" "vars s y = Some v" using legal MoveA by auto
  show ?thesis
  proof (cases "x = y")
    case True
    with MoveA run right show ?thesis by (simp add: up_move_assign_def)
  next
    case False
    with MoveA run run_assign [OF _ v False, of "\<lambda>d. d" t] have "vars t = (vars s)(y \<mapsto> v\<lparr>m_ptr := None\<rparr>, x \<mapsto> \<lparr>m_ptr = m_ptr v, m_deleter = m_deleter v\<rparr>)"
      "deletions t = deletions s @ old_of u" by (simp_all add: up_move_assign_def)
    with MoveA v show ?thesis
      by (auto intro!: right_kept [OF right] simp: old_of_iff split: if_splits; blast intro: carriesI)
  qed
qed

lemma up_right_call:
  assumes own: "up_own s" and right: "up_right (bound s) s" and legal: "up_legal s p" and run: "up_run dflt conv s p = Inr t"
  shows "up_right (up_meant conv s p) t"
proof (cases p)
  case (DestroyU x)
  then obtain u where u: "vars s x = Some u" using legal by auto
  with run DestroyU have "vars t = (vars s)(x := None) \<and> deletions t = deletions s @ old_of u"
    by (cases "up_reset s x None") (auto simp: up_destroy_def dest!: run_reset [of s x None _ u])
  with DestroyU u show ?thesis by (auto intro!: right_kept [OF right] simp: old_of_iff split: if_splits; blast intro: carriesI)
next
  case (AssignNull x)
  then obtain u where u: "vars s x = Some u" using legal by auto
  with run AssignNull have "vars t = (vars s)(x \<mapsto> u\<lparr>m_ptr := None\<rparr>)" "deletions t = deletions s @ old_of u"
    by (auto simp: up_assign_null_def dest!: run_reset [of s x None _ u])
  with AssignNull u show ?thesis by (auto intro!: right_kept [OF right] simp: old_of_iff split: if_splits; blast intro: carriesI)
qed (use run legal right_construct [OF own right _ legal run] right_reset [OF own right _ legal run] right_convert [OF own right _ legal run]
    right_convert_assign [OF own right _ legal run] right_move_assign [OF own right _ legal run] in \<open>auto intro!: right_kept [OF right] intro: carriesI simp: up_empty_def up_move_def up_release_def up_swap_def get_var_def set_var_def
    give_back_def split: if_splits option.splits\<close>)

lemma up_inv_call:
  assumes inv: "up_inv s" and legal: "up_legal s p"
  shows "\<exists>t. up_exec dflt conv s p = Inr t \<and> up_inv t \<and> holdings t = holdings s \<union> (case p of NewObject ob \<Rightarrow> {ob} | _ \<Rightarrow> {})"
proof -
  from inv have own: "up_own s" and right: "up_right (bound s) s" by (simp_all add: up_inv_def)
  obtain t where t: "up_run dflt conv s p = Inr t" "up_own t" "holdings t = holdings s \<union> (case p of NewObject ob \<Rightarrow> {ob} | _ \<Rightarrow> {})"
    using up_own_call [OF own legal] by blast
  let ?t = "t\<lparr>bound := up_meant conv s p\<rparr>"
  have "up_own ?t" using t(2) by (simp add: up_own_def gone_def)
  moreover have "up_right (bound ?t) ?t" using up_right_call [OF own right legal t(1)] by (simp add: up_right_def)
  moreover have "holdings ?t = holdings t" by (simp add: holdings_def owned_def gone_def)
  ultimately show ?thesis using t by (simp add: up_exec_def up_inv_def)
qed

interpretation up_sys: inductive_invariant "\<lambda>s. s = up_start" "up_step dflt conv" up_inv for dflt conv
proof
  show "up_inv s" if "s = up_start" for s :: "'a up_state" using that up_inv_start by simp
  show "up_inv t" if "up_inv s" "up_step dflt conv s t" for s t :: "'a up_state"
  proof -
    from that(2) obtain p where "up_legal s p" "up_exec dflt conv s p = Inr t" by (rule up_step_elim)
    with up_inv_call [OF that(1), of p dflt conv] show ?thesis by auto
  qed
qed

section \<open>Properties\<close>

text \<open>
  C27. Unique ownership. In every reachable state no object is owned by two handles; the
  objects owned by handles, held by the program through raw pointers and deleted are
  disjoint; no object is deleted twice. Every handle carries the deleter meant for its object, the
  one the program gave with it, through moves, assignments and swaps between handles
  with different deleters, and each deletion was made by that deleter.\<close>

theorem unique_ownership:
  assumes "reach (\<lambda>s. s = up_start) (up_step dflt conv) s"
  shows "(\<forall>x y u v ob. vars s x = Some u \<longrightarrow> vars s y = Some v \<longrightarrow> m_ptr u = Some ob \<longrightarrow> m_ptr v = Some ob \<longrightarrow> x = y) \<and>
     owned s \<inter> raw s = {} \<and> owned s \<inter> gone s = {} \<and> raw s \<inter> gone s = {} \<and>
     distinct (map snd (deletions s)) \<and> (\<forall>(d, ob) \<in> set (deletions s). bound s ob = Some d) \<and>
     (\<forall>x u ob. vars s x = Some u \<longrightarrow> m_ptr u = Some ob \<longrightarrow> bound s ob = Some (m_deleter u))"
proof -
  have "up_inv s" by (rule up_sys.reach_inv [OF assms])
  then have own: "up_own s" and right: "up_right (bound s) s" by (simp_all add: up_inv_def)
  have "owned s \<inter> raw s = {}" "owned s \<inter> gone s = {}" using up_own_owned [OF own] by (auto simp: owned_def)
  with up_own_unique [OF own] up_own_rest [OF own] right [unfolded up_right_def] show ?thesis by blast
qed

text \<open>
  Nothing is lost. In every reachable state a legal call succeeds, and every object that
  was owned, held or deleted before it is owned, held or deleted after it; only a new
  object is added. When no handle is left and the program holds no raw pointer, every
  object has been deleted.\<close>

theorem unique_ptr_conserves:
  assumes "reach (\<lambda>s. s = up_start) (up_step dflt conv) s" and "up_legal s p"
  shows "\<exists>t. up_exec dflt conv s p = Inr t \<and>
     owned t \<union> raw t \<union> gone t = owned s \<union> raw s \<union> gone s \<union> (case p of NewObject ob \<Rightarrow> {ob} | _ \<Rightarrow> {}) \<and>
     (vars t = Map.empty \<and> raw t = {} \<longrightarrow> gone t = owned s \<union> raw s \<union> gone s \<union> (case p of NewObject ob \<Rightarrow> {ob} | _ \<Rightarrow> {}))"
proof -
  obtain t where t: "up_exec dflt conv s p = Inr t"
    "holdings t = holdings s \<union> (case p of NewObject ob \<Rightarrow> {ob} | _ \<Rightarrow> {})"
    using up_inv_call [OF up_sys.reach_inv [OF assms(1)] assms(2)] by blast
  have "owned t = {}" if "vars t = Map.empty" using that by (simp add: owned_def)
  with t show ?thesis by (auto simp: holdings_def)
qed

text \<open>
  A run used as an example: two handles with their own deleters, the second assigned to the first by move, and
  the first then destroyed.
\<close>

lemma reach_up_call: "reach (\<lambda>s. s = up_start) (up_step dflt conv) s \<Longrightarrow> up_legal s p \<Longrightarrow>
    up_exec dflt conv s p = Inr t \<Longrightarrow> reach (\<lambda>s. s = up_start) (up_step dflt conv) t"
  by (auto intro: reach_step up_step_call)

lemmas up_eval = up_exec_def own_ptr_def owned_def up_make_def up_destroy_def up_move_assign_def up_release_def up_reset_def
  up_take_deleter_def get_var_def set_var_def entrust_def give_back_def ptr_set_def Let_def

lemma up_example:
  "reach (\<lambda>s. s = up_start) (up_step (0 :: nat) id)
     \<lparr>vars = [1 \<mapsto> \<lparr>m_ptr = Some 100, m_deleter = 7\<rparr>], raw = {}, bound = [100 \<mapsto> 7], deletions = []\<rparr>"
proof -
  let ?s1 = "\<lparr>vars = Map.empty, raw = {100}, bound = Map.empty, deletions = []\<rparr> :: nat up_state"
  have "reach (\<lambda>s. s = up_start) (up_step (0 :: nat) id) ?s1"
    by (rule reach_up_call [of _ _ up_start "NewObject 100", OF reach_init]) (simp_all add: up_start_def up_eval)
  then show ?thesis
    by (rule reach_up_call [where p = "Construct 1 (Some 100) 7"]) (simp_all add: up_eval)
qed

lemma up_example_moved:
  "reach (\<lambda>s. s = up_start) (up_step (0 :: nat) id)
     \<lparr>vars = [2 \<mapsto> \<lparr>m_ptr = None, m_deleter = 9\<rparr>], raw = {}, bound = [100 \<mapsto> 7, 200 \<mapsto> 9], deletions = [(7, 100), (9, 200)]\<rparr>"
proof -
  let ?r = "reach (\<lambda>s. s = up_start) (up_step (0 :: nat) id)"
  let ?one = "[1 \<mapsto> \<lparr>m_ptr = Some 100, m_deleter = 7\<rparr>] :: nat \<rightharpoonup> nat uptr"
  have "?r \<lparr>vars = ?one, raw = {200}, bound = [100 \<mapsto> 7], deletions = []\<rparr>"
    by (rule reach_up_call [OF up_example, of "NewObject 200"]) (simp_all add: up_eval)
  then have "?r \<lparr>vars = ?one(2 \<mapsto> \<lparr>m_ptr = Some 200, m_deleter = 9\<rparr>), raw = {}, bound = [100 \<mapsto> 7, 200 \<mapsto> 9], deletions = []\<rparr>"
    by (rule reach_up_call [where p = "Construct 2 (Some 200) 9"]) (simp_all add: up_eval)
  then have "?r \<lparr>vars = [1 \<mapsto> \<lparr>m_ptr = Some 200, m_deleter = 9\<rparr>, 2 \<mapsto> \<lparr>m_ptr = None, m_deleter = 9\<rparr>], raw = {},
      bound = [100 \<mapsto> 7, 200 \<mapsto> 9], deletions = [(7, 100)]\<rparr>"
    by (rule reach_up_call [where p = "MoveA 1 2"]) (auto simp: up_eval)
  then show ?thesis by (rule reach_up_call [where p = "DestroyU 1"]) (auto simp: up_eval)
qed

theorem unique_ownership_witness:
  "\<exists>s. reach (\<lambda>s. s = up_start) (up_step (0 :: nat) id) s \<and> deletions s = [(7, 100), (9, 200)] \<and> bound s 100 = Some 7 \<and> bound s 200 = Some 9"
proof -
  let ?s = "\<lparr>vars = [2 \<mapsto> \<lparr>m_ptr = None, m_deleter = 9\<rparr>], raw = {}, bound = [100 \<mapsto> 7, 200 \<mapsto> 9],
      deletions = [(7, 100), (9, 200)]\<rparr> :: nat up_state"
  have "\<forall>(d, ob) \<in> set (deletions ?s). bound ?s ob = Some d" using unique_ownership [OF up_example_moved] by blast
  then have "bound ?s 100 = Some 7 \<and> bound ?s 200 = Some 9" by simp
  then show ?thesis using up_example_moved by (intro exI [of _ ?s]) simp
qed

theorem unique_ptr_conserves_witness:
  "\<exists>s t. reach (\<lambda>s. s = up_start) (up_step (0 :: nat) id) s \<and> up_exec 0 id s (DestroyU 1) = Inr t \<and>
     gone t = {100}"
proof -
  let ?s = "\<lparr>vars = [1 \<mapsto> \<lparr>m_ptr = Some 100, m_deleter = 7\<rparr>], raw = {}, bound = [100 \<mapsto> 7], deletions = []\<rparr> :: nat up_state"
  have "up_legal ?s (DestroyU 1)" by simp
  from unique_ptr_conserves [OF up_example this] obtain t where
    t: "up_exec 0 id ?s (DestroyU 1) = Inr t" "vars t = Map.empty \<and> raw t = {} \<longrightarrow> gone t = owned ?s \<union> raw ?s \<union> gone ?s"
    by auto
  moreover have "vars t = Map.empty \<and> raw t = {}"
    using t(1) by (auto simp: up_eval)
  moreover have "owned ?s \<union> raw ?s \<union> gone ?s = {100}" by (auto simp: owned_def gone_def)
  ultimately show ?thesis using up_example by auto
qed

text \<open>
  Order of handles. The comparison operators order handles by the address of their
  object: \<open><\<close> is irreflexive and transitive, exactly one of \<open><\<close>, \<open>==\<close> and \<open>>\<close> holds of two
  handles, \<open><=\<close> and \<open>>=\<close> are the complements, and the null handle is the least.\<close>

theorem unique_ptr_order:
  "\<not> up_less a a \<and> (up_less a b \<and> up_less b c \<longrightarrow> up_less a c) \<and>
   (if up_eq a b then \<not> up_less a b \<and> \<not> up_gt a b else up_less a b \<noteq> up_gt a b) \<and>
   up_neq a b = (\<not> up_eq a b) \<and>
   up_le a b = (up_less a b \<or> up_eq a b) \<and> up_ge a b = (up_gt a b \<or> up_eq a b) \<and>
   (up_eq_null a \<longrightarrow> up_le a b) \<and> up_neq_null a = (\<not> up_eq_null a)"
  by (cases "m_ptr a"; cases "m_ptr b"; cases "m_ptr c")
    (auto simp: up_less_def up_eq_def up_gt_def up_neq_def up_le_def up_ge_def up_eq_null_def up_neq_null_def
      up_bool_def addr_less_def)

theorem unique_ptr_order_witness:
  "up_less \<lparr>m_ptr = None, m_deleter = ()\<rparr> \<lparr>m_ptr = Some 5, m_deleter = ()\<rparr> \<and>
   up_le \<lparr>m_ptr = None, m_deleter = ()\<rparr> \<lparr>m_ptr = Some 5, m_deleter = ()\<rparr>"
  using unique_ptr_order [of "\<lparr>m_ptr = None, m_deleter = ()\<rparr>" "\<lparr>m_ptr = Some 5, m_deleter = ()\<rparr>" "\<lparr>m_ptr = Some 5, m_deleter = ()\<rparr>"]
  by (simp add: up_less_def addr_less_def)

end
