(* ===== verification/Unique_Heap.thy ===== *)
theory Unique_Heap
  imports Unique_Ptr Handle_Heap
begin

text \<open>
  Handles with \<^verbatim>\<open>default_deleter\<close> of \<^verbatim>\<open>include/fiah/handle/UniquePtr.hh\<close> on a heap. The deleter has no
  state, so its type is \<^verbatim>\<open>unit\<close>; \<^verbatim>\<open>delete\<close> destroys the object and releases its block.
\<close>

section \<open>The deleter\<close>

definition default_deleter :: "'a heap \<Rightarrow> nat option \<Rightarrow> 'a heap res" where
  "default_deleter h ptr =
     (case ptr of
        None \<Rightarrow> Inr h
      | Some ob \<Rightarrow> bind_res (heap_destroy h (Some (ob, 0))) (\<lambda>h. heap_free h (Some (ob, 0))))"

text \<open>The conversion from the deleter of another type.\<close>

definition convert_deleter :: "unit \<Rightarrow> unit" where
  "convert_deleter other = ()"

definition up_news :: "unit up_call \<Rightarrow> nat option" where
  "up_news p = (case p of NewObject ob \<Rightarrow> Some ob | _ \<Rightarrow> None)"

definition up_dels :: "unit up_state \<Rightarrow> nat list" where
  "up_dels s = map snd (deletions s)"

definition uh_exec :: "(nat \<Rightarrow> 'a) \<Rightarrow> 'a heap \<times> unit up_state \<Rightarrow> unit up_call \<Rightarrow> ('a heap \<times> unit up_state) res" where
  "uh_exec obj = heap_call default_deleter obj (up_exec () convert_deleter) up_dels up_news"

definition uh_legal :: "'a heap \<times> unit up_state \<Rightarrow> unit up_call \<Rightarrow> bool" where
  "uh_legal = heap_legal up_legal up_news"

definition uh_start :: "'a heap \<times> unit up_state" where
  "uh_start = (empty_heap, up_start)"

abbreviation uh_reach :: "(nat \<Rightarrow> 'a) \<Rightarrow> 'a heap \<times> unit up_state \<Rightarrow> bool" where
  "uh_reach obj \<equiv> reach (\<lambda>c. c = uh_start) (heap_step uh_legal (uh_exec obj))"

section \<open>The handles keep what the heap needs\<close>

lemma up_exec_deletions: "up_exec dflt conv s p = Inr t \<Longrightarrow> \<exists>ds. deletions t = deletions s @ ds"
  by (cases p) (auto simp: up_exec_def up_empty_def up_make_def up_move_def up_convert_def up_destroy_def up_move_assign_def up_convert_assign_def
      up_assign_null_def up_reset_def up_swap_def up_release_def up_take_deleter_def get_var_def set_var_def entrust_def give_back_def Let_def
      bind_res_Inr split: option.splits if_splits)

lemma up_inv_parts: "up_inv s \<Longrightarrow> owned s \<union> raw s = holdings s - gone s"
  using up_own_owned up_own_rest by (fastforce simp: up_inv_def holdings_def owned_def)

lemma up_call_heap:
  assumes inv: "up_inv s" and legal: "up_legal s p" and new: "set_option (up_news p) \<inter> holdings s = {}"
  shows "\<exists>t ds. up_exec () convert_deleter s p = Inr t \<and> up_inv t \<and> up_dels t = up_dels s @ ds \<and> distinct ds \<and>
    set ds \<subseteq> owned s \<union> raw s \<union> set_option (up_news p) \<and> owned t \<union> raw t = owned s \<union> raw s \<union> set_option (up_news p) - set ds \<and>
    holdings t = holdings s \<union> set_option (up_news p)"
proof -
  obtain t where t: "up_exec () convert_deleter s p = Inr t" "up_inv t" "holdings t = holdings s \<union> (case p of NewObject ob \<Rightarrow> {ob} | _ \<Rightarrow> {})"
    using up_inv_call [OF inv legal, of "()" convert_deleter] by blast
  then have h: "holdings t = holdings s \<union> set_option (up_news p)" by (simp add: up_news_def split: up_call.splits)
  obtain ds where ds: "deletions t = deletions s @ ds" using up_exec_deletions [OF t(1)] by blast
  have d: "distinct (up_dels t)" using up_own_rest t(2) by (auto simp: up_inv_def up_dels_def)
  have g: "gone t = gone s \<union> set (map snd ds)" "set (map snd ds) \<inter> gone s = {}" using d by (auto simp: gone_def up_dels_def ds)
  have "set (map snd ds) \<subseteq> holdings t" unfolding holdings_def g(1) by blast
  then have "set (map snd ds) \<subseteq> owned s \<union> raw s \<union> set_option (up_news p)" unfolding h up_inv_parts [OF inv] using g(2) by blast
  moreover have "owned t \<union> raw t = owned s \<union> raw s \<union> set_option (up_news p) - set (map snd ds)"
  proof -
    have "gone s \<subseteq> holdings s" by (simp add: holdings_def)
    then show ?thesis unfolding up_inv_parts [OF inv] up_inv_parts [OF t(2)] h g(1) using new by blast
  qed
  ultimately show ?thesis using t(1,2) h d by (intro exI [of _ t] exI [of _ "map snd ds"]) (simp add: up_dels_def ds)
qed

interpretation uh: handle_heap default_deleter "up_exec () convert_deleter" up_legal up_dels up_news "\<lambda>s. owned s \<union> raw s" holdings up_inv up_start
proof
  show "default_deleter h (Some ob) = Inr (h\<lparr>hblocks := live_blocks obj (A - {ob})\<rparr>)"
    if "ob \<in> A" "hblocks h = live_blocks obj A" for ob A h and obj :: "nat \<Rightarrow> 'a"
    using delete_live [OF that] by (simp add: default_deleter_def)
qed (use up_inv_start up_call_heap in \<open>auto simp: owned_def holdings_def gone_def up_start_def\<close>)

lemmas uh_inv = uh.heap_reach [folded uh_exec_def uh_legal_def uh_start_def]

section \<open>Properties\<close>

text \<open>
  C28. No leak, no dangling handle, no double delete. Programs of any calls on handles with the
  default deleter, on a heap: in every reachable state the allocated blocks are exactly the objects that
  some handle owns or the program holds through a raw pointer; dereferencing a handle
  that is not empty reads its object as it was constructed; and every further legal call succeeds, so that no
  deletion meets a released block, without changing the objects that remain.\<close>

theorem unique_ptr_heap:
  assumes "uh_reach obj (h, s)"
  shows "dom (hblocks h) = owned s \<union> raw s \<and>
    (\<forall>x ob. up_deref s x = Inr ob \<longrightarrow> heap_read h (Some (ob, 0)) = Inr (obj ob)) \<and>
    (\<forall>p. uh_legal (h, s) p \<longrightarrow> (\<exists>h' t. uh_exec obj (h, s) p = Inr (h', t) \<and>
       (\<forall>ob \<in> dom (hblocks h) \<inter> dom (hblocks h'). hblocks h' ob = hblocks h ob)))"
proof -
  have inv: "uh.heap_inv obj (h, s)" using assms by (rule uh_inv)
  have "ob \<in> owned s" if "up_deref s x = Inr ob" for x ob
    using that by (auto simp: up_deref_def get_var_def bind_res_def owned_def split: option.splits sum.splits)
  with uh.heap_blocks [OF inv] uh.heap_read_live [OF inv] uh.heap_call_keeps [OF inv] show ?thesis
    by (simp add: uh_exec_def uh_legal_def)
qed

text \<open>A new object and a handle for it, which is then destroyed.\<close>

lemma uh_example:
  "\<exists>h s. uh_reach (\<lambda>_. 7 :: int) (h, s) \<and> up_deref s 1 = Inr 0 \<and> uh_legal (h, s) (DestroyU 1)"
proof -
  let ?h = "\<lparr>hblocks = [0 \<mapsto> [Some (7 :: int)]], hnext = 1\<rparr>"
  let ?s1 = "\<lparr>vars = Map.empty, raw = {0}, bound = Map.empty, deletions = []\<rparr> :: unit up_state"
  let ?s = "\<lparr>vars = [1 \<mapsto> \<lparr>m_ptr = Some 0, m_deleter = ()\<rparr>], raw = {}, bound = [0 \<mapsto> ()], deletions = []\<rparr> :: unit up_state"
  note defs = up_exec_def uh_legal_def heap_legal_def uh_exec_def heap_call_def up_news_def up_dels_def new_object_def
  have "uh_reach (\<lambda>_. 7 :: int) (?h, ?s1)"
    by (rule reach_heap_call [OF reach_heap_start, of _ _ "NewObject 0"])
      (simp_all add: defs uh_start_def empty_heap_def up_start_def owned_def heap_new_def heap_construct_def heap_update_def construct_at_def)
  then have "uh_reach (\<lambda>_. 7 :: int) (?h, ?s)"
    by (rule reach_heap_call [where p = "Construct 1 (Some 0) ()"])
      (simp_all add: defs own_ptr_def up_make_def set_var_def entrust_def)
  then show ?thesis by (intro exI [of _ ?h] exI [of _ ?s]) (simp add: up_deref_def get_var_def defs)
qed

theorem unique_ptr_heap_witness:
  "\<exists>h s. uh_reach (\<lambda>_. 7 :: int) (h, s) \<and> heap_read h (Some (0, 0)) = Inr 7 \<and> (\<exists>h' t. uh_exec (\<lambda>_. 7) (h, s) (DestroyU 1) = Inr (h', t))"
  using uh_example unique_ptr_heap by blast

end
