(* ===== verification/Any_Box.thy ===== *)
theory Any_Box
  imports Raw_Heap
begin

text \<open>
  The container of \<^verbatim>\<open>include/fiah/handle/Any.cc\<close>: an object of one type, kept in the container
  itself when it is no larger than an \<^verbatim>\<open>int\<close> and on the heap otherwise. The element type
  enters through its size and its alignment. As written the file does not compile: the constructors and the destructor
  have the name \<^verbatim>\<open>any\<close> in a class \<^verbatim>\<open>Any\<close>, and \<^verbatim>\<open>std::bad_cast\<close> has no constructor from a string. The model reads the
  members as those of the class, and \<^verbatim>\<open>any_cast\<close> for the type of the container, the only one the file uses.
\<close>

section \<open>State and operations\<close>

definition SMALL_SIZE :: nat where
  "SMALL_SIZE = 4"

definition small_type :: "nat \<Rightarrow> nat \<Rightarrow> bool" where
  "small_type sizeof_T alignof_T \<longleftrightarrow> sizeof_T \<le> SMALL_SIZE \<and> alignof_T \<le> 4"

record 'a any =
  any_storage :: "'a option"
  any_ptr :: ptr
  on_heap :: bool

definition any_default :: "'a any" where
  "any_default = \<lparr>any_storage = None, any_ptr = None, on_heap = False\<rparr>"

text \<open>
  Construction in the storage of the container, four bytes with the alignment of an \<^verbatim>\<open>int\<close>, and in a block of
  \<^verbatim>\<open>::operator new\<close>, which is aligned to 16.
\<close>

definition storage_construct :: "nat \<Rightarrow> nat \<Rightarrow> 'a \<Rightarrow> 'a option res" where
  "storage_construct sizeof_T alignof_T x =
     (if SMALL_SIZE < sizeof_T then Inl OutOfBounds else if 4 < alignof_T then Inl Misaligned else Inr (Some x))"

definition new_alignment :: nat where
  "new_alignment = 16"

definition block_construct :: "nat \<Rightarrow> 'a heap \<Rightarrow> ptr \<Rightarrow> 'a \<Rightarrow> 'a heap res" where
  "block_construct alignof_T h p x = (if new_alignment < alignof_T then Inl Misaligned else heap_construct h p x)"

definition any_construct :: "nat \<Rightarrow> nat \<Rightarrow> 'a heap \<Rightarrow> 'a \<Rightarrow> ('a heap \<times> 'a any) res" where
  "any_construct sizeof_T alignof_T h other =
     (if small_type sizeof_T alignof_T
      then bind_res (storage_construct sizeof_T alignof_T other) (\<lambda>st.
             Inr (h, \<lparr>any_storage = st, any_ptr = None, on_heap = False\<rparr>))
      else let (p, h) = heap_new h 1
           in bind_res (block_construct alignof_T h p other) (\<lambda>h.
                Inr (h, \<lparr>any_storage = None, any_ptr = p, on_heap = True\<rparr>)))"

definition any_destroy :: "'a heap \<Rightarrow> 'a any \<Rightarrow> 'a heap res" where
  "any_destroy h a =
     (if on_heap a \<and> any_ptr a \<noteq> None then
        bind_res (heap_destroy h (any_ptr a)) (\<lambda>h. heap_free h (any_ptr a))
      else if \<not> on_heap a then (case any_storage a of None \<Rightarrow> Inl DeadObject | Some _ \<Rightarrow> Inr h)
      else Inr h)"

definition any_cast :: "'a heap \<Rightarrow> 'a any \<Rightarrow> 'a res" where
  "any_cast h a =
     (if on_heap a then heap_read h (any_ptr a)
      else case any_storage a of None \<Rightarrow> Inl DeadObject | Some x \<Rightarrow> Inr x)"

section \<open>Properties\<close>

text \<open>
  Round trip. For a type of any size, with an alignment up to 16, the value read by \<^verbatim>\<open>any_cast\<close> from a
  container constructed from a value is that value, and the
  destructor leaves the heap as it was before the construction. A type with a larger alignment is constructed in
  a block that is not aligned for it.\<close>

theorem any_roundtrip:
  assumes "hblocks h (hnext h) = None"
  shows "if alignof_T \<le> 16
    then \<exists>h' a. any_construct sizeof_T alignof_T h x = Inr (h', a) \<and> any_cast h' a = Inr x \<and>
      (\<exists>h''. any_destroy h' a = Inr h'' \<and> hblocks h'' = hblocks h)
    else any_construct sizeof_T alignof_T h x = Inl Misaligned"
proof (cases "small_type sizeof_T alignof_T")
  case True
  then show ?thesis
    by (simp add: any_construct_def any_cast_def any_destroy_def storage_construct_def small_type_def)
next
  case False
  then show ?thesis using assms
    by (simp add: any_construct_def any_cast_def any_destroy_def block_construct_def new_alignment_def heap_new_def heap_construct_def
        heap_update_def construct_at_def heap_read_def read_at_def heap_destroy_def destroy_at_def heap_free_def fun_upd_idem)
qed

theorem any_roundtrip_witness:
  "\<exists>h' a. any_construct 8 8 \<lparr>hblocks = Map.empty, hnext = 0\<rparr> (314 :: nat) = Inr (h', a) \<and> any_cast h' a = Inr 314"
  using any_roundtrip [of "\<lparr>hblocks = Map.empty, hnext = 0\<rparr>" 8 8 "314 :: nat"] by auto

text \<open>
  Default construction. A default-constructed container holds no object, yet its
  destructor destroys one in the raw storage.\<close>

theorem any_default_destructor: "any_destroy h any_default = Inl DeadObject"
  by (simp add: any_destroy_def any_default_def)

end
