(* ===== verification/Data_Layout.thy ===== *)
theory Data_Layout
  imports SPSC_Queue MPSC_Queue
begin

text \<open>
  The layout in memory of the lock-free queues (\<^verbatim>\<open>structs/SPSCQueue.hh\<close>, \<^verbatim>\<open>structs/MPSCQueue.hh\<close>) and
  of the logger's record (\<^verbatim>\<open>utils/SPSCLogger.hh\<close>), on which their \<^verbatim>\<open>alignas\<close> specifiers and their
  static assertions are about. A type is its size and alignment; a class places its members in
  the order of declaration, each at the next multiple of its alignment, as the platform's
  calling convention does. A cache line has 64 bytes, the value the assertions require.
\<close>

section \<open>Types and classes\<close>

record ctype =
  csize :: nat
  calign :: nat

definition type_ok :: "ctype \<Rightarrow> bool" where
  "type_ok t \<longleftrightarrow> (\<exists>k. calign t = 2 ^ k) \<and> calign t dvd csize t \<and> 0 < csize t"

definition alignas :: "nat \<Rightarrow> ctype \<Rightarrow> ctype" where
  "alignas a t = t\<lparr>calign := max a (calign t)\<rparr>"

definition array_of :: "nat \<Rightarrow> ctype \<Rightarrow> ctype" where
  "array_of n t = \<lparr>csize = n * csize t, calign = calign t\<rparr>"

definition pad_to :: "nat \<Rightarrow> nat \<Rightarrow> nat" where
  "pad_to a p = (p + (a - 1)) div a * a"

fun field_offsets :: "nat \<Rightarrow> ctype list \<Rightarrow> nat list" where
  "field_offsets p [] = []"
| "field_offsets p (f # fs) = pad_to (calign f) p # field_offsets (pad_to (calign f) p + csize f) fs"

fun fields_end :: "nat \<Rightarrow> ctype list \<Rightarrow> nat" where
  "fields_end p [] = p"
| "fields_end p (f # fs) = fields_end (pad_to (calign f) p + csize f) fs"

text \<open>A class with an \<^verbatim>\<open>alignas\<close> of its own, 1 when it has none.\<close>

definition class_of :: "nat \<Rightarrow> ctype list \<Rightarrow> ctype" where
  "class_of a fs = (let al = foldr max (map calign fs) a in \<lparr>csize = pad_to al (fields_end 0 fs), calign = al\<rparr>)"

definition byte_t :: ctype where
  "byte_t = \<lparr>csize = 1, calign = 1\<rparr>"

definition word_t :: "nat \<Rightarrow> ctype" where
  "word_t n = \<lparr>csize = n, calign = n\<rparr>"

definition CACHE_LINE :: nat where
  "CACHE_LINE = 64"

section \<open>The classes of the sources\<close>

text \<open>\<^verbatim>\<open>SPSCQueue\<close>: the two counters and the storage.\<close>

definition spsc_fields :: "ctype \<Rightarrow> u64_t \<Rightarrow> ctype list" where
  "spsc_fields T kCapacity =
     [alignas CACHE_LINE (word_t 8), alignas CACHE_LINE (word_t 8),
      alignas CACHE_LINE (alignas (calign T) (array_of (unat kCapacity * csize T) byte_t))]"

definition spsc_class :: "ctype \<Rightarrow> u64_t \<Rightarrow> ctype" where
  "spsc_class T kCapacity = class_of 1 (spsc_fields T kCapacity)"

text \<open>\<^verbatim>\<open>base + (idx & kMask) * sizeof(T)\<close>, from the start of the queue.\<close>

definition spsc_slot_offset :: "ctype \<Rightarrow> u64_t \<Rightarrow> u64_t \<Rightarrow> nat" where
  "spsc_slot_offset T kCapacity idx =
     field_offsets 0 (spsc_fields T kCapacity) ! 2 + spsc_slot_ptr kCapacity idx * csize T"

text \<open>\<^verbatim>\<open>MPSCQueue\<close>: its counters and slots are classes aligned to a cache line.\<close>

definition EXPECTED_CACHE_LINE_BYTES :: nat where
  "EXPECTED_CACHE_LINE_BYTES = csize (word_t 8) * 8"

definition AlignedAtomic :: ctype where
  "AlignedAtomic = class_of CACHE_LINE [word_t 8]"

definition Slot :: "ctype \<Rightarrow> ctype" where
  "Slot T = class_of CACHE_LINE [alignas (calign T) (array_of (csize T) byte_t), word_t 1]"

definition mpsc_fields :: "ctype \<Rightarrow> sz_t \<Rightarrow> ctype list" where
  "mpsc_fields T SIZE = [AlignedAtomic, AlignedAtomic, array_of (unat SIZE) (Slot T)]"

definition mpsc_class :: "ctype \<Rightarrow> sz_t \<Rightarrow> ctype" where
  "mpsc_class T SIZE = class_of 1 (mpsc_fields T SIZE)"

definition mpsc_slot_offset :: "ctype \<Rightarrow> sz_t \<Rightarrow> nat \<Rightarrow> nat" where
  "mpsc_slot_offset T SIZE i = field_offsets 0 (mpsc_fields T SIZE) ! 2 + i * csize (Slot T)"

text \<open>The logger's \<^verbatim>\<open>Record\<close>; a source location is one pointer.\<close>

definition record_fields :: "ctype list" where
  "record_fields =
     [alignas CACHE_LINE (array_of 512 byte_t), word_t 8, word_t 8, word_t 2, word_t 1, array_of 6 byte_t]"

section \<open>Lemmas\<close>

lemma pad_to_dvd [simp]: "a dvd pad_to a p"
  by (simp add: pad_to_def)

lemma pad_to_ge: "0 < a \<Longrightarrow> p \<le> pad_to a p"
proof -
  assume a: "0 < a"
  have "p + (a - 1) < a + pad_to a p"
    using dividend_less_div_times [OF a, of "p + (a - 1)"] by (simp add: pad_to_def)
  then show ?thesis using a by linarith
qed

lemma pad_to_dvd_id: "0 < a \<Longrightarrow> a dvd p \<Longrightarrow> pad_to a p = p"
proof -
  assume a: "0 < a" "a dvd p"
  then obtain k where "p = a * k" by (elim dvdE)
  then have "(p + (a - 1)) div a = k" using a(1) by (simp only: div_mult_self4) simp
  with \<open>p = a * k\<close> show ?thesis by (simp add: pad_to_def)
qed

lemma pow2_max_dvd:
  assumes "(a :: nat) = 2 ^ i" "b = 2 ^ j"
  shows "a dvd max a b" "b dvd max a b"
  using assms by (auto simp: max_def le_imp_power_dvd)

lemma pow2_max: "(a :: nat) = 2 ^ i \<Longrightarrow> b = 2 ^ j \<Longrightarrow> \<exists>k. max a b = 2 ^ k"
  by (auto simp: max_def)

text \<open>A boundary of cache lines separates what is below it from what is above.\<close>

lemma line_below:
  assumes "64 dvd b" "x < b" "b \<le> (y :: nat)"
  shows "x div 64 < y div 64"
proof -
  from assms(1) obtain c where c: "b = 64 * c" by (elim dvdE)
  with assms(2) have "x div 64 < c" by (simp add: less_mult_imp_div_less mult.commute)
  also have "c \<le> y div 64" using assms(3) c div_le_mono [of "64 * c" y 64] by simp
  finally show ?thesis .
qed

lemma block_inside: "i < c \<Longrightarrow> i * n + n \<le> c * (n :: nat)"
  by (metis Suc_leI add.commute mult_Suc mult_le_mono1)

lemma type_ok_align: "type_ok t \<Longrightarrow> \<exists>k. calign t = 2 ^ k"
  by (simp add: type_ok_def)

lemma Slot_ok: "type_ok T \<Longrightarrow> type_ok (Slot T) \<and> 64 dvd csize (Slot T) \<and> calign T dvd calign (Slot T) \<and> csize T < csize (Slot T)"
proof -
  assume T: "type_ok T"
  then obtain k where k: "calign T = 2 ^ k" using type_ok_align by blast
  let ?al = "max (calign T) 64"
  have "(64 :: nat) = 2 ^ 6" by simp
  from pow2_max_dvd [OF k this] pow2_max [OF k this] have
    d: "calign T dvd ?al" "64 dvd ?al" and p: "\<exists>j. ?al = 2 ^ j" by blast+
  have one: "max (calign T) (Suc 0) = calign T" using k by simp
  have S: "Slot T = \<lparr>csize = pad_to ?al (csize T + 1), calign = ?al\<rparr>"
    using k by (simp add: Slot_def class_of_def alignas_def array_of_def byte_t_def word_t_def CACHE_LINE_def one pad_to_def
        max.assoc max.commute max.left_commute Let_def)
  have "csize T + 1 \<le> pad_to ?al (csize T + 1)" by (rule pad_to_ge) simp
  with d p show ?thesis by (auto simp: S type_ok_def intro: dvd_trans)
qed

text \<open>The two counters fill one cache line each; the storage comes behind, aligned for its elements.\<close>

lemma spsc_offsets:
  assumes "type_ok T"
  shows "field_offsets 0 (spsc_fields T cap) = [0, 64, pad_to (max 64 (calign T)) 72]"
    "calign (spsc_class T cap) = max 64 (calign T)"
    "csize (spsc_class T cap) = pad_to (max 64 (calign T)) (pad_to (max 64 (calign T)) 72 + unat cap * csize T)"
proof -
  have one: "max (calign T) (Suc 0) = calign T" using type_ok_align [OF assms] by auto
  show "field_offsets 0 (spsc_fields T cap) = [0, 64, pad_to (max 64 (calign T)) 72]"
    by (simp add: spsc_fields_def alignas_def array_of_def byte_t_def word_t_def CACHE_LINE_def one pad_to_def)
  show "calign (spsc_class T cap) = max 64 (calign T)"
    by (simp add: spsc_class_def class_of_def spsc_fields_def alignas_def array_of_def byte_t_def word_t_def CACHE_LINE_def
        one Let_def max.assoc max.commute max.left_commute)
  show "csize (spsc_class T cap) = pad_to (max 64 (calign T)) (pad_to (max 64 (calign T)) 72 + unat cap * csize T)"
    by (simp add: spsc_class_def class_of_def spsc_fields_def alignas_def array_of_def byte_t_def word_t_def CACHE_LINE_def
        one Let_def pad_to_def max.assoc max.commute max.left_commute)
qed

lemma mpsc_offsets:
  assumes "type_ok T"
  shows "field_offsets 0 (mpsc_fields T SIZE) = [0, 64, pad_to (calign (Slot T)) 128]"
    "calign (mpsc_class T SIZE) = max 64 (calign (Slot T))"
    "csize (mpsc_class T SIZE) = pad_to (max 64 (calign (Slot T))) (pad_to (calign (Slot T)) 128 + unat SIZE * csize (Slot T))"
proof -
  have A: "AlignedAtomic = \<lparr>csize = 64, calign = 64\<rparr>"
    by (simp add: AlignedAtomic_def class_of_def word_t_def CACHE_LINE_def pad_to_def Let_def)
  show "field_offsets 0 (mpsc_fields T SIZE) = [0, 64, pad_to (calign (Slot T)) 128]"
    by (simp add: mpsc_fields_def A array_of_def pad_to_def)
  have one: "max (calign (Slot T)) (Suc 0) = calign (Slot T)" using Slot_ok [OF assms] type_ok_align [of "Slot T"] by auto
  show "calign (mpsc_class T SIZE) = max 64 (calign (Slot T))"
    by (simp add: mpsc_class_def class_of_def mpsc_fields_def A array_of_def one Let_def)
  show "csize (mpsc_class T SIZE) = pad_to (max 64 (calign (Slot T))) (pad_to (calign (Slot T)) 128 + unat SIZE * csize (Slot T))"
    by (simp add: mpsc_class_def class_of_def mpsc_fields_def A array_of_def one Let_def pad_to_def)
qed

section \<open>Properties\<close>

text \<open>
  C6. Layout of SPSCQueue. In a queue that starts at an address with the alignment of the class, the
  head, the tail and the storage lie in different cache lines; every slot that \<^verbatim>\<open>slot_ptr\<close> can
  return starts at an address with the alignment of the element type, behind the counters and
  inside the object; and slots of different indices do not overlap.\<close>

theorem spsc_layout:
  assumes "type_ok T" and "is_pow2 kCapacity k" and "calign (spsc_class T kCapacity) dvd base"
  shows "let off = field_offsets 0 (spsc_fields T kCapacity); slot = spsc_slot_offset T kCapacity in
    (base + off ! 0 + 7) div CACHE_LINE < (base + off ! 1) div CACHE_LINE \<and>
    (base + off ! 1 + 7) div CACHE_LINE < (base + off ! 2) div CACHE_LINE \<and>
    (\<forall>idx. calign T dvd base + slot idx \<and> off ! 2 \<le> slot idx \<and> slot idx + csize T \<le> csize (spsc_class T kCapacity)) \<and>
    (\<forall>idx idx'. spsc_slot_ptr kCapacity idx < spsc_slot_ptr kCapacity idx' \<longrightarrow> slot idx + csize T \<le> slot idx')"
proof -
  let ?al = "max 64 (calign T)" and ?st = "pad_to (max 64 (calign T)) 72"
  obtain j where j: "calign T = 2 ^ j" using type_ok_align [OF assms(1)] by blast
  have "(64 :: nat) = 2 ^ 6" by simp
  from pow2_max_dvd [OF this j] have d: "64 dvd ?al" "calign T dvd ?al" by simp_all
  have b: "?al dvd base" using assms(3) by (simp add: spsc_offsets [OF assms(1)])
  have "64 dvd base" using d(1) b by (rule dvd_trans)
  have "64 dvd ?st" using d(1) by (rule dvd_trans) simp
  have st: "72 \<le> ?st" by (rule pad_to_ge) simp
  have l1: "(base + 7) div 64 < (base + 64) div 64" using \<open>64 dvd base\<close> by (intro line_below [of "base + 64"]) simp_all
  have l2: "(base + 71) div 64 < (base + ?st) div 64"
    using \<open>64 dvd base\<close> \<open>64 dvd ?st\<close> st by (intro line_below [of "base + ?st"]) simp_all
  have idx: "spsc_slot_ptr kCapacity idx < unat kCapacity" for idx
    using ring_idx_less [OF assms(2)] by (simp add: spsc_slot_ptr_def)
  have slot: "spsc_slot_offset T kCapacity idx = ?st + spsc_slot_ptr kCapacity idx * csize T" for idx
    by (simp add: spsc_slot_offset_def spsc_offsets [OF assms(1)])
  have al: "calign T dvd base + spsc_slot_offset T kCapacity idx" for idx
    using assms(1) b d(2) by (auto simp: slot type_ok_def intro!: dvd_add dvd_mult intro: dvd_trans dvd_trans [OF d(2) pad_to_dvd])
  have fit: "spsc_slot_offset T kCapacity idx + csize T \<le> csize (spsc_class T kCapacity)" for idx
  proof -
    have "?st + (spsc_slot_ptr kCapacity idx * csize T + csize T) \<le> ?st + unat kCapacity * csize T"
      using block_inside [OF idx] by simp
    also have "\<dots> \<le> csize (spsc_class T kCapacity)" unfolding spsc_offsets [OF assms(1)] by (rule pad_to_ge) simp
    finally show ?thesis by (simp add: slot add.assoc)
  qed
  have "spsc_slot_offset T kCapacity idx + csize T \<le> spsc_slot_offset T kCapacity idx'"
    if "spsc_slot_ptr kCapacity idx < spsc_slot_ptr kCapacity idx'" for idx idx'
    using block_inside [OF that, of "csize T"] by (simp add: slot)
  with l1 l2 al fit show ?thesis by (simp add: spsc_offsets(1) [OF assms(1)] CACHE_LINE_def slot)
qed

theorem spsc_layout_witness:
  "field_offsets 0 (spsc_fields \<lparr>csize = 24, calign = 8\<rparr> 4) = [0, 64, 128] \<and>
   (\<forall>idx. 8 dvd 4096 + spsc_slot_offset \<lparr>csize = 24, calign = 8\<rparr> 4 idx)"
proof -
  let ?T = "\<lparr>csize = 24, calign = 8\<rparr>"
  have ok: "type_ok ?T" by (auto simp: type_ok_def intro: exI [of _ 3])
  have a: "calign (spsc_class ?T 4) dvd 4096" unfolding spsc_offsets [OF ok] by simp
  from spsc_layout [OF ok spsc_new_pow2_4 a] have "8 dvd 4096 + spsc_slot_offset ?T 4 idx" for idx by (simp add: Let_def)
  then show ?thesis unfolding spsc_offsets [OF ok] by (simp add: pad_to_def)
qed

text \<open>
  Layout of MPSCQueue. The counters and the slots all lie in cache lines of their own: two
  producers that write to different slots, or a producer and the consumer, never write to the
  same line, and every slot's data has the alignment of the element type.\<close>

theorem mpsc_layout:
  assumes "type_ok T" and "calign (mpsc_class T SIZE) dvd base"
  shows "let off = field_offsets 0 (mpsc_fields T SIZE); slot = mpsc_slot_offset T SIZE in
    (base + off ! 0 + 63) div CACHE_LINE < (base + off ! 1) div CACHE_LINE \<and>
    (base + off ! 1 + 63) div CACHE_LINE < (base + off ! 2) div CACHE_LINE \<and>
    (\<forall>i<unat SIZE. calign T dvd base + slot i \<and> slot i + csize (Slot T) \<le> csize (mpsc_class T SIZE)) \<and>
    (\<forall>i j x. i < j \<longrightarrow> x < slot i + csize (Slot T) \<longrightarrow> (base + x) div CACHE_LINE < (base + slot j) div CACHE_LINE)"
proof -
  let ?al = "calign (Slot T)" and ?n = "csize (Slot T)" and ?st = "pad_to (calign (Slot T)) 128"
  have S: "type_ok (Slot T)" "64 dvd ?n" "calign T dvd ?al" using Slot_ok [OF assms(1)] by auto
  obtain j where j: "?al = 2 ^ j" using type_ok_align [OF S(1)] by blast
  have "(64 :: nat) = 2 ^ 6" by simp
  from pow2_max_dvd [OF this j] have d: "64 dvd max 64 ?al" "?al dvd max 64 ?al" by simp_all
  have b: "max 64 ?al dvd base" using assms(2) by (simp add: mpsc_offsets [OF assms(1)])
  have b64: "64 dvd base" and bal: "?al dvd base" using d b by (auto intro: dvd_trans)
  have st64: "64 dvd ?st"
  proof (cases "64 \<le> ?al")
    case True
    then have "64 dvd ?al" using d(1) by (simp add: max_def)
    then show ?thesis by (rule dvd_trans) simp
  next
    case False
    then have "?al dvd 64" using d(2) by (simp add: max_def)
    then have "?al dvd 128" by (rule dvd_trans) simp
    then show ?thesis using j pad_to_dvd_id [of ?al 128] by simp
  qed
  have st: "128 \<le> ?st" using j by (intro pad_to_ge) simp
  have l1: "(base + 63) div 64 < (base + 64) div 64" using b64 by (intro line_below [of "base + 64"]) simp_all
  have l2: "(base + 127) div 64 < (base + ?st) div 64" using b64 st64 st by (intro line_below [of "base + ?st"]) simp_all
  have slot: "mpsc_slot_offset T SIZE i = ?st + i * ?n" for i by (simp add: mpsc_slot_offset_def mpsc_offsets [OF assms(1)])
  have al: "calign T dvd base + mpsc_slot_offset T SIZE i" for i
    using S bal by (auto simp: slot type_ok_def intro!: dvd_add dvd_mult intro: dvd_trans dvd_trans [OF S(3) pad_to_dvd])
  have fit: "mpsc_slot_offset T SIZE i + ?n \<le> csize (mpsc_class T SIZE)" if "i < unat SIZE" for i
  proof -
    have "?st + (i * ?n + ?n) \<le> ?st + unat SIZE * ?n" using block_inside [OF that] by simp
    also have "\<dots> \<le> csize (mpsc_class T SIZE)" unfolding mpsc_offsets [OF assms(1)] by (rule pad_to_ge) simp
    finally show ?thesis by (simp add: slot add.assoc)
  qed
  have "(base + x) div 64 < (base + mpsc_slot_offset T SIZE j) div 64" if "i < j" "x < mpsc_slot_offset T SIZE i + ?n" for i j x
    using that(2) block_inside [OF that(1), of ?n] b64 st64 S(2)
    by (intro line_below [of "base + mpsc_slot_offset T SIZE j"]) (auto simp: slot)
  with l1 l2 al fit show ?thesis by (simp add: mpsc_offsets(1) [OF assms(1)] CACHE_LINE_def slot)
qed

theorem mpsc_layout_witness:
  "csize (Slot \<lparr>csize = 4, calign = 4\<rparr>) = 64 \<and>
   (0 + (128 + 63)) div CACHE_LINE < (0 + mpsc_slot_offset \<lparr>csize = 4, calign = 4\<rparr> 4 1) div CACHE_LINE"
proof -
  let ?T = "\<lparr>csize = 4, calign = 4\<rparr>"
  have ok: "type_ok ?T" by (auto simp: type_ok_def intro: exI [of _ 2])
  have s: "Slot ?T = \<lparr>csize = 64, calign = 64\<rparr>"
    by (simp add: Slot_def class_of_def alignas_def array_of_def byte_t_def word_t_def CACHE_LINE_def pad_to_def Let_def)
  have "mpsc_slot_offset ?T 4 0 = 128" by (simp add: mpsc_slot_offset_def mpsc_offsets [OF ok] s pad_to_def)
  with mpsc_layout [OF ok, of 4 0] s show ?thesis by (simp add: Let_def)
qed

text \<open>
  The static assertions hold: the cache line is the one \<^verbatim>\<open>MPSCQueue\<close> expects, the logger's record
  fills nine of them with its members packed one after the other, and a queue of records keeps
  each record on lines of its own.\<close>

theorem static_asserts:
  "EXPECTED_CACHE_LINE_BYTES = CACHE_LINE \<and> class_of 1 record_fields = \<lparr>csize = 9 * CACHE_LINE, calign = CACHE_LINE\<rparr> \<and>
   field_offsets 0 record_fields = [0, 512, 520, 528, 530, 531]"
  by (simp add: EXPECTED_CACHE_LINE_BYTES_def word_t_def CACHE_LINE_def record_fields_def class_of_def alignas_def array_of_def
      byte_t_def pad_to_def Let_def)

end
