(* ===== verification/Any_Program.thy ===== *)
theory Any_Program
  imports Any_Box Data_Layout Decimal Complex_Main
begin

text \<open>
  The program at the end of \<^verbatim>\<open>include/fiah/handle/Any.cc\<close>: a container with an \<^verbatim>\<open>int\<close>, one with a
  \<^verbatim>\<open>double\<close>, their sizes and what is read back from them. How a stream prints a floating point number
  is the parameter \<open>show_double\<close>.
\<close>

datatype any_value = IntV int | DoubleV real

definition show_value :: "(real \<Rightarrow> string) \<Rightarrow> any_value \<Rightarrow> string" where
  "show_value show_double v =
     (case v of IntV n \<Rightarrow> show_int n | DoubleV x \<Rightarrow> show_double x)"

text \<open>The members of the class: the inner storage, the pointer and the flag.\<close>

definition any_class :: ctype where
  "any_class = class_of 1 [alignas 4 (array_of 4 byte_t), word_t 8, word_t 1]"

definition any_main :: "(real \<Rightarrow> string) \<Rightarrow> any_value heap \<Rightarrow> (any_value heap \<times> string list) res" where
  "any_main show_double h =
     bind_res (any_construct 4 4 h (IntV 1)) (\<lambda>(h, someAny).
     bind_res (any_cast h someAny) (\<lambda>value.
     bind_res (any_construct 8 8 h (DoubleV 3.14)) (\<lambda>(h, anotherAny).
     bind_res (any_cast h anotherAny) (\<lambda>d.
     bind_res (any_destroy h anotherAny) (\<lambda>h.
     bind_res (any_destroy h someAny) (\<lambda>h.
       Inr (h, [''sizeof(any<int>): '' @ show_nat (csize any_class), ''Value stored: '' @ show_value show_double value,
                ''sizeof(any<double>): '' @ show_nat (csize any_class), ''Double value: '' @ show_value show_double d])))))))"

text \<open>
  The program prints what it stored: both containers have 24 bytes, the numbers are read back, and
  at the end the heap is as it was.\<close>

theorem any_main_exact:
  assumes "hblocks h (hnext h) = None"
  shows "\<exists>h'. any_main show_double h =
      Inr (h', [''sizeof(any<int>): 24'', ''Value stored: 1'', ''sizeof(any<double>): 24'', ''Double value: '' @ show_double 3.14]) \<and>
    hblocks h' = hblocks h"
proof -
  have c: "show_nat (csize any_class) = ''24''" "show_int 1 = ''1''"
    by (simp_all add: any_class_def class_of_def alignas_def array_of_def byte_t_def word_t_def pad_to_def Let_def show_int_def show_nat.simps
        char_of_def bit_0 bit_Suc)
  show ?thesis using assms
    by (simp add: any_main_def c show_value_def any_construct_def storage_construct_def block_construct_def new_alignment_def small_type_def SMALL_SIZE_def any_cast_def any_destroy_def heap_new_def
        heap_construct_def heap_update_def construct_at_def heap_read_def read_at_def heap_destroy_def destroy_at_def heap_free_def fun_upd_idem)
qed

theorem any_main_exact_witness:
  "\<exists>h'. any_main (\<lambda>_. ''3.14'') \<lparr>hblocks = Map.empty, hnext = 0\<rparr> =
     Inr (h', [''sizeof(any<int>): 24'', ''Value stored: 1'', ''sizeof(any<double>): 24'', ''Double value: 3.14''])"
  using any_main_exact [of "\<lparr>hblocks = Map.empty, hnext = 0\<rparr>" "\<lambda>_. ''3.14''"] by auto

end
