(* ===== verification/Toml_Parser.thy ===== *)
theory Toml_Parser
  imports Decimal
begin

text \<open>
  The configuration reader: \<^verbatim>\<open>include/fiah/utils/TomlParser.hh\<close> and its client
  \<^verbatim>\<open>include/fiah/io/Config.hh\<close>. The file is a string; opening it is a parameter, a map from
  paths to contents. The parser reads line by line into a map from sections to maps from
  keys to values and keeps what it has read when it stops at an error.
\<close>

section \<open>Strings\<close>

definition ws_chars :: string where
  "ws_chars = [CHR '' '', CHR 0x09, CHR 0x0D, CHR 0x0A]"

definition is_ws :: "char \<Rightarrow> bool" where
  "is_ws c \<longleftrightarrow> c \<in> set ws_chars"

text \<open>\<^verbatim>\<open>s.erase(0, s.find_first_not_of(ws))\<close> and \<^verbatim>\<open>s.erase(s.find_last_not_of(ws) + 1)\<close>.\<close>

definition erase_front :: "string \<Rightarrow> string" where
  "erase_front s = dropWhile is_ws s"

definition erase_back :: "string \<Rightarrow> string" where
  "erase_back s = rev (dropWhile is_ws (rev s))"

definition str_find :: "string \<Rightarrow> char \<Rightarrow> nat option" where
  "str_find s c = (if c \<in> set s then Some (length (takeWhile (\<lambda>x. x \<noteq> c) s)) else None)"

text \<open>\<^verbatim>\<open>substr(0, pos)\<close> with a position that may be \<^verbatim>\<open>npos\<close>.\<close>

definition substr_to :: "string \<Rightarrow> nat option \<Rightarrow> string" where
  "substr_to s pos = (case pos of None \<Rightarrow> s | Some n \<Rightarrow> take n s)"

definition unquote :: "string \<Rightarrow> string" where
  "unquote val =
     (if length val \<ge> 2 \<and>
         (hd val = CHR 0x22 \<and> last val = CHR 0x22 \<or> hd val = CHR 0x27 \<and> last val = CHR 0x27)
      then take (length val - 2) (drop 1 val) else val)"

text \<open>\<^verbatim>\<open>std::getline\<close> until the end of the file.\<close>

function getlines :: "string \<Rightarrow> string list" where
  "getlines s =
     (if s = [] then []
      else takeWhile (\<lambda>c. c \<noteq> CHR 0x0A) s # getlines (drop (Suc (length (takeWhile (\<lambda>c. c \<noteq> CHR 0x0A) s))) s))"
  by pat_completeness auto

termination
  by (relation "measure length") auto

declare getlines.simps [simp del]

section \<open>Parser\<close>

datatype TomlParserError = FILE_NOT_FOUND | PARSE_ERROR | KEY_NOT_FOUND | TYPE_MISMATCH | INVALID_TOML

record toml =
  m_filepath :: string
  m_sections :: "string list"
  m_keys :: "string \<rightharpoonup> (string \<rightharpoonup> string)"

definition TomlParser :: "string \<Rightarrow> toml" where
  "TomlParser path = \<lparr>m_filepath = path, m_sections = [], m_keys = Map.empty\<rparr>"

definition TomlParser_default :: toml where
  "TomlParser_default = \<lparr>m_filepath = ''etc/config.toml'', m_sections = [], m_keys = Map.empty\<rparr>"

text \<open>\<^verbatim>\<open>m_keys[section].emplace(key, val)\<close>: a section is created on first use, a key is kept.\<close>

definition emplace_key :: "toml \<Rightarrow> string \<Rightarrow> string \<Rightarrow> string \<Rightarrow> toml" where
  "emplace_key st sec key val =
     (let m = (case m_keys st sec of None \<Rightarrow> Map.empty | Some m \<Rightarrow> m);
          m' = (case m key of None \<Rightarrow> m(key \<mapsto> val) | Some _ \<Rightarrow> m)
      in st\<lparr>m_keys := (m_keys st)(sec \<mapsto> m')\<rparr>)"

definition section_of :: "string \<Rightarrow> nat \<Rightarrow> string" where
  "section_of line left_bracket =
     (let sec = drop (left_bracket + 1) line;
          sec = substr_to sec (str_find sec CHR '']'')
      in erase_back (erase_front sec))"

definition value_of :: "string \<Rightarrow> string" where
  "value_of val =
     (let val = erase_back (erase_front val);
          val = (case str_find val CHR ''#'' of
                   None \<Rightarrow> val
                 | Some comment_pos \<Rightarrow> erase_front (erase_back (take comment_pos val)))
      in unquote val)"

text \<open>One round of the loop: the parser state and the current section.\<close>

definition parse_line :: "toml \<Rightarrow> string \<Rightarrow> string \<Rightarrow> TomlParserError + toml \<times> string" where
  "parse_line st current_section line =
     (let line = erase_front line
      in if line = [] then Inr (st, current_section)
         else let line = erase_back line
              in if length line > 0 \<and> hd line = CHR ''#'' then Inr (st, current_section)
                 else case str_find line CHR ''['' of
                        Some left_bracket \<Rightarrow>
                          let sec = section_of line left_bracket
                          in Inr (st\<lparr>m_sections := m_sections st @ [sec]\<rparr>, sec)
                      | None \<Rightarrow>
                          (case str_find line CHR ''='' of
                             None \<Rightarrow> Inl PARSE_ERROR
                           | Some equal_sign \<Rightarrow>
                               if current_section = [] then Inl PARSE_ERROR
                               else let key = erase_back (erase_front (take equal_sign line));
                                        val = value_of (drop (equal_sign + 1) line)
                                    in Inr (emplace_key st current_section key val, current_section)))"

fun parse_lines :: "toml \<Rightarrow> string \<Rightarrow> string list \<Rightarrow> (TomlParserError + bool) \<times> toml" where
  "parse_lines st cur [] = (Inr True, st)"
| "parse_lines st cur (l # ls) =
     (case parse_line st cur l of
        Inl e \<Rightarrow> (Inl e, st)
      | Inr (st', cur') \<Rightarrow> parse_lines st' cur' ls)"

definition extract_keys :: "toml \<Rightarrow> string \<Rightarrow> (TomlParserError + bool) \<times> toml" where
  "extract_keys st file = parse_lines st [] (getlines file)"

definition toml_load :: "(string \<rightharpoonup> string) \<Rightarrow> toml \<Rightarrow> (TomlParserError + bool) \<times> toml" where
  "toml_load disk st =
     (case disk (m_filepath st) of
        None \<Rightarrow> (Inl FILE_NOT_FOUND, st)
      | Some file \<Rightarrow>
          (case extract_keys st file of
             (Inl _, st') \<Rightarrow> (Inl PARSE_ERROR, st')
           | (Inr _, st') \<Rightarrow> (Inr True, st')))"

definition is_valid :: "string \<Rightarrow> TomlParserError + bool" where
  "is_valid file = Inl INVALID_TOML"

section \<open>Queries\<close>

definition get_value :: "toml \<Rightarrow> string \<Rightarrow> string \<Rightarrow> string option" where
  "get_value st sec key =
     (case m_keys st sec of None \<Rightarrow> None | Some m \<Rightarrow> (case m key of None \<Rightarrow> None | Some v \<Rightarrow> Some v))"

definition get_string :: "toml \<Rightarrow> string \<Rightarrow> string" where
  "get_string st key =
     (case str_find key CHR ''.'' of
        None \<Rightarrow> []
      | Some dot \<Rightarrow>
          (case m_keys st (take dot key) of
             None \<Rightarrow> []
           | Some m \<Rightarrow> (case m (drop (dot + 1) key) of None \<Rightarrow> [] | Some val \<Rightarrow> unquote val)))"

text \<open>
  \<^verbatim>\<open>std::stoi\<close>: leading white space, a sign, decimal digits; \<open>None\<close> stands for the exceptions
  it throws, when there is no digit or the number does not fit an \<^verbatim>\<open>int\<close>.
\<close>

definition is_space :: "char \<Rightarrow> bool" where
  "is_space c \<longleftrightarrow> c = CHR '' '' \<or> (9 \<le> (of_char c :: nat) \<and> (of_char c :: nat) \<le> 13)"

definition stoi :: "string \<Rightarrow> int option" where
  "stoi s =
     (let s = dropWhile is_space s;
          neg = (s \<noteq> [] \<and> hd s = CHR ''-'');
          s = (if s \<noteq> [] \<and> (hd s = CHR ''-'' \<or> hd s = CHR ''+'') then drop 1 s else s);
          ds = takeWhile is_digit s;
          n = (if neg then - digits_value ds else digits_value ds)
      in if ds = [] \<or> \<not> int32 n then None else Some n)"

definition get_int :: "toml \<Rightarrow> string \<Rightarrow> int" where
  "get_int st key =
     (let s = get_string st key
      in if s = [] then 0 else (case stoi s of Some n \<Rightarrow> n | None \<Rightarrow> 0))"

section \<open>Config\<close>

record config =
  m_config_path :: string
  m_parser :: toml

definition Config_default :: config where
  "Config_default = \<lparr>m_config_path = [], m_parser = TomlParser_default\<rparr>"

definition Config :: "string \<Rightarrow> config" where
  "Config path = \<lparr>m_config_path = path, m_parser = TomlParser path\<rparr>"

definition parse_config :: "(string \<rightharpoonup> string) \<Rightarrow> config \<Rightarrow> bool \<times> config" where
  "parse_config disk c =
     (case toml_load disk (m_parser c) of
        (Inl _, p) \<Rightarrow> (False, c\<lparr>m_parser := p\<rparr>)
      | (Inr success, p) \<Rightarrow> (success, c\<lparr>m_parser := p\<rparr>))"

definition get_market_ip :: "config \<Rightarrow> string" where
  "get_market_ip c = (case get_value (m_parser c) ''network'' ''ip'' of None \<Rightarrow> [] | Some v \<Rightarrow> v)"

definition get_market_port :: "config \<Rightarrow> u16_t" where
  "get_market_port c =
     (case get_value (m_parser c) ''network'' ''port'' of
        None \<Rightarrow> 0
      | Some v \<Rightarrow>
          (case stoi v of
             None \<Rightarrow> 0
           | Some val \<Rightarrow> if val < 0 then 0 else of_int val))"

section \<open>Trimming and searching\<close>

lemma erase_front_id: "s \<noteq> [] \<Longrightarrow> \<not> is_ws (hd s) \<Longrightarrow> erase_front s = s"
  by (cases s) (simp_all add: erase_front_def)

lemma erase_back_snoc: "\<not> is_ws c \<Longrightarrow> erase_back (s @ [c]) = s @ [c]"
  by (simp add: erase_back_def)

lemma erase_back_id: "s \<noteq> [] \<Longrightarrow> \<not> is_ws (last s) \<Longrightarrow> erase_back s = s"
  by (cases s rule: rev_cases) (simp_all add: erase_back_def)

lemma erase_back_ws: "is_ws c \<Longrightarrow> erase_back (s @ [c]) = erase_back s"
  by (simp add: erase_back_def)

lemma str_find_append: "c \<notin> set a \<Longrightarrow> str_find (a @ c # b) c = Some (length a)"
  by (induction a) (auto simp: str_find_def)

lemma str_find_None: "c \<notin> set a \<Longrightarrow> str_find a c = None"
  by (simp add: str_find_def)

lemma is_ws_simps [simp]:
  "is_ws CHR '' ''" "is_ws CHR 0x0A" "\<not> is_ws CHR ''[''" "\<not> is_ws CHR '']''" "\<not> is_ws CHR 0x22"
  by (simp_all add: is_ws_def ws_chars_def)

lemma unquote_dquote: "unquote (CHR 0x22 # v @ [CHR 0x22]) = v"
  by (simp add: unquote_def)

section \<open>Printing a configuration\<close>

text \<open>
  The canonical form of a configuration: a header line per section, a line
  \<open>key = "value"\<close> per entry.
\<close>

definition header_line :: "string \<Rightarrow> string" where
  "header_line sec = CHR ''['' # sec @ '']''"

definition entry_line :: "string \<times> string \<Rightarrow> string" where
  "entry_line e = fst e @ '' = '' @ CHR 0x22 # snd e @ [CHR 0x22]"

type_synonym toml_config = "(string \<times> (string \<times> string) list) list"

definition config_lines :: "toml_config \<Rightarrow> string list" where
  "config_lines cfg = concat (map (\<lambda>(sec, es). header_line sec # map entry_line es) cfg)"

definition render :: "toml_config \<Rightarrow> string" where
  "render cfg = concat (map (\<lambda>l. l @ [CHR 0x0A]) (config_lines cfg))"

text \<open>
  Names without brackets, equals signs, hashes and white space around them; values on one line and without an
  opening bracket, which would make the line a section header.
\<close>

definition name_ok :: "string \<Rightarrow> bool" where
  "name_ok s \<longleftrightarrow> s \<noteq> [] \<and> \<not> is_ws (hd s) \<and> \<not> is_ws (last s) \<and>
     list_all (\<lambda>c. c \<notin> set [CHR 0x0A, CHR ''['', CHR '']'', CHR ''='', CHR ''#'']) s"

definition value_ok :: "string \<Rightarrow> bool" where
  "value_ok v \<longleftrightarrow> list_all (\<lambda>c. c \<notin> set [CHR 0x0A, CHR ''['']) v"

definition config_ok :: "toml_config \<Rightarrow> bool" where
  "config_ok cfg \<longleftrightarrow> list_all (\<lambda>(sec, es). name_ok sec \<and> list_all (\<lambda>(k, v). name_ok k \<and> value_ok v) es) cfg"

lemma name_okD:
  assumes "name_ok s"
  shows "s \<noteq> []" "\<not> is_ws (hd s)" "\<not> is_ws (last s)" "CHR 0x0A \<notin> set s" "CHR ''['' \<notin> set s"
    "CHR '']'' \<notin> set s" "CHR ''='' \<notin> set s" "CHR ''#'' \<notin> set s"
  using assms by (auto simp: name_ok_def list_all_iff)

lemma value_okD:
  assumes "value_ok v"
  shows "CHR 0x0A \<notin> set v" "CHR ''['' \<notin> set v"
  using assms by (auto simp: value_ok_def list_all_iff)

text \<open>
  What is read for a quoted value. The value ends at the first hash sign even inside the quotes: the opening quote then
  stays, and white space before the hash sign is lost.
\<close>

definition carried :: "string \<Rightarrow> string" where
  "carried v = (if CHR ''#'' \<in> set v then unquote (erase_back (CHR 0x22 # takeWhile (\<lambda>c. c \<noteq> CHR ''#'') v)) else v)"

lemma set_erase_back: "set (erase_back s) \<subseteq> set s"
  by (auto simp: erase_back_def dest: set_dropWhileD)

lemma set_unquote: "set (unquote s) \<subseteq> set s"
  by (auto simp: unquote_def dest: in_set_takeD in_set_dropD)

lemma carried_id: "carried v = v \<longleftrightarrow> CHR ''#'' \<notin> set v"
proof
  assume v: "carried v = v"
  have "CHR ''#'' \<notin> set (takeWhile (\<lambda>c. c \<noteq> CHR ''#'') v)" by (auto dest: set_takeWhileD)
  then have "CHR ''#'' \<notin> set (unquote (erase_back (CHR 0x22 # takeWhile (\<lambda>c. c \<noteq> CHR ''#'') v)))"
    using set_unquote set_erase_back by fastforce
  with v show "CHR ''#'' \<notin> set v" by (auto simp: carried_def split: if_splits)
qed (simp add: carried_def)

lemma trim_name: "name_ok s \<Longrightarrow> erase_back (erase_front s) = s"
  by (simp add: erase_front_id erase_back_id name_okD)

text \<open>Splitting into lines inverts joining them.\<close>

lemma getlines_join: "list_all (\<lambda>l. CHR 0x0A \<notin> set l) ls \<Longrightarrow> getlines (concat (map (\<lambda>l. l @ [CHR 0x0A]) ls)) = ls"
proof (induction ls)
  case Nil
  then show ?case by (simp add: getlines.simps)
next
  case (Cons l ls)
  have tw: "takeWhile (\<lambda>c. c \<noteq> CHR 0x0A) (l @ CHR 0x0A # r) = l" for r
    using Cons.prems by (subst takeWhile_append2) auto
  from Cons show ?case by (subst getlines.simps) (simp add: tw)
qed

section \<open>Parsing the canonical form\<close>

lemma parse_header:
  assumes "name_ok sec"
  shows "parse_line st cur (header_line sec) = Inr (st\<lparr>m_sections := m_sections st @ [sec]\<rparr>, sec)"
proof -
  have "section_of (header_line sec) 0 = sec"
    using assms name_okD(6) [OF assms]
    by (simp add: section_of_def header_line_def substr_to_def str_find_append trim_name)
  moreover have "str_find (header_line sec) CHR ''['' = Some 0"
    by (simp add: header_line_def str_find_def)
  moreover have "erase_front (header_line sec) = header_line sec" "erase_back (header_line sec) = header_line sec"
    by (simp_all add: header_line_def erase_front_id erase_back_id)
  ultimately show ?thesis by (simp add: parse_line_def Let_def) (simp add: header_line_def)
qed

lemma erase_back_Cons: "\<not> is_ws c \<Longrightarrow> \<exists>r. erase_back (c # s) = c # r"
  by (intro exI [of _ "erase_back s"]) (auto simp: erase_back_def dropWhile_append)

lemma value_of_quoted: "value_of (CHR '' '' # CHR 0x22 # v @ [CHR 0x22]) = carried v"
proof -
  let ?q = "CHR 0x22 # v @ [CHR 0x22]"
  have front: "erase_front (CHR '' '' # ?q) = ?q" by (simp add: erase_front_def)
  have back': "erase_back ?q = ?q" using erase_back_snoc [of "CHR 0x22" "CHR 0x22 # v"] by simp
  show ?thesis
  proof (cases "CHR ''#'' \<in> set v")
    case False
    then have "str_find ?q CHR ''#'' = None" by (simp add: str_find_def)
    with False show ?thesis by (simp add: value_of_def front back' unquote_dquote carried_def)
  next
    case True
    let ?p = "CHR 0x22 # takeWhile (\<lambda>c. c \<noteq> CHR ''#'') v"
    have tw: "takeWhile (\<lambda>c. c \<noteq> CHR ''#'') ?q = ?p" using True by (simp add: takeWhile_append1)
    then have "str_find ?q CHR ''#'' = Some (length ?p)" using True unfolding str_find_def tw by simp
    moreover have "take (length ?p) ?q = ?p" using takeWhile_eq_take [of "\<lambda>c. c \<noteq> CHR ''#''" ?q] unfolding tw by simp
    moreover have "erase_front (erase_back ?p) = erase_back ?p"
      using erase_back_Cons [of "CHR 0x22" "takeWhile (\<lambda>c. c \<noteq> CHR ''#'') v"] by (auto simp: erase_front_def)
    ultimately show ?thesis using True by (simp add: value_of_def front back' carried_def del: take_Suc_Cons length_Cons)
  qed
qed

lemma parse_entry:
  assumes k: "name_ok k" and v: "value_ok v" and cur: "cur \<noteq> []"
  shows "parse_line st cur (entry_line (k, v)) = Inr (emplace_key st cur k (carried v), cur)"
proof -
  let ?l = "entry_line (k, v)"
  let ?rest = "CHR '' '' # CHR 0x22 # v @ [CHR 0x22]"
  have l: "?l = (k @ '' '') @ CHR ''='' # ?rest" by (simp add: entry_line_def)
  have hd: "hd ?l = hd k" using name_okD(1) [OF k] by (simp add: entry_line_def)
  have front: "erase_front ?l = ?l"
    using name_okD(1,2) [OF k] hd by (intro erase_front_id) (auto simp: entry_line_def)
  have back': "erase_back ?l = ?l"
    by (rule erase_back_id) (simp_all add: entry_line_def)
  have hash: "hd ?l \<noteq> CHR ''#''" using name_okD(1,8) [OF k] hd by (cases k) auto
  have no: "str_find ?l CHR ''['' = None"
    using name_okD(5) [OF k] value_okD(2) [OF v] by (simp add: str_find_def entry_line_def)
  have eq: "str_find ?l CHR ''='' = Some (length k + 1)"
    unfolding l using str_find_append [of "CHR ''=''" "k @ '' ''" ?rest] name_okD(7) [OF k] by simp
  have key: "erase_back (erase_front (take (length k + 1) ?l)) = k"
  proof -
    have "take (length k + 1) ?l = k @ '' ''" by (simp add: entry_line_def)
    moreover have "erase_front (k @ '' '') = k @ '' ''"
      using name_okD(1,2) [OF k] by (intro erase_front_id) auto
    ultimately show ?thesis
      using erase_back_ws [of "CHR '' ''" k] erase_back_id name_okD(1,3) [OF k] by simp
  qed
  have val: "value_of (drop (length k + 1 + 1) ?l) = carried v"
    using value_of_quoted by (simp add: entry_line_def)
  have ne: "?l \<noteq> []" by (simp add: entry_line_def)
  show ?thesis
    unfolding parse_line_def Let_def front back' no eq option.case key val
    using ne hash cur by simp
qed

lemma get_value_emplace:
  "get_value (emplace_key st sec k v) sec' k' =
     (if sec' = sec \<and> k' = k \<and> get_value st sec k = None then Some v else get_value st sec' k')"
  by (auto simp: get_value_def emplace_key_def Let_def split: option.splits)

text \<open>What a later list of entries adds to what was read before: the first value stays.\<close>

definition extends :: "toml \<Rightarrow> ((string \<times> string) \<times> string) list \<Rightarrow> toml \<Rightarrow> bool" where
  "extends st es st' \<longleftrightarrow>
     (\<forall>sec k. get_value st' sec k =
        (case get_value st sec k of Some v \<Rightarrow> Some v | None \<Rightarrow> map_of es (sec, k)))"

lemma extends_trans: "extends st es st' \<Longrightarrow> extends st' fs st'' \<Longrightarrow> extends st (es @ fs) st''"
  by (auto simp: extends_def map_add_def split: option.splits)

lemma extends_emplace: "extends st [((sec, k), v)] (emplace_key st sec k v)"
  by (auto simp: extends_def get_value_emplace split: option.splits)

text \<open>The entries of a configuration, and what is read for them.\<close>

definition flat :: "toml_config \<Rightarrow> ((string \<times> string) \<times> string) list" where
  "flat cfg = concat (map (\<lambda>(sec, es). map (\<lambda>(k, v). ((sec, k), v)) es) cfg)"

definition loaded :: "toml_config \<Rightarrow> ((string \<times> string) \<times> string) list" where
  "loaded cfg = map (\<lambda>(sk, v). (sk, carried v)) (flat cfg)"

lemma map_of_loaded: "map_of (loaded cfg) sk = map_option carried (map_of (flat cfg) sk)"
  unfolding loaded_def by (rule map_of_map [THEN fun_cong, of carried "flat cfg" sk, unfolded comp_apply])

lemma loaded_Cons: "loaded ((sec, es) # cfg) = map (\<lambda>(k, v). ((sec, k), carried v)) es @ loaded cfg"
  by (auto simp: loaded_def flat_def)

lemma parse_entries:
  assumes "sec \<noteq> []" "list_all (\<lambda>(k, v). name_ok k \<and> value_ok v) es"
  shows "\<exists>st'. parse_lines st sec (map entry_line es @ rest) = parse_lines st' sec rest \<and>
    extends st (map (\<lambda>(k, v). ((sec, k), carried v)) es) st' \<and> m_sections st' = m_sections st"
  using assms(2)
proof (induction es arbitrary: st)
  case Nil
  then show ?case by (auto simp: extends_def split: option.splits)
next
  case (Cons e es)
  obtain k v where e: "e = (k, v)" by (cases e)
  let ?st = "emplace_key st sec k (carried v)"
  obtain st' where st': "parse_lines ?st sec (map entry_line es @ rest) = parse_lines st' sec rest"
    "extends ?st (map (\<lambda>(k, v). ((sec, k), carried v)) es) st'" "m_sections st' = m_sections ?st"
    using Cons by auto
  have "parse_line st sec (entry_line (k, v)) = Inr (?st, sec)"
    using Cons.prems e assms(1) by (intro parse_entry) auto
  moreover have "extends st (((sec, k), carried v) # map (\<lambda>(k, v). ((sec, k), carried v)) es) st'"
    using extends_trans [OF extends_emplace st'(2)] by simp
  moreover have "m_sections ?st = m_sections st" by (simp add: emplace_key_def Let_def)
  ultimately show ?case using st' e by auto
qed

lemma parse_config_lines:
  assumes "config_ok cfg"
  shows "\<exists>st'. parse_lines st cur (config_lines cfg) = (Inr True, st') \<and> extends st (loaded cfg) st' \<and>
    m_sections st' = m_sections st @ map fst cfg"
  using assms
proof (induction cfg arbitrary: st cur)
  case Nil
  then show ?case by (auto simp: config_lines_def loaded_def flat_def extends_def split: option.splits)
next
  case (Cons c cfg)
  obtain sec es where c: "c = (sec, es)" by (cases c)
  have ok: "name_ok sec" "list_all (\<lambda>(k, v). name_ok k \<and> value_ok v) es" "config_ok cfg"
    using Cons.prems c by (auto simp: config_ok_def)
  let ?st = "st\<lparr>m_sections := m_sections st @ [sec]\<rparr>"
  obtain st1 where st1: "parse_lines ?st sec (map entry_line es @ config_lines cfg) = parse_lines st1 sec (config_lines cfg)"
    "extends ?st (map (\<lambda>(k, v). ((sec, k), carried v)) es) st1" "m_sections st1 = m_sections ?st"
    using parse_entries [OF name_okD(1) [OF ok(1)] ok(2)] by blast
  obtain st2 where st2: "parse_lines st1 sec (config_lines cfg) = (Inr True, st2)" "extends st1 (loaded cfg) st2"
    "m_sections st2 = m_sections st1 @ map fst cfg"
    using Cons.IH [OF ok(3)] by blast
  have "extends st (map (\<lambda>(k, v). ((sec, k), carried v)) es @ loaded cfg) st2"
    using extends_trans [OF st1(2) st2(2)] by (simp add: extends_def get_value_def)
  with st1 st2 show ?case
    by (simp add: c config_lines_def loaded_Cons parse_header [OF ok(1)])
qed

lemma config_lines_newline: "config_ok cfg \<Longrightarrow> list_all (\<lambda>l. CHR 0x0A \<notin> set l) (config_lines cfg)"
  by (force simp: config_lines_def config_ok_def list_all_iff header_line_def entry_line_def
      dest: name_okD(4) value_okD(1))

section \<open>Decimal numbers\<close>

lemma stoi_show:
  assumes "n < 2 ^ 31"
  shows "stoi (show_nat n) = Some (int n)"
proof -
  obtain c cs where s: "show_nat n = c # cs" "is_digit c" "list_all is_digit (show_nat n)"
    using show_nat_digits [of n] by (cases "show_nat n") auto
  have "\<not> is_space c" "c \<noteq> CHR ''-''" "c \<noteq> CHR ''+''"
    using s(2) by (auto simp: is_space_def is_digit_def)
  moreover have "takeWhile is_digit (show_nat n) = show_nat n"
    using s(3) by (auto simp: list_all_iff takeWhile_eq_all_conv)
  ultimately show ?thesis
    using assms digits_value_show [of n] by (simp add: stoi_def s(1) int32_def Let_def)
qed

lemma value_ok_show: "value_ok (show_nat n)"
  using show_nat_digits [of n] by (auto simp: value_ok_def list_all_iff is_digit_def)

section \<open>Properties\<close>

lemma extract_render:
  assumes "config_ok cfg"
  shows "\<exists>st. extract_keys (TomlParser path) (render cfg) = (Inr True, st) \<and> m_sections st = map fst cfg \<and>
     (\<forall>sec k. get_value st sec k = map_option carried (map_of (flat cfg) (sec, k)))"
proof -
  have lines: "getlines (render cfg) = config_lines cfg"
    unfolding render_def by (rule getlines_join [OF config_lines_newline [OF assms]])
  from parse_config_lines [OF assms, of "TomlParser path" "[]"] lines show ?thesis
    by (auto simp: extract_keys_def extends_def TomlParser_def get_value_def map_of_loaded)
qed

text \<open>A line with an opening bracket anywhere after a name is a section header.\<close>

lemma bracket_line:
  assumes "name_ok k" "CHR ''['' \<in> set v"
  shows "\<exists>sec. parse_line st cur (entry_line (k, v)) = Inr (st\<lparr>m_sections := m_sections st @ [sec]\<rparr>, sec)"
proof -
  let ?l = "entry_line (k, v)"
  have hd: "hd ?l = hd k" using name_okD(1) [OF assms(1)] by (simp add: entry_line_def)
  have front: "erase_front ?l = ?l" using name_okD(1,2) [OF assms(1)] hd by (intro erase_front_id) (auto simp: entry_line_def)
  have back': "erase_back ?l = ?l" by (rule erase_back_id) (simp_all add: entry_line_def)
  have hash: "hd ?l \<noteq> CHR ''#''" using name_okD(1,8) [OF assms(1)] hd by (cases k) auto
  obtain n where br: "str_find ?l CHR ''['' = Some n" using assms(2) by (simp add: str_find_def entry_line_def)
  have "?l \<noteq> []" by (simp add: entry_line_def)
  with hash show ?thesis unfolding parse_line_def Let_def front back' br option.case by auto
qed

text \<open>
  C30. Round trip, for files of the form the reader is written for: lines \<open>[section]\<close> and \<open>key = "value"\<close>, with names that have no
  brackets, equals signs or hashes and no white space around them, and values on one line. When no value has an
  opening bracket, loading succeeds, the sections are those of the file in order, and a query returns
  the first value given for the section and key, over all sections of that name, and nothing else. The value comes back
  as it was written exactly when it has no hash sign; otherwise it is cut there, quotes or not. An entry whose
  value has an opening bracket is not stored: it is read as the header of another section.\<close>

theorem toml_roundtrip:
  assumes "config_ok cfg" and "disk path = Some (render cfg)"
  shows "(\<exists>st. toml_load disk (TomlParser path) = (Inr True, st) \<and> m_sections st = map fst cfg \<and>
      (\<forall>sec k. get_value st sec k = map_option carried (map_of (flat cfg) (sec, k)))) \<and>
    (\<forall>v. carried v = v \<longleftrightarrow> CHR ''#'' \<notin> set v) \<and>
    (\<forall>st cur k v. name_ok k \<and> CHR ''['' \<in> set v \<longrightarrow>
      (\<exists>sec. parse_line st cur (entry_line (k, v)) = Inr (st\<lparr>m_sections := m_sections st @ [sec]\<rparr>, sec)))"
  using extract_render [OF assms(1), of path] assms(2) carried_id bracket_line by (auto simp: toml_load_def TomlParser_def)

theorem toml_roundtrip_witness:
  "\<exists>st. toml_load [''a'' \<mapsto> render [(''net'', [(''ip'', ''::1''), (''ip'', ''x''), (''tag'', ''a#b'')])]] (TomlParser ''a'') = (Inr True, st) \<and>
     get_value st ''net'' ''ip'' = Some ''::1'' \<and> get_value st ''net'' ''port'' = None \<and> get_value st ''net'' ''tag'' = Some [CHR 0x22, CHR ''a'']"
proof -
  let ?cfg = "[(''net'', [(''ip'', ''::1''), (''ip'', ''x''), (''tag'', ''a#b'')])]"
  have "config_ok ?cfg" by (simp add: config_ok_def name_ok_def value_ok_def is_ws_def ws_chars_def)
  from toml_roundtrip [OF this, of "[''a'' \<mapsto> render ?cfg]" "''a''"] obtain st where
    "toml_load [''a'' \<mapsto> render ?cfg] (TomlParser ''a'') = (Inr True, st)" "\<forall>sec k. get_value st sec k = map_option carried (map_of (flat ?cfg) (sec, k))"
    by auto
  then show ?thesis by (simp add: flat_def carried_def erase_back_def unquote_def is_ws_def ws_chars_def)
qed

text \<open>
  Ports are truncated. For a configuration file that gives the network address and, in
  decimal, a port below \<open>2 ^ 31\<close>, \<^verbatim>\<open>parse_config\<close> succeeds, \<^verbatim>\<open>get_market_ip\<close> returns the address
  (up to a hash sign) and \<^verbatim>\<open>get_market_port\<close> the port modulo \<open>2 ^ 16\<close>: exact for a valid port, another port
  number for a larger one.\<close>

theorem config_port:
  assumes "value_ok ip" and "n < 2 ^ 31"
    and "disk path = Some (render [(''network'', [(''ip'', ip), (''port'', show_nat n)])])"
  shows "\<exists>c. parse_config disk (Config path) = (True, c) \<and> get_market_ip c = carried ip \<and>
     unat (get_market_port c) = n mod 2 ^ 16"
proof -
  let ?cfg = "[(''network'', [(''ip'', ip), (''port'', show_nat n)])]"
  have "config_ok ?cfg"
    using assms(1) value_ok_show [of n] by (simp add: config_ok_def name_ok_def is_ws_def ws_chars_def)
  from extract_render [OF this, of path] obtain st where
    st: "extract_keys (TomlParser path) (render ?cfg) = (Inr True, st)"
      "\<forall>sec k. get_value st sec k = map_option carried (map_of (flat ?cfg) (sec, k))"
    by blast
  have "unat (of_int (int n) :: u16_t) = n mod 2 ^ 16"
    by (simp add: unat_of_nat take_bit_eq_mod)
  moreover have "carried (show_nat n) = show_nat n"
    using show_nat_digits [of n] by (auto simp: carried_id list_all_iff is_digit_def)
  ultimately show ?thesis using st assms
    by (simp add: parse_config_def Config_def toml_load_def TomlParser_def get_market_ip_def get_market_port_def flat_def stoi_show)
qed

theorem config_port_witness:
  "\<exists>c. parse_config [''a'' \<mapsto> render [(''network'', [(''ip'', ''h''), (''port'', show_nat 65616)])]] (Config ''a'') = (True, c) \<and>
     unat (get_market_port c) = 80"
  using config_port [of "''h''" 65616 "[''a'' \<mapsto> render [(''network'', [(''ip'', ''h''), (''port'', show_nat 65616)])]]" "''a''"]
  by (auto simp: value_ok_def)

text \<open>
  Brackets end the section. A line with an opening bracket is a section header wherever
  the bracket stands: an entry whose value is an array stores no key and makes the text
  between the brackets the current section.\<close>

theorem array_value_is_header:
  assumes "name_ok k" and "name_ok v"
  shows "parse_line st cur (k @ '' = ['' @ v @ '']'') = Inr (st\<lparr>m_sections := m_sections st @ [v]\<rparr>, v)"
proof -
  let ?l = "k @ '' = ['' @ v @ '']''"
  have front: "erase_front ?l = ?l" using name_okD(1,2) [OF assms(1)] by (intro erase_front_id) auto
  have back': "erase_back ?l = ?l" by (rule erase_back_id) simp_all
  have hash: "hd ?l \<noteq> CHR ''#''" using name_okD(1,8) [OF assms(1)] by (cases k) auto
  have br: "str_find ?l CHR ''['' = Some (length k + 3)"
    using str_find_append [of "CHR ''[''" "k @ '' = ''" "v @ '']''"] name_okD(5) [OF assms(1)] by simp
  have "section_of ?l (length k + 3) = v"
    using name_okD(6) [OF assms(2)] by (simp add: section_of_def substr_to_def str_find_append trim_name [OF assms(2)])
  with hash show ?thesis
    unfolding parse_line_def Let_def front back' br option.case by simp
qed

theorem array_value_is_header_witness:
  "parse_line TomlParser_default ''net'' ''ports = [1, 2]'' = Inr (TomlParser_default\<lparr>m_sections := [''1, 2'']\<rparr>, ''1, 2'')"
  using array_value_is_header [of "''ports''" "''1, 2''" TomlParser_default "''net''"]
  by (simp add: name_ok_def is_ws_def ws_chars_def TomlParser_default_def)

end
