(* ===== verification/Toml_Double.thy ===== *)
theory Toml_Double
  imports Toml_Parser Complex_Main
begin

text \<open>
  \<^verbatim>\<open>TomlParser::get_double\<close> of \<^verbatim>\<open>include/fiah/utils/TomlParser.hh\<close> and what it uses of \<^verbatim>\<open>std::stod\<close>: the
  longest prefix that is a decimal or hexadecimal number, an infinity or a NaN. The number is
  exact; how the platform rounds it, and when it reports a number out of range, is the
  parameter \<open>rnd\<close>.
\<close>

section \<open>Numbers\<close>

datatype double = Finite real | Infinite bool | NotANumber

definition is_xdigit :: "char \<Rightarrow> bool" where
  "is_xdigit c \<longleftrightarrow> is_digit c \<or> c \<in> set ''abcdefABCDEF''"

definition digit_of :: "char \<Rightarrow> int" where
  "digit_of c =
     (let n = of_char c :: nat in int n - (if n < 58 then 48 else if n < 97 then 55 else 87))"

definition num_value :: "int \<Rightarrow> string \<Rightarrow> int" where
  "num_value b ds = foldl (\<lambda>n c. b * n + digit_of c) 0 ds"

definition lower :: "char \<Rightarrow> char" where
  "lower c = (let n = of_char c :: nat in if 65 \<le> n \<and> n \<le> 90 then char_of (n + 32) else c)"

definition starts_with :: "string \<Rightarrow> string \<Rightarrow> bool" where
  "starts_with word s \<longleftrightarrow> map lower (take (length word) s) = word"

text \<open>The digits, the number of digits behind the point and the rest; nothing without a digit.\<close>

definition mantissa :: "int \<Rightarrow> (char \<Rightarrow> bool) \<Rightarrow> string \<Rightarrow> (int \<times> nat \<times> string) option" where
  "mantissa b dig s =
     (let whole = takeWhile dig s; s = dropWhile dig s;
          point = (s \<noteq> [] \<and> hd s = CHR ''.'');
          frac = (if point then takeWhile dig (drop 1 s) else []);
          rest = (if point then dropWhile dig (drop 1 s) else s)
      in if whole = [] \<and> frac = [] then None else Some (num_value b (whole @ frac), length frac, rest))"

text \<open>The exponent behind its mark; zero when there is none.\<close>

definition exponent :: "char \<Rightarrow> string \<Rightarrow> int" where
  "exponent mark s =
     (if s = [] \<or> lower (hd s) \<noteq> mark then 0
      else let s = drop 1 s;
               neg = (s \<noteq> [] \<and> hd s = CHR ''-'');
               s = (if s \<noteq> [] \<and> (hd s = CHR ''-'' \<or> hd s = CHR ''+'') then drop 1 s else s);
               n = digits_value (takeWhile is_digit s)
           in if neg then - n else n)"

definition decimal :: "string \<Rightarrow> real option" where
  "decimal s =
     map_option (\<lambda>(m, k, rest). of_int m * 10 powi (exponent CHR ''e'' rest - int k)) (mantissa 10 is_digit s)"

definition hexadecimal :: "string \<Rightarrow> real option" where
  "hexadecimal s =
     map_option (\<lambda>(m, k, rest). of_int m * 2 powi (exponent CHR ''p'' rest - 4 * int k)) (mantissa 16 is_xdigit s)"

text \<open>\<open>None\<close> stands for the exceptions of \<^verbatim>\<open>std::stod\<close>.\<close>

definition stod :: "(real \<Rightarrow> real option) \<Rightarrow> string \<Rightarrow> double option" where
  "stod rnd s =
     (let s = dropWhile is_space s;
          neg = (s \<noteq> [] \<and> hd s = CHR ''-'');
          s = (if s \<noteq> [] \<and> (hd s = CHR ''-'' \<or> hd s = CHR ''+'') then drop 1 s else s);
          hex = (if starts_with ''0x'' s then hexadecimal (drop 2 s) else None)
      in if starts_with ''inf'' s then Some (Infinite neg)
         else if starts_with ''nan'' s then Some NotANumber
         else case (case hex of None \<Rightarrow> decimal s | Some v \<Rightarrow> Some v) of
                None \<Rightarrow> None
              | Some v \<Rightarrow> map_option Finite (rnd (if neg then - v else v)))"

definition get_double :: "(real \<Rightarrow> real option) \<Rightarrow> toml \<Rightarrow> string \<Rightarrow> double" where
  "get_double rnd st key =
     (let s = get_string st key
      in if s = [] then Finite 0 else (case stod rnd s of Some d \<Rightarrow> d | None \<Rightarrow> Finite 0))"

section \<open>Lemmas\<close>

lemma digit_of_digit: "is_digit c \<Longrightarrow> digit_of c = of_char c - 48"
  by (simp add: is_digit_def digit_of_def Let_def of_nat_of_char)

lemma num_value_digits: "list_all is_digit ds \<Longrightarrow> num_value 10 ds = digits_value ds"
proof -
  have "foldl (\<lambda>n c. 10 * n + digit_of c) a ds = foldl (\<lambda>n c. 10 * n + (of_char c - 48)) a ds"
    if "list_all is_digit ds" for a using that by (induction ds arbitrary: a) (simp_all add: digit_of_digit)
  then show "list_all is_digit ds \<Longrightarrow> num_value 10 ds = digits_value ds" by (simp add: num_value_def digits_value_def)
qed

lemma digits_value_append: "digits_value (xs @ ys) = digits_value xs * 10 ^ length ys + digits_value ys"
proof (induction ys rule: rev_induct)
  case (snoc y ys)
  then show ?case by (simp add: digits_value_def algebra_simps)
qed (simp add: digits_value_def)

text \<open>A digit is not white space, a sign, a letter or the point.\<close>

lemma digit_plain:
  assumes "is_digit c"
  shows "\<not> is_space c" "c \<noteq> CHR ''-''" "c \<noteq> CHR ''+''" "c \<noteq> CHR ''.''" "lower c = c"
    "c \<noteq> CHR ''i''" "c \<noteq> CHR ''n''" "c \<noteq> CHR ''x''"
  using assms by (auto simp: is_digit_def is_space_def lower_def)

lemma minus_no_space: "\<not> is_space CHR ''-''"
  by (simp add: is_space_def)

lemma not_digit_chars: "\<not> is_digit CHR ''.''" "\<not> is_digit CHR ''x''"
  by (simp_all add: is_digit_def)

lemma takeWhile_digits: "list_all is_digit ds \<Longrightarrow> rest = [] \<or> \<not> is_digit (hd rest) \<Longrightarrow> takeWhile is_digit (ds @ rest) = ds"
  by (cases rest) (auto simp: list_all_iff takeWhile_append)

lemma dropWhile_digits: "list_all is_digit ds \<Longrightarrow> rest = [] \<or> \<not> is_digit (hd rest) \<Longrightarrow> dropWhile is_digit (ds @ rest) = rest"
  by (cases rest) (auto simp: list_all_iff dropWhile_append)

lemma decimal_point:
  assumes "list_all is_digit ip" "list_all is_digit fp" "ip \<noteq> []"
  shows "decimal (ip @ ''.'' @ fp) = Some (of_int (digits_value ip) + of_int (digits_value fp) / 10 ^ length fp)"
proof -
  have w: "takeWhile is_digit (ip @ ''.'' @ fp) = ip" "dropWhile is_digit (ip @ ''.'' @ fp) = ''.'' @ fp"
    using takeWhile_digits [OF assms(1), of "''.'' @ fp"] dropWhile_digits [OF assms(1), of "''.'' @ fp"]
    by (simp_all add: not_digit_chars)
  have f: "takeWhile is_digit fp = fp" "dropWhile is_digit fp = []"
    using takeWhile_digits [OF assms(2), of "[]"] dropWhile_digits [OF assms(2), of "[]"] by simp_all
  have "mantissa 10 is_digit (ip @ ''.'' @ fp) = Some (digits_value (ip @ fp), length fp, [])"
    unfolding mantissa_def Let_def w using assms by (simp add: f num_value_digits)
  then have "decimal (ip @ ''.'' @ fp) = Some (of_int (digits_value (ip @ fp)) * 10 powi (- int (length fp)))"
    by (simp add: decimal_def exponent_def)
  then show ?thesis by (simp add: digits_value_append power_int_minus field_simps)
qed

section \<open>Properties\<close>

text \<open>
  Reading a decimal number. A value \<^verbatim>\<open>ip.fp\<close> with a digit before the point is read as the number
  it denotes, rounded by the platform, with a sign when it has one; a number that the
  platform reports out of range is read as zero, as a missing key is.\<close>

theorem get_double_exact:
  assumes "list_all is_digit ip" and "list_all is_digit fp" and "ip \<noteq> []"
    and "get_string st key = (if neg then CHR ''-'' # ip @ ''.'' @ fp else ip @ ''.'' @ fp)"
  shows "get_double rnd st key =
    (let v = of_int (digits_value ip) + of_int (digits_value fp) / 10 ^ length fp
     in case rnd (if neg then - v else v) of Some d \<Rightarrow> Finite d | None \<Rightarrow> Finite 0)"
proof -
  let ?s = "ip @ ''.'' @ fp"
  obtain c cs where ip: "ip = c # cs" "is_digit c" using assms(1,3) by (cases ip) auto
  note c = digit_plain [OF ip(2)]
  have x: "hd (cs @ ''.'' @ fp) \<noteq> CHR ''x'' \<and> lower (hd (cs @ ''.'' @ fp)) \<noteq> CHR ''x''"
    using assms(1) digit_plain(5,8) by (cases cs) (auto simp: ip lower_def)
  have "\<not> starts_with ''inf'' ?s" "\<not> starts_with ''nan'' ?s" using c by (auto simp: starts_with_def ip)
  moreover have "\<not> starts_with ''0x'' ?s"
    using x by (cases "cs @ ''.'' @ fp") (auto simp: starts_with_def ip)
  moreover have "decimal ?s = Some (of_int (digits_value ip) + of_int (digits_value fp) / 10 ^ length fp)"
    by (rule decimal_point [OF assms(1-3)])
  moreover have "dropWhile is_space (get_string st key) = get_string st key"
    using c(1) minus_no_space by (cases neg) (simp_all add: assms(4) ip)
  ultimately show ?thesis using c assms(4)
    by (cases neg) (auto simp: get_double_def stod_def Let_def ip split: option.splits)
qed

theorem get_double_exact_witness:
  "get_double Some (emplace_key TomlParser_default ''risk'' ''limit'' ''-12.50'') ''risk.limit'' = Finite (- 25 / 2)"
  using get_double_exact [of "''12''" "''50''" "emplace_key TomlParser_default ''risk'' ''limit'' ''-12.50''" "''risk.limit''" True Some]
  by (simp add: is_digit_def get_string_def emplace_key_def TomlParser_default_def str_find_def unquote_def digits_value_def)

end
