(* ===== verification/Spin_Mutex.thy ===== *)
theory Spin_Mutex
  imports Fiah_Prelude
begin

text \<open>
  The spin lock of \<^verbatim>\<open>include/fiah/thread/SpinMutex.hpp\<close>: one atomic flag, a lock operation
  with a fast path and a spinning path, \<^verbatim>\<open>try_lock\<close> and \<^verbatim>\<open>unlock\<close>, as the interleaved atomic
  accesses of any number of threads.
\<close>

section \<open>The flag\<close>

text \<open>\<^verbatim>\<open>test_and_set\<close> returns the old value and sets the flag.\<close>

definition test_and_set :: "bool \<Rightarrow> bool \<times> bool" where
  "test_and_set flag = (flag, True)"

definition mutex_try_lock :: "bool \<Rightarrow> bool \<times> bool" where
  "mutex_try_lock flag = test_and_set flag"

definition mutex_unlock :: "bool \<Rightarrow> bool" where
  "mutex_unlock flag = False"

definition spin_limit :: nat where
  "spin_limit = 64"

section \<open>Threads\<close>

text \<open>
  Program points: outside, in the spin loop before the relaxed test of round \<open>i\<close>, before the
  \<^verbatim>\<open>test_and_set\<close> of round \<open>i\<close>, and inside the section the lock protects.
\<close>

datatype mpc = Outside | SpinTest nat | SpinTas nat | Inside

record mutex_sys =
  mflag :: bool
  pcs :: "nat \<Rightarrow> mpc"

definition lock_fast :: "bool \<Rightarrow> mpc \<times> bool" where
  "lock_fast flag = (let (old, flag) = test_and_set flag in (if \<not> old then Inside else SpinTest 0, flag))"

text \<open>A round of the inner loop; after \<open>spin_limit\<close> rounds the thread yields and starts over.\<close>

definition spin_test :: "bool \<Rightarrow> nat \<Rightarrow> mpc" where
  "spin_test flag i =
     (if i < spin_limit then (if \<not> flag then SpinTas i else SpinTest (Suc i)) else SpinTest 0)"

definition spin_tas :: "bool \<Rightarrow> nat \<Rightarrow> mpc \<times> bool" where
  "spin_tas flag i = (let (old, flag) = test_and_set flag in (if \<not> old then Inside else SpinTest (Suc i), flag))"

text \<open>A thread that calls \<^verbatim>\<open>try_lock\<close> goes inside when the result is true.\<close>

definition try_enter :: "bool \<Rightarrow> mpc \<times> bool" where
  "try_enter flag = (let (got, flag) = mutex_try_lock flag in (if got then Inside else Outside, flag))"

inductive mutex_step :: "bool \<Rightarrow> mutex_sys \<Rightarrow> mutex_sys \<Rightarrow> bool" for with_try where
  m_lock: "pcs s i = Outside \<Longrightarrow> lock_fast (mflag s) = (pc, f) \<Longrightarrow>
    mutex_step with_try s \<lparr>mflag = f, pcs = (pcs s)(i := pc)\<rparr>"
| m_test: "pcs s i = SpinTest n \<Longrightarrow>
    mutex_step with_try s \<lparr>mflag = mflag s, pcs = (pcs s)(i := spin_test (mflag s) n)\<rparr>"
| m_tas: "pcs s i = SpinTas n \<Longrightarrow> spin_tas (mflag s) n = (pc, f) \<Longrightarrow>
    mutex_step with_try s \<lparr>mflag = f, pcs = (pcs s)(i := pc)\<rparr>"
| m_unlock: "pcs s i = Inside \<Longrightarrow>
    mutex_step with_try s \<lparr>mflag = mutex_unlock (mflag s), pcs = (pcs s)(i := Outside)\<rparr>"
| m_try: "with_try \<Longrightarrow> pcs s i = Outside \<Longrightarrow> try_enter (mflag s) = (pc, f) \<Longrightarrow>
    mutex_step with_try s \<lparr>mflag = f, pcs = (pcs s)(i := pc)\<rparr>"

inductive_cases mutex_step_elim: "mutex_step with_try s t"

definition mutex_start :: mutex_sys where
  "mutex_start = \<lparr>mflag = False, pcs = (\<lambda>_. Outside)\<rparr>"

section \<open>Invariant of programs that use lock and unlock\<close>

definition mutex_inv :: "mutex_sys \<Rightarrow> bool" where
  "mutex_inv s \<longleftrightarrow>
     (\<forall>i j. pcs s i = Inside \<longrightarrow> pcs s j = Inside \<longrightarrow> i = j) \<and> (mflag s \<longleftrightarrow> (\<exists>i. pcs s i = Inside))"

lemma mutex_inv_enter:
  assumes "mutex_inv s" "pcs s i \<noteq> Inside" "pc = (if \<not> mflag s then Inside else other)" "other \<noteq> Inside"
  shows "mutex_inv \<lparr>mflag = True, pcs = (pcs s)(i := pc)\<rparr>"
  using assms by (auto simp: mutex_inv_def)

lemma mutex_inv_move:
  assumes "mutex_inv s" "pcs s i \<noteq> Inside" "pc \<noteq> Inside"
  shows "mutex_inv \<lparr>mflag = mflag s, pcs = (pcs s)(i := pc)\<rparr>"
proof -
  have "((pcs s)(i := pc)) j = Inside \<longleftrightarrow> pcs s j = Inside" for j using assms(2,3) by auto
  with assms(1) show ?thesis unfolding mutex_inv_def by (simp del: fun_upd_apply)
qed

interpretation mutex: inductive_invariant "\<lambda>s. s = mutex_start" "mutex_step False" mutex_inv
proof
  show "mutex_inv s" if "s = mutex_start" for s using that by (simp add: mutex_inv_def mutex_start_def)
  fix s t assume inv: "mutex_inv s" and st: "mutex_step False s t"
  from st show "mutex_inv t"
  proof (rule mutex_step_elim)
    fix i pc f
    assume t: "t = \<lparr>mflag = f, pcs = (pcs s)(i := pc)\<rparr>" and i: "pcs s i = Outside" and l: "lock_fast (mflag s) = (pc, f)"
    then have "pc = (if \<not> mflag s then Inside else SpinTest 0)" "f = True"
      by (auto simp: lock_fast_def test_and_set_def split: if_splits)
    with inv i t show "mutex_inv t" by (simp only:) (rule mutex_inv_enter [where other = "SpinTest 0"], auto)
  next
    fix i n
    assume t: "t = \<lparr>mflag = mflag s, pcs = (pcs s)(i := spin_test (mflag s) n)\<rparr>" and i: "pcs s i = SpinTest n"
    then show "mutex_inv t" using inv by (simp only:) (rule mutex_inv_move, auto simp: spin_test_def)
  next
    fix i n pc f
    assume t: "t = \<lparr>mflag = f, pcs = (pcs s)(i := pc)\<rparr>" and i: "pcs s i = SpinTas n" and l: "spin_tas (mflag s) n = (pc, f)"
    then have "pc = (if \<not> mflag s then Inside else SpinTest (Suc n))" "f = True"
      by (auto simp: spin_tas_def test_and_set_def split: if_splits)
    with inv i t show "mutex_inv t" by (simp only:) (rule mutex_inv_enter [where other = "SpinTest (Suc n)"], auto)
  next
    fix i
    assume "t = \<lparr>mflag = mutex_unlock (mflag s), pcs = (pcs s)(i := Outside)\<rparr>" "pcs s i = Inside"
    then show "mutex_inv t" using inv by (auto simp: mutex_inv_def mutex_unlock_def)
  qed simp
qed

section \<open>Properties\<close>

text \<open>
  C31. Mutual exclusion. In every interleaving of threads that use \<^verbatim>\<open>lock\<close> and \<^verbatim>\<open>unlock\<close>, at most
  one thread is inside, and the flag is set exactly while one is.\<close>

theorem mutex_exclusion:
  assumes "reach (\<lambda>s. s = mutex_start) (mutex_step False) s"
  shows "(\<forall>i j. pcs s i = Inside \<longrightarrow> pcs s j = Inside \<longrightarrow> i = j) \<and> (mflag s \<longleftrightarrow> (\<exists>i. pcs s i = Inside))"
  using mutex.reach_inv [OF assms] unfolding mutex_inv_def .

lemma mutex_example:
  "reach (\<lambda>s. s = mutex_start) (mutex_step b) \<lparr>mflag = True, pcs = (\<lambda>_. Outside)(3 := Inside)\<rparr>"
proof -
  have "mutex_step b mutex_start \<lparr>mflag = True, pcs = (pcs mutex_start)(3 := Inside)\<rparr>"
    by (rule m_lock) (simp_all add: mutex_start_def lock_fast_def test_and_set_def)
  then show ?thesis
    using reach_step [OF reach_init [of "\<lambda>s. s = mutex_start" mutex_start "mutex_step b"]]
    by (simp add: mutex_start_def)
qed

theorem mutex_exclusion_witness:
  "\<exists>s. reach (\<lambda>s. s = mutex_start) (mutex_step False) s \<and> pcs s 3 = Inside \<and> (\<forall>j. pcs s j = Inside \<longrightarrow> 3 = j)"
proof -
  let ?s = "\<lparr>mflag = True, pcs = (\<lambda>_. Outside)(3 := Inside)\<rparr>"
  have "pcs ?s 3 = Inside" by simp
  moreover have "\<forall>i j. pcs ?s i = Inside \<longrightarrow> pcs ?s j = Inside \<longrightarrow> i = j"
    using mutex_exclusion [OF mutex_example] by (rule conjunct1)
  ultimately show ?thesis using mutex_example [of False] by blast
qed

text \<open>A waiting thread that finds the flag clear.\<close>

lemma spin_tas_enters:
  assumes "pcs t i = SpinTas n" "\<not> mflag t"
  shows "\<exists>t'. mutex_step False t t' \<and> pcs t' i = Inside"
proof -
  have "mutex_step False t \<lparr>mflag = True, pcs = (pcs t)(i := Inside)\<rparr>"
    using assms by (intro m_tas [where n = n]) (simp_all add: spin_tas_def test_and_set_def)
  then show ?thesis by auto
qed

lemma spin_test_step:
  "pcs t i = SpinTest n \<Longrightarrow> \<not> mflag t \<Longrightarrow> mutex_step False t \<lparr>mflag = False, pcs = (pcs t)(i := spin_test False n)\<rparr>"
  using m_test [of t i n False] by simp

lemma spin_test_enters:
  assumes "pcs t i = SpinTest n" "\<not> mflag t" "n < spin_limit"
  shows "\<exists>t'. (mutex_step False ^^ 2) t t' \<and> pcs t' i = Inside"
proof -
  let ?t1 = "\<lparr>mflag = False, pcs = (pcs t)(i := spin_test False n)\<rparr>"
  have "pcs ?t1 i = SpinTas n" "\<not> mflag ?t1" using assms(3) by (simp_all add: spin_test_def)
  from spin_tas_enters [OF this] spin_test_step [OF assms(1,2)] show ?thesis by (blast intro: relpowp_2I)
qed

text \<open>
  C32. Progress. A thread that waits in the spin loop while the flag is clear gets inside
  within three steps of its own, in whichever round it is.\<close>

theorem mutex_progress:
  assumes "pcs s i = SpinTest n \<or> pcs s i = SpinTas n" and "\<not> mflag s"
  shows "\<exists>k t. k \<le> 3 \<and> (mutex_step False ^^ k) s t \<and> pcs t i = Inside"
proof (cases "pcs s i = SpinTas n")
  case True
  from spin_tas_enters [OF True assms(2)] obtain t where "mutex_step False s t" "pcs t i = Inside" by blast
  then show ?thesis by (intro exI [of _ 1] exI [of _ t]) (auto simp: eq_OO)
next
  case False
  with assms(1) have sp: "pcs s i = SpinTest n" by simp
  show ?thesis
  proof (cases "n < spin_limit")
    case True
    from spin_test_enters [OF sp assms(2) True] show ?thesis by (intro exI [of _ 2]) auto
  next
    case False
    let ?t1 = "\<lparr>mflag = False, pcs = (pcs s)(i := spin_test False n)\<rparr>"
    have "pcs ?t1 i = SpinTest 0" "\<not> mflag ?t1" "0 < spin_limit"
      using False by (simp_all add: spin_test_def spin_limit_def)
    from spin_test_enters [OF this] obtain t where t: "(mutex_step False ^^ 2) ?t1 t" "pcs t i = Inside" by blast
    have "(mutex_step False ^^ 1) s ?t1" using spin_test_step [OF sp assms(2)] by (simp add: eq_OO)
    from relpowp_trans_num [OF this t(1), of 3] have "(mutex_step False ^^ 3) s t" by simp
    with t(2) show ?thesis by blast
  qed
qed

theorem mutex_progress_witness:
  "\<exists>k t. k \<le> 3 \<and> (mutex_step False ^^ k) \<lparr>mflag = False, pcs = (\<lambda>_. SpinTest 64)\<rparr> t \<and> pcs t 5 = Inside"
  by (rule mutex_progress [of _ _ 64]) simp_all

text \<open>
  The result of \<^verbatim>\<open>try_lock\<close> is inverted. It returns false when it has taken a free lock
  and true when another thread holds it; threads that trust it get inside together.\<close>

theorem try_lock_inverted:
  "mutex_try_lock False = (False, True) \<and> mutex_try_lock True = (True, True) \<and>
   (\<exists>s. reach (\<lambda>s. s = mutex_start) (mutex_step True) s \<and> pcs s 3 = Inside \<and> pcs s 4 = Inside)"
proof -
  let ?s = "\<lparr>mflag = True, pcs = (\<lambda>_. Outside)(3 := Inside)\<rparr>"
  have "mutex_step True ?s \<lparr>mflag = True, pcs = (pcs ?s)(4 := Inside)\<rparr>"
    by (rule m_try) (simp_all add: try_enter_def mutex_try_lock_def test_and_set_def)
  from reach_step [OF mutex_example this] have
    "\<exists>s. reach (\<lambda>s. s = mutex_start) (mutex_step True) s \<and> pcs s 3 = Inside \<and> pcs s 4 = Inside"
    by (intro exI conjI) auto
  then show ?thesis by (simp add: mutex_try_lock_def test_and_set_def)
qed

end
