(* ===== verification/TS_Queue.thy ===== *)
theory TS_Queue
  imports Fiah_Prelude
begin

text \<open>
  The locking queue of \<^verbatim>\<open>include/fiah/structs/ThreadSafeQueue.hh\<close>: \<^verbatim>\<open>push\<close> under the mutex and
  then \<^verbatim>\<open>notify_one\<close>, and \<^verbatim>\<open>wait_and_pop\<close> on a condition variable. A section under the mutex is
  one step; a wait re-tests its predicate after every wake-up, also a spurious one.
\<close>

section \<open>State and steps\<close>

text \<open>A consumer is away, about to test the predicate under the mutex, or asleep on the condition variable.\<close>

datatype tsq_pc = Away | Testing | Asleep

record 'a tsq =
  queue :: "'a list"
  notifies :: nat          \<comment> \<open>calls of \<^verbatim>\<open>push\<close> between the unlock and \<^verbatim>\<open>notify_one\<close>\<close>
  pc :: "nat \<Rightarrow> tsq_pc"
  pushed :: "'a list"
  popped :: "'a list"

definition tsq_push :: "'a tsq \<Rightarrow> 'a \<Rightarrow> 'a tsq" where
  "tsq_push s v = s\<lparr>queue := queue s @ [v], notifies := Suc (notifies s), pushed := pushed s @ [v]\<rparr>"

definition tsq_empty :: "'a tsq \<Rightarrow> bool" where
  "tsq_empty s \<longleftrightarrow> queue s = []"

text \<open>The test of the predicate: an element is taken, or the consumer goes to sleep.\<close>

definition tsq_test :: "'a tsq \<Rightarrow> nat \<Rightarrow> 'a tsq" where
  "tsq_test s i =
     (case queue s of
        [] \<Rightarrow> s\<lparr>pc := (pc s)(i := Asleep)\<rparr>
      | v # vs \<Rightarrow> s\<lparr>queue := vs, pc := (pc s)(i := Away), popped := popped s @ [v]\<rparr>)"

inductive tsq_step :: "nat \<Rightarrow> 'a tsq \<Rightarrow> 'a tsq \<Rightarrow> bool" for N where
  ts_push: "tsq_step N s (tsq_push s v)"
| ts_notify_wakes: "notifies s = Suc n \<Longrightarrow> i < N \<Longrightarrow> pc s i = Asleep \<Longrightarrow>
    tsq_step N s (s\<lparr>notifies := n, pc := (pc s)(i := Testing)\<rparr>)"
| ts_notify_none: "notifies s = Suc n \<Longrightarrow> \<forall>i<N. pc s i \<noteq> Asleep \<Longrightarrow> tsq_step N s (s\<lparr>notifies := n\<rparr>)"
| ts_call: "i < N \<Longrightarrow> pc s i = Away \<Longrightarrow> tsq_step N s (s\<lparr>pc := (pc s)(i := Testing)\<rparr>)"
| ts_test: "i < N \<Longrightarrow> pc s i = Testing \<Longrightarrow> tsq_step N s (tsq_test s i)"
| ts_spurious: "i < N \<Longrightarrow> pc s i = Asleep \<Longrightarrow> tsq_step N s (s\<lparr>pc := (pc s)(i := Testing)\<rparr>)"

inductive_cases tsq_step_elim: "tsq_step N s t"

definition tsq_start :: "'a tsq" where
  "tsq_start = \<lparr>queue = [], notifies = 0, pc = (\<lambda>_. Away), pushed = [], popped = []\<rparr>"

section \<open>Invariant\<close>

text \<open>Consumers of the given kind.\<close>

definition at :: "nat \<Rightarrow> 'a tsq \<Rightarrow> tsq_pc \<Rightarrow> nat set" where
  "at N s p = {i. i < N \<and> pc s i = p}"

lemma finite_at [simp]: "finite (at N s p)"
  by (simp add: at_def)

text \<open>While somebody sleeps, every queued element has a consumer or a notification on its way.\<close>

definition tsq_inv :: "nat \<Rightarrow> 'a tsq \<Rightarrow> bool" where
  "tsq_inv N s \<longleftrightarrow> pushed s = popped s @ queue s \<and>
     (at N s Asleep \<noteq> {} \<longrightarrow> length (queue s) \<le> notifies s + card (at N s Testing))"

lemma at_update:
  "pc t = (pc s)(i := q) \<Longrightarrow> i < N \<Longrightarrow> at N t p = (if p = q then insert i (at N s p) else at N s p - {i})"
  by (auto simp: at_def)

lemma card_insert_at: "i \<notin> A \<Longrightarrow> finite A \<Longrightarrow> card (insert i A) = Suc (card A)"
  by simp

lemma tsq_inv_wake:
  assumes inv: "tsq_inv N s" and i: "i < N" "pc s i \<noteq> Testing" and pcu: "pc u = (pc s)(i := Testing)"
    and rest: "queue u = queue s" "pushed u = pushed s" "popped u = popped s" "notifies s \<le> Suc (notifies u)"
  shows "tsq_inv N u"
proof -
  have "card (at N u Testing) = Suc (card (at N s Testing))"
    unfolding at_update [OF pcu i(1)] using i by (simp add: at_def)
  moreover have "at N u Asleep \<subseteq> at N s Asleep" unfolding at_update [OF pcu i(1)] by auto
  moreover have "at N s Asleep \<noteq> {}" if "at N u Asleep \<noteq> {}" using that calculation(2) by auto
  ultimately show ?thesis using inv rest by (auto simp: tsq_inv_def)
qed

lemma tsq_inv_test:
  assumes inv: "tsq_inv N s" and i: "i < N" "pc s i = Testing"
  shows "tsq_inv N (tsq_test s i)"
proof (cases "queue s")
  case Nil
  with inv show ?thesis by (simp add: tsq_inv_def tsq_test_def)
next
  case (Cons v vs)
  let ?t = "tsq_test s i"
  have pct: "pc ?t = (pc s)(i := Away)" using Cons by (simp add: tsq_test_def)
  have "i \<in> at N s Testing" using i by (simp add: at_def)
  then have "Suc (card (at N ?t Testing)) = card (at N s Testing)"
    unfolding at_update [OF pct i(1)] using card_Suc_Diff1 [of "at N s Testing" i] by simp
  moreover have "at N ?t Asleep = at N s Asleep" unfolding at_update [OF pct i(1)] using i by (auto simp: at_def)
  ultimately show ?thesis using inv Cons by (auto simp: tsq_inv_def tsq_test_def)
qed

interpretation tsq: inductive_invariant "\<lambda>s. s = tsq_start" "tsq_step N" "tsq_inv N" for N
proof
  show "tsq_inv N s" if "s = tsq_start" for s :: "'a tsq"
    using that by (simp add: tsq_inv_def tsq_start_def at_def)
  fix s t :: "'a tsq" assume inv: "tsq_inv N s" and st: "tsq_step N s t"
  from st show "tsq_inv N t"
  proof (rule tsq_step_elim)
    fix v assume t: "t = tsq_push s v"
    then have "at N t p = at N s p" for p by (simp add: tsq_push_def at_def)
    with inv t show "tsq_inv N t" by (simp add: tsq_inv_def tsq_push_def)
  next
    fix n assume "t = s\<lparr>notifies := n\<rparr>" "\<forall>i<N. pc s i \<noteq> Asleep"
    then show "tsq_inv N t" using inv by (auto simp: tsq_inv_def at_def)
  qed (auto intro: tsq_inv_test [OF inv] tsq_inv_wake [OF inv])
qed

section \<open>Properties\<close>

text \<open>
  C33. First in, first out, and no lost wake-up. In every interleaving of producers and
  \<open>N\<close> consumers the elements popped, followed by those still queued, are the elements
  pushed, in order; and whenever an element is queued while a consumer sleeps, another
  consumer is about to test the queue or a notification is still to come.\<close>

theorem tsq_fifo_no_lost_wakeup:
  assumes "reach (\<lambda>s. s = tsq_start) (tsq_step N) s"
  shows "pushed s = popped s @ queue s \<and>
     (\<not> tsq_empty s \<and> (\<exists>i<N. pc s i = Asleep) \<longrightarrow> 0 < notifies s \<or> (\<exists>i<N. pc s i = Testing))"
proof -
  have inv: "tsq_inv N s" by (rule tsq.reach_inv [OF assms])
  have "0 < notifies s \<or> (\<exists>i<N. pc s i = Testing)" if q: "queue s \<noteq> []" and sl: "i < N" "pc s i = Asleep" for i
  proof -
    have "i \<in> at N s Asleep" using sl by (simp add: at_def)
    then have "0 < notifies s + card (at N s Testing)" 
      using inv q unfolding tsq_inv_def by (cases "queue s") auto
    moreover have "at N s Testing \<noteq> {}" if "0 < card (at N s Testing)" using that by fastforce
    ultimately show ?thesis by (auto simp: at_def)
  qed
  with inv show ?thesis by (auto simp: tsq_inv_def tsq_empty_def)
qed

theorem tsq_fifo_no_lost_wakeup_witness:
  "\<exists>s. reach (\<lambda>s. s = tsq_start) (tsq_step 1) s \<and> queue s = [7 :: nat] \<and> pc s 0 = Asleep \<and>
     pushed s = popped s @ queue s \<and> (0 < notifies s \<or> (\<exists>i<1. pc s i = Testing))"
proof -
  let ?s1 = "(tsq_start :: nat tsq)\<lparr>pc := (\<lambda>_. Away)(0 := Testing)\<rparr>"
  let ?s2 = "tsq_test ?s1 0"
  let ?s3 = "tsq_push ?s2 7"
  have st1: "tsq_step 1 tsq_start ?s1" using ts_call [of 0 1 "tsq_start :: nat tsq"] by (simp add: tsq_start_def)
  have st2: "tsq_step 1 ?s1 ?s2" by (rule ts_test) simp_all
  have st3: "tsq_step 1 ?s2 ?s3" by (rule ts_push)
  have r0: "reach (\<lambda>s. s = tsq_start) (tsq_step 1) (tsq_start :: nat tsq)" by (rule reach_init) simp
  note r = reach_step [OF reach_step [OF reach_step [OF r0 st1] st2] st3]
  have s3: "queue ?s3 = [7]" "pc ?s3 0 = Asleep"
    by (simp_all add: tsq_push_def tsq_test_def tsq_start_def)
  have "pushed ?s3 = popped ?s3 @ queue ?s3 \<and> (0 < notifies ?s3 \<or> (\<exists>i<1. pc ?s3 i = Testing))"
    using tsq_fifo_no_lost_wakeup [OF r] s3 unfolding tsq_empty_def by auto
  with r s3 show ?thesis by blast
qed

end
