(* ===== verification/Thread_Pool.thy ===== *)
theory Thread_Pool
  imports Fiah_Prelude
begin

text \<open>
  The thread pool of \<^verbatim>\<open>include/fiah/thread/ThreadPool.hpp\<close>: \<open>N\<close> workers that take tasks from a
  queue under a mutex, a counting semaphore with a permit per task, and the destructor with
  its stop requests. A section under the mutex and each atomic or semaphore operation is one
  step. A worker that uses the flag, the semaphore or the mutex after the destructor has destroyed them is a fault: the
  state records it and nothing happens after it. Clients call \<^verbatim>\<open>enqueue\<close> only before the destructor starts and a task is a name; what
  it does is a parameter.
\<close>

section \<open>State\<close>

datatype 'a wpc =
    Loop                \<comment> \<open>\<^verbatim>\<open>while (!stoken.stop_requested() ...\<close>\<close>
  | LoopStopping        \<comment> \<open>\<^verbatim>\<open>... and !m_stopping.load())\<close>\<close>
  | Acquire             \<comment> \<open>\<^verbatim>\<open>m_semaphore.acquire()\<close>\<close>
  | Check               \<comment> \<open>\<^verbatim>\<open>if (stoken.stop_requested() ...\<close>\<close>
  | CheckEmpty          \<comment> \<open>\<^verbatim>\<open>... && m_tasks.empty()) break\<close>\<close>
  | Lock                \<comment> \<open>the section under \<^verbatim>\<open>m_mutex\<close>\<close>
  | Run 'a              \<comment> \<open>\<^verbatim>\<open>task()\<close>\<close>
  | Exit

text \<open>
  The destructor: not started, before \<^verbatim>\<open>release\<close> and before \<^verbatim>\<open>request_stop\<close> for a worker,
  destroying the workers after the other members, finished.
\<close>

datatype dpc = Serving | Releasing nat | Requesting nat | Joining | Done

record 'a pool =
  tasks :: "'a list"
  sem :: nat
  releases :: nat            \<comment> \<open>calls of \<^verbatim>\<open>enqueue\<close> between the unlock and \<^verbatim>\<open>release\<close>\<close>
  stopping :: bool
  stop_req :: "nat \<Rightarrow> bool"
  wpc :: "nat \<Rightarrow> 'a wpc"
  dtor :: dpc
  enqueued :: "'a list"
  started :: "'a list"
  dead_access :: bool        \<comment> \<open>a worker used a member after it was destroyed\<close>

definition pool_start :: "'a pool" where
  "pool_start = \<lparr>tasks = [], sem = 0, releases = 0, stopping = False, stop_req = (\<lambda>_. False), wpc = (\<lambda>_. Loop),
     dtor = Serving, enqueued = [], started = [], dead_access = False\<rparr>"

text \<open>
  Members are destroyed in reverse order of declaration: the flag, the semaphore and the
  mutex before the workers, the queue after them.
\<close>

definition members_alive :: "'a pool \<Rightarrow> bool" where
  "members_alive s \<longleftrightarrow> dtor s \<noteq> Joining \<and> dtor s \<noteq> Done"

section \<open>Operations\<close>

definition goto :: "'a pool \<Rightarrow> nat \<Rightarrow> 'a wpc \<Rightarrow> 'a pool" where
  "goto s i p = s\<lparr>wpc := (wpc s)(i := p)\<rparr>"

definition dead_use :: "'a pool \<Rightarrow> 'a pool" where
  "dead_use s = s\<lparr>dead_access := True\<rparr>"

text \<open>The next step of worker \<open>i\<close>, or nothing when it is blocked or has ended.\<close>

definition worker_next :: "'a pool \<Rightarrow> nat \<Rightarrow> 'a pool option" where
  "worker_next s i =
     (case wpc s i of
        Loop \<Rightarrow> Some (goto s i (if stop_req s i then Exit else LoopStopping))
      | LoopStopping \<Rightarrow>
          if \<not> members_alive s then Some (dead_use s)
          else Some (goto s i (if stopping s then Exit else Acquire))
      | Acquire \<Rightarrow>
          if \<not> members_alive s then Some (dead_use s)
          else if sem s = 0 then None else Some (goto (s\<lparr>sem := sem s - 1\<rparr>) i Check)
      | Check \<Rightarrow> Some (goto s i (if stop_req s i then CheckEmpty else Lock))
      | CheckEmpty \<Rightarrow> Some (goto s i (if tasks s = [] then Exit else Lock))
      | Lock \<Rightarrow>
          if \<not> members_alive s then Some (dead_use s)
          else (case tasks s of
                  [] \<Rightarrow> Some (goto s i Loop)
                | t # ts \<Rightarrow> Some (goto (s\<lparr>tasks := ts, started := started s @ [t]\<rparr>) i (Run t)))
      | Run t \<Rightarrow> Some (goto s i Loop)
      | Exit \<Rightarrow> None)"

definition enqueue_push :: "'a pool \<Rightarrow> 'a \<Rightarrow> 'a pool" where
  "enqueue_push s t = s\<lparr>tasks := tasks s @ [t], enqueued := enqueued s @ [t], releases := Suc (releases s)\<rparr>"

definition enqueue_release :: "'a pool \<Rightarrow> 'a pool option" where
  "enqueue_release s =
     (case releases s of 0 \<Rightarrow> None | Suc n \<Rightarrow> Some (s\<lparr>releases := n, sem := Suc (sem s)\<rparr>))"

definition get_num_active_tasks :: "'a pool \<Rightarrow> nat" where
  "get_num_active_tasks s = length (tasks s)"

text \<open>The destructor: the store, the loop over the workers, the members, the join of every worker.\<close>

definition destructor_next :: "nat \<Rightarrow> 'a pool \<Rightarrow> 'a pool option" where
  "destructor_next N s =
     (case dtor s of
        Serving \<Rightarrow> Some (s\<lparr>stopping := True, dtor := Releasing 0\<rparr>)
      | Releasing k \<Rightarrow>
          if k < N then Some (s\<lparr>sem := Suc (sem s), dtor := Requesting k\<rparr>) else Some (s\<lparr>dtor := Joining\<rparr>)
      | Requesting k \<Rightarrow> Some (s\<lparr>stop_req := (stop_req s)(k := True), dtor := Releasing (Suc k)\<rparr>)
      | Joining \<Rightarrow> if (\<forall>i<N. wpc s i = Exit) then Some (s\<lparr>dtor := Done\<rparr>) else None
      | Done \<Rightarrow> None)"

text \<open>After a use of a dead member the behaviour is undefined, and no step follows.\<close>

inductive pool_step :: "nat \<Rightarrow> 'a pool \<Rightarrow> 'a pool \<Rightarrow> bool" for N where
  pool_worker: "\<not> dead_access s \<Longrightarrow> i < N \<Longrightarrow> worker_next s i = Some t \<Longrightarrow> pool_step N s t"
| pool_push: "\<not> dead_access s \<Longrightarrow> dtor s = Serving \<Longrightarrow> pool_step N s (enqueue_push s t)"
| pool_release: "\<not> dead_access s \<Longrightarrow> enqueue_release s = Some t \<Longrightarrow> pool_step N s t"
| pool_destroy: "\<not> dead_access s \<Longrightarrow> dtor s = Serving \<longrightarrow> releases s = 0 \<Longrightarrow> destructor_next N s = Some t \<Longrightarrow> pool_step N s t"

inductive_cases pool_step_elim: "pool_step N s t"

section \<open>Invariant\<close>

definition workers_at :: "nat \<Rightarrow> 'a pool \<Rightarrow> 'a wpc set \<Rightarrow> nat set" where
  "workers_at N s P = {i. i < N \<and> wpc s i \<in> P}"

definition holding :: "'a wpc set" where
  "holding = {Check, CheckEmpty, Lock}"

text \<open>Permits the destructor has still to release.\<close>

definition to_release :: "nat \<Rightarrow> 'a pool \<Rightarrow> nat" where
  "to_release N s = (case dtor s of Serving \<Rightarrow> N | Releasing k \<Rightarrow> N - k | Requesting k \<Rightarrow> N - Suc k | _ \<Rightarrow> 0)"

definition stops_ok :: "nat \<Rightarrow> 'a pool \<Rightarrow> bool" where
  "stops_ok N s \<longleftrightarrow>
     (case dtor s of
        Serving \<Rightarrow> \<not> stopping s
      | Releasing k \<Rightarrow> stopping s \<and> k \<le> N \<and> (\<forall>i<k. stop_req s i)
      | Requesting k \<Rightarrow> stopping s \<and> k < N \<and> (\<forall>i<k. stop_req s i)
      | _ \<Rightarrow> stopping s \<and> (\<forall>i<N. stop_req s i))"

definition pool_inv :: "nat \<Rightarrow> 'a pool \<Rightarrow> bool" where
  "pool_inv N s \<longleftrightarrow>
     enqueued s = started s @ tasks s \<and>
     length (tasks s) \<le> sem s + releases s + card (workers_at N s holding) \<and>
     stops_ok N s \<and> (dtor s \<noteq> Serving \<longrightarrow> releases s = 0) \<and>
     (stopping s \<longrightarrow> card (workers_at N s {Acquire}) \<le> sem s + to_release N s)"

lemma finite_workers_at [simp]: "finite (workers_at N s P)"
  by (simp add: workers_at_def)

lemma workers_at_goto:
  "i < N \<Longrightarrow> wpc t = (wpc s)(i := p) \<Longrightarrow>
   workers_at N t P = (if p \<in> P then insert i (workers_at N s P) else workers_at N s P - {i})"
  by (auto simp: workers_at_def)

lemma workers_at_same: "wpc t = wpc s \<Longrightarrow> workers_at N t P = workers_at N s P"
  by (simp add: workers_at_def)

text \<open>How the number of workers in a set of program points changes when one moves.\<close>

lemma card_workers_goto:
  assumes "i < N" "wpc t = (wpc s)(i := p)"
  shows "card (workers_at N t P) + (if wpc s i \<in> P then 1 else 0) = card (workers_at N s P) + (if p \<in> P then 1 else 0)"
proof -
  have iff: "i \<in> workers_at N s P \<longleftrightarrow> wpc s i \<in> P" using assms(1) by (simp add: workers_at_def)
  show ?thesis
  proof (cases "wpc s i \<in> P")
    case True
    then have "Suc (card (workers_at N s P - {i})) = card (workers_at N s P)"
      using iff by (intro card_Suc_Diff1) simp_all
    with True iff show ?thesis unfolding workers_at_goto [OF assms] by (simp add: insert_absorb)
  next
    case False
    with iff show ?thesis unfolding workers_at_goto [OF assms] by simp
  qed
qed

lemma pool_inv_dead: "pool_inv N (dead_use s) = pool_inv N s"
  by (simp add: pool_inv_def dead_use_def stops_ok_def to_release_def workers_at_def split: dpc.split)

lemma stops_ok_cong:
  "dtor t = dtor s \<Longrightarrow> stopping t = stopping s \<Longrightarrow> stop_req t = stop_req s \<Longrightarrow> stops_ok N t = stops_ok N s"
  by (cases "dtor s") (simp_all add: stops_ok_def)

text \<open>A step of a worker, described by what it does to the counts.\<close>

lemma pool_inv_worker:
  assumes inv: "pool_inv N s" and i: "i < N"
    and pc: "wpc t = (wpc s)(i := p)"
    and same: "dtor t = dtor s" "stopping t = stopping s" "stop_req t = stop_req s" "releases t = releases s"
      "enqueued t = enqueued s"
    and log: "started t @ tasks t = started s @ tasks s"
    and hold: "length (tasks t) + sem s + (if wpc s i \<in> holding then 1 else 0) \<le>
        length (tasks s) + sem t + (if p \<in> holding then 1 else 0) \<or> tasks t = []"
    and acq: "stopping s \<longrightarrow> sem s + (if p = Acquire then 1 else 0) \<le> sem t + (if wpc s i = Acquire then 1 else 0)"
  shows "pool_inv N t"
proof -
  note ch = card_workers_goto [OF i pc, of holding] and ca = card_workers_goto [OF i pc, of "{Acquire}"]
  have "to_release N t = to_release N s" using same(1) by (simp add: to_release_def)
  moreover have "stops_ok N t = stops_ok N s" by (rule stops_ok_cong [OF same(1-3)])
  moreover have "length (tasks t) \<le> sem t + releases t + card (workers_at N t holding)"
    using inv hold ch same(4) unfolding pool_inv_def by (auto split: if_splits)
  moreover have "stopping t \<longrightarrow> card (workers_at N t {Acquire}) \<le> sem t + to_release N s"
    using inv acq ca same(2) unfolding pool_inv_def by (auto split: if_splits)
  ultimately show ?thesis using inv same log unfolding pool_inv_def by simp
qed

text \<open>A worker that only goes on, and keeps its permit as long as there is a task for it.\<close>

lemma worker_move_inv:
  assumes inv: "pool_inv N s" and i: "i < N" and t: "t = goto s i p"
    and keep: "wpc s i \<in> holding \<longrightarrow> p \<in> holding \<or> tasks s = []" and acq: "p = Acquire \<longrightarrow> \<not> stopping s"
  shows "pool_inv N t"
proof (rule pool_inv_worker [OF inv i])
  show "wpc t = (wpc s)(i := p)" using t by (auto simp: goto_def)
  show "length (tasks t) + sem s + (if wpc s i \<in> holding then 1 else 0) \<le>
      length (tasks s) + sem t + (if p \<in> holding then 1 else 0) \<or> tasks t = []"
    using t keep by (auto simp: goto_def)
  show "stopping s \<longrightarrow> sem s + (if p = Acquire then 1 else 0) \<le> sem t + (if wpc s i = Acquire then 1 else 0)"
    using t acq by (auto simp: goto_def)
qed (use t in \<open>auto simp: goto_def\<close>)

lemma worker_next_inv:
  assumes inv: "pool_inv N s" and i: "i < N" and w: "worker_next s i = Some t"
  shows "pool_inv N t"
proof (cases "t = dead_use s")
  case True
  with inv show ?thesis by (simp add: pool_inv_dead)
next
  case live: False
  show ?thesis
  proof (cases "wpc s i")
    case Lock
    show ?thesis
    proof (cases "tasks s")
      case Nil
      with Lock w live show ?thesis
        by (intro worker_move_inv [OF inv i, of t Loop]) (simp_all add: worker_next_def split: if_splits)
    next
      case (Cons x xs)
      with Lock w live have "t = goto (s\<lparr>tasks := xs, started := started s @ [x]\<rparr>) i (Run x)"
        by (simp add: worker_next_def split: if_splits)
      with Lock Cons show ?thesis
        by (intro pool_inv_worker [OF inv i, of t "Run x"]) (simp_all add: goto_def holding_def)
    qed
  next
    case Acquire
    with w live obtain n where n: "sem s = Suc n" by (cases "sem s") (auto simp: worker_next_def split: if_splits)
    with Acquire w live have "t = goto (s\<lparr>sem := n\<rparr>) i Check" by (simp add: worker_next_def split: if_splits)
    with Acquire n show ?thesis by (intro pool_inv_worker [OF inv i, of t Check]) (simp_all add: goto_def holding_def)
  qed (use w live worker_move_inv [OF inv i, of t] in \<open>auto simp: worker_next_def holding_def split: if_splits\<close>)
qed

lemma enqueue_push_inv: "pool_inv N s \<Longrightarrow> dtor s = Serving \<Longrightarrow> pool_inv N (enqueue_push s t)"
  by (simp add: pool_inv_def enqueue_push_def stops_ok_def workers_at_def)

lemma enqueue_release_inv:
  assumes "pool_inv N s" "enqueue_release s = Some t"
  shows "pool_inv N t"
proof -
  from assms(2) obtain n where n: "releases s = Suc n" and t: "t = s\<lparr>releases := n, sem := Suc (sem s)\<rparr>"
    by (auto simp: enqueue_release_def split: nat.splits)
  with assms(1) have "dtor s = Serving" "\<not> stopping s" by (auto simp: pool_inv_def stops_ok_def)
  with n t assms(1) show ?thesis by (simp add: pool_inv_def stops_ok_def workers_at_def)
qed

lemma card_workers_le: "card (workers_at N s P) \<le> N"
  using card_mono [of "{..<N}" "workers_at N s P"] by (auto simp: workers_at_def)

lemma destructor_next_inv:
  assumes inv: "pool_inv N s" and rel: "dtor s = Serving \<longrightarrow> releases s = 0" and d: "destructor_next N s = Some t"
  shows "pool_inv N t"
proof (cases "dtor s")
  case Serving
  with d have "t = s\<lparr>stopping := True, dtor := Releasing 0\<rparr>" by (simp add: destructor_next_def)
  with Serving inv rel show ?thesis
    using card_workers_le [of N s "{Acquire}"]
    by (simp add: pool_inv_def stops_ok_def to_release_def workers_at_def trans_le_add2)
next
  case (Releasing k)
  show ?thesis
  proof (cases "k < N")
    case True
    with Releasing d have "t = s\<lparr>sem := Suc (sem s), dtor := Requesting k\<rparr>" by (simp add: destructor_next_def)
    moreover have "N - k = Suc (N - Suc k)" using True by simp
    ultimately show ?thesis
      using Releasing True inv by (auto simp: pool_inv_def stops_ok_def to_release_def workers_at_def)
  next
    case False
    with Releasing d have "t = s\<lparr>dtor := Joining\<rparr>" by (simp add: destructor_next_def)
    with Releasing False inv show ?thesis by (simp add: pool_inv_def stops_ok_def to_release_def workers_at_def)
  qed
next
  case (Requesting k)
  with d have "t = s\<lparr>stop_req := (stop_req s)(k := True), dtor := Releasing (Suc k)\<rparr>" by (simp add: destructor_next_def)
  with Requesting inv show ?thesis
    by (auto simp: pool_inv_def stops_ok_def to_release_def workers_at_def less_Suc_eq)
next
  case Joining
  with d have "t = s\<lparr>dtor := Done\<rparr>" by (simp add: destructor_next_def split: if_splits)
  with Joining inv show ?thesis by (simp add: pool_inv_def stops_ok_def to_release_def workers_at_def)
next
  case Done
  with d show ?thesis by (simp add: destructor_next_def)
qed

interpretation pool: inductive_invariant "\<lambda>s. s = pool_start" "pool_step N" "pool_inv N" for N
proof
  show "pool_inv N s" if "s = pool_start" for s :: "'a pool"
    using that by (simp add: pool_inv_def pool_start_def stops_ok_def)
  show "pool_inv N t" if inv: "pool_inv N s" and st: "pool_step N s t" for s t :: "'a pool"
    using st
  proof cases
    case pool_worker
    with inv show ?thesis by (blast intro: worker_next_inv)
  next
    case pool_push
    with inv show ?thesis by (simp add: enqueue_push_inv)
  next
    case pool_release
    with inv show ?thesis by (blast intro: enqueue_release_inv)
  next
    case pool_destroy
    with inv show ?thesis by (blast intro: destructor_next_inv)
  qed
qed

section \<open>Shutdown\<close>









lemma worker_can_step:
  assumes "wpc s i \<noteq> Exit" "wpc s i = Acquire \<longrightarrow> sem s \<noteq> 0 \<or> \<not> members_alive s"
  shows "\<exists>t. worker_next s i = Some t"
  using assms by (cases "wpc s i") (auto simp: worker_next_def split: list.splits)







section \<open>Schedules\<close>

text \<open>A schedule as a list of actions, for concrete runs.\<close>

datatype 'a act = Work nat | Push 'a | Release | Destroy

definition pool_act :: "nat \<Rightarrow> 'a pool \<Rightarrow> 'a act \<Rightarrow> 'a pool option" where
  "pool_act N s a =
     (if dead_access s then None else case a of
        Work i \<Rightarrow> if i < N then worker_next s i else None
      | Push t \<Rightarrow> if dtor s = Serving then Some (enqueue_push s t) else None
      | Release \<Rightarrow> enqueue_release s
      | Destroy \<Rightarrow> if dtor s = Serving \<and> releases s \<noteq> 0 then None else destructor_next N s)"

fun pool_run :: "nat \<Rightarrow> 'a pool \<Rightarrow> 'a act list \<Rightarrow> 'a pool option" where
  "pool_run N s [] = Some s"
| "pool_run N s (a # as) = (case pool_act N s a of None \<Rightarrow> None | Some t \<Rightarrow> pool_run N t as)"

lemma pool_act_step: "pool_act N s a = Some t \<Longrightarrow> pool_step N s t"
  by (cases a) (auto simp: pool_act_def intro: pool_step.intros split: if_splits)

lemma pool_run_reach:
  "pool_run N s as = Some t \<Longrightarrow> reach (\<lambda>s. s = pool_start) (pool_step N) s \<Longrightarrow> reach (\<lambda>s. s = pool_start) (pool_step N) t"
  by (induction as arbitrary: s) (auto split: option.splits dest: pool_act_step intro: reach_step)

lemma pool_run_start: "pool_run N pool_start as = Some t \<Longrightarrow> reach (\<lambda>s. s = pool_start) (pool_step N) t"
  by (erule pool_run_reach) (simp add: reach_init)

lemmas pool_eval = pool_act_def pool_start_def worker_next_def enqueue_push_def enqueue_release_def destructor_next_def
  goto_def dead_use_def members_alive_def

section \<open>Properties\<close>

text \<open>
  C34. The pool starts tasks in the order they were enqueued, each once, and strands none: when
  a task waits and no \<^verbatim>\<open>enqueue\<close> is between its unlock and its \<^verbatim>\<open>release\<close>, a permit is available
  or a worker has one, so the workers that have not ended are never all blocked.\<close>

theorem pool_fifo_no_stranded:
  assumes "reach (\<lambda>s. s = pool_start) (pool_step N) s"
  shows "enqueued s = started s @ tasks s \<and>
    (tasks s \<noteq> [] \<and> releases s = 0 \<longrightarrow> sem s \<noteq> 0 \<or> (\<exists>i<N. wpc s i \<in> holding)) \<and>
    (tasks s \<noteq> [] \<and> releases s = 0 \<and> (\<exists>i<N. wpc s i \<noteq> Exit) \<longrightarrow> (\<exists>i<N. worker_next s i \<noteq> None))"
proof -
  note inv = pool.reach_inv [OF assms]
  have permit: "sem s \<noteq> 0 \<or> (\<exists>i<N. wpc s i \<in> holding)" if "tasks s \<noteq> []" "releases s = 0"
  proof (rule ccontr)
    assume "\<not> ?thesis"
    then have "sem s = 0" "workers_at N s holding = {}" by (auto simp: workers_at_def)
    with inv that show False by (simp add: pool_inv_def)
  qed
  moreover have "\<exists>i<N. worker_next s i \<noteq> None"
    if t: "tasks s \<noteq> []" "releases s = 0" and i: "i < N" "wpc s i \<noteq> Exit" for i
    using permit [OF t]
  proof
    assume "sem s \<noteq> 0"
    with i worker_can_step [of s i] show ?thesis by auto
  next
    assume "\<exists>j<N. wpc s j \<in> holding"
    then obtain j where j: "j < N" "wpc s j \<in> holding" by blast
    then have "wpc s j \<noteq> Exit" "wpc s j \<noteq> Acquire" by (auto simp: holding_def)
    with j(1) worker_can_step [of s j] show ?thesis by auto
  qed
  ultimately show ?thesis using inv unfolding pool_inv_def by blast
qed

theorem pool_fifo_no_stranded_witness:
  "\<exists>s. reach (\<lambda>s. s = pool_start) (pool_step 2) s \<and> enqueued s = [7, 8 :: nat] \<and> started s = [7] \<and> tasks s = [8] \<and>
     (sem s \<noteq> 0 \<or> (\<exists>i<2. wpc s i \<in> holding))"
proof -
  let ?run = "[Push (7 :: nat), Release, Work 0, Work 0, Work 0, Work 0, Work 0, Push 8, Release]"
  obtain s where s: "pool_run 2 pool_start ?run = Some s" "enqueued s = [7, 8]" "started s = [7]" "tasks s = [8]" "releases s = 0"
    by (simp add: pool_eval)
  note r = pool_run_start [OF s(1)]
  from pool_fifo_no_stranded [OF r] s r show ?thesis by auto
qed



text \<open>
  What the destructor costs. It can return with tasks that were enqueued and never run,
  and a worker can use the semaphore, the flag or the mutex after it was destroyed, because the
  workers are declared before these members and are joined after them.\<close>

theorem pool_shutdown_hazards:
  "(\<exists>s :: nat pool. reach (\<lambda>s. s = pool_start) (pool_step 1) s \<and> dtor s = Done \<and> tasks s \<noteq> []) \<and>
   (\<exists>s :: nat pool. reach (\<lambda>s. s = pool_start) (pool_step 1) s \<and> dead_access s)"
proof
  let ?drop = "[Push 7, Release, Destroy, Destroy, Destroy, Destroy, Work 0, Destroy] :: nat act list"
  obtain s where s: "pool_run 1 pool_start ?drop = Some s" "dtor s = Done" "tasks s = [7]" by (simp add: pool_eval)
  with pool_run_start [OF s(1)] show "\<exists>s :: nat pool. reach (\<lambda>s. s = pool_start) (pool_step 1) s \<and> dtor s = Done \<and> tasks s \<noteq> []"
    by (intro exI [of _ s]) simp
next
  let ?late = "[Work 0, Destroy, Destroy, Destroy, Destroy, Work 0] :: nat act list"
  obtain s where s: "pool_run 1 pool_start ?late = Some s" "dead_access s" by (simp add: pool_eval)
  with pool_run_start [OF s(1)] show "\<exists>s :: nat pool. reach (\<lambda>s. s = pool_start) (pool_step 1) s \<and> dead_access s" by blast
qed

end
