(* ===== verification/Pool_Futures.thy ===== *)
theory Pool_Futures
  imports Thread_Pool Decimal
begin

text \<open>
  What a client of \<^verbatim>\<open>include/fiah/thread/ThreadPool.hpp\<close> gets back: \<^verbatim>\<open>enqueue\<close> wraps the callable into a
  packaged task and returns its future; a worker that runs the task stores the result, or the
  exception, in the shared state; a task that is destroyed with the queue breaks its promise. Also the
  thread number that \<^verbatim>\<open>get_thread_id\<close> reports. The layer runs on the steps of \<^verbatim>\<open>Thread_Pool\<close>; what a
  callable returns or throws is the parameter \<open>body\<close>, and each call of \<^verbatim>\<open>enqueue\<close> makes a new task.
\<close>

section \<open>Futures\<close>

datatype ('e, 'r) shared_state = NoState | Pending | Ready "'e + 'r" | Broken

record ('a, 'e, 'r) futures =
  pl :: "'a pool"
  shared :: "'a \<Rightarrow> ('e, 'r) shared_state"
  t_thread_id :: "nat \<Rightarrow> int"           \<comment> \<open>\<^verbatim>\<open>thread_local\<close>, of each worker\<close>

definition futures_start :: "('a, 'e, 'r) futures" where
  "futures_start = \<lparr>pl = pool_start, shared = (\<lambda>_. NoState), t_thread_id = (\<lambda>_. - 1)\<rparr>"

definition get_thread_id :: "('a, 'e, 'r) futures \<Rightarrow> nat \<Rightarrow> string" where
  "get_thread_id s i = show_int (t_thread_id s i)"

text \<open>\<^verbatim>\<open>packaged_task\<close> and \<^verbatim>\<open>get_future\<close>, then the insertion under the mutex.\<close>

definition enqueue_task :: "('a, 'e, 'r) futures \<Rightarrow> 'a \<Rightarrow> ('a, 'e, 'r) futures" where
  "enqueue_task s t = s\<lparr>pl := enqueue_push (pl s) t, shared := (shared s)(t := Pending)\<rparr>"

text \<open>A worker that has taken a task sets its number; running the task fulfils the promise.\<close>

definition worker_task :: "('a \<Rightarrow> 'e + 'r) \<Rightarrow> ('a, 'e, 'r) futures \<Rightarrow> nat \<Rightarrow> 'a pool \<Rightarrow> ('a, 'e, 'r) futures" where
  "worker_task body s i p =
     (case wpc (pl s) i of
        Run t \<Rightarrow> s\<lparr>pl := p, shared := (shared s)(t := Ready (body t))\<rparr>
      | _ \<Rightarrow> (case wpc p i of
                Run t \<Rightarrow> s\<lparr>pl := p, t_thread_id := (t_thread_id s)(i := int i)\<rparr>
              | _ \<Rightarrow> s\<lparr>pl := p\<rparr>))"

text \<open>The queue is destroyed last; each task left in it breaks its promise.\<close>

definition destroy_tasks :: "('a, 'e, 'r) futures \<Rightarrow> 'a pool \<Rightarrow> ('a, 'e, 'r) futures" where
  "destroy_tasks s p =
     s\<lparr>pl := p, shared := (\<lambda>t. if dtor p = Done \<and> t \<in> set (tasks p) then Broken else shared s t)\<rparr>"

inductive fut_step :: "nat \<Rightarrow> ('a \<Rightarrow> 'e + 'r) \<Rightarrow> ('a, 'e, 'r) futures \<Rightarrow> ('a, 'e, 'r) futures \<Rightarrow> bool" for N body where
  ft_worker: "\<not> dead_access (pl s) \<Longrightarrow> i < N \<Longrightarrow> worker_next (pl s) i = Some p \<Longrightarrow> fut_step N body s (worker_task body s i p)"
| ft_push: "\<not> dead_access (pl s) \<Longrightarrow> dtor (pl s) = Serving \<Longrightarrow> t \<notin> set (enqueued (pl s)) \<Longrightarrow> fut_step N body s (enqueue_task s t)"
| ft_release: "\<not> dead_access (pl s) \<Longrightarrow> enqueue_release (pl s) = Some p \<Longrightarrow> fut_step N body s (s\<lparr>pl := p\<rparr>)"
| ft_destroy: "\<not> dead_access (pl s) \<Longrightarrow> dtor (pl s) = Serving \<longrightarrow> releases (pl s) = 0 \<Longrightarrow> destructor_next N (pl s) = Some p \<Longrightarrow>
    fut_step N body s (destroy_tasks s p)"

inductive_cases fut_step_elim: "fut_step N body s t"

lemma worker_task_pl [simp]: "pl (worker_task body s i p) = p"
  by (simp add: worker_task_def split: wpc.split)

lemma fut_step_pool: "fut_step N body s t \<Longrightarrow> pool_step N (pl s) (pl t)"
  by (auto simp: enqueue_task_def destroy_tasks_def elim!: fut_step_elim intro: pool_worker pool_push pool_release pool_destroy)

lemma fut_reach_pool:
  "reach (\<lambda>s. s = futures_start) (fut_step N body) s \<Longrightarrow> reach (\<lambda>s. s = pool_start) (pool_step N) (pl s)"
  by (induction rule: reach.induct) (auto simp: futures_start_def intro: reach_init reach_step fut_step_pool)

section \<open>Invariant\<close>

definition running :: "nat \<Rightarrow> 'a pool \<Rightarrow> 'a set" where
  "running N p = {t. \<exists>i<N. wpc p i = Run t}"

text \<open>The shared state of a task as a function of the pool.\<close>

definition fut_view :: "nat \<Rightarrow> ('a \<Rightarrow> 'e + 'r) \<Rightarrow> 'a pool \<Rightarrow> 'a \<Rightarrow> ('e, 'r) shared_state" where
  "fut_view N body p t =
     (if t \<in> set (started p) then (if t \<in> running N p then Pending else Ready (body t))
      else if t \<in> set (tasks p) then (if dtor p = Done then Broken else Pending) else NoState)"

definition runs_ok :: "nat \<Rightarrow> 'a pool \<Rightarrow> bool" where
  "runs_ok N p \<longleftrightarrow> distinct (started p @ tasks p) \<and> running N p \<subseteq> set (started p) \<and>
     (\<forall>i j t. i < N \<longrightarrow> j < N \<longrightarrow> wpc p i = Run t \<longrightarrow> wpc p j = Run t \<longrightarrow> i = j) \<and>
     (dtor p = Done \<longrightarrow> (\<forall>i<N. wpc p i = Exit))"

definition fut_inv :: "nat \<Rightarrow> ('a \<Rightarrow> 'e + 'r) \<Rightarrow> ('a, 'e, 'r) futures \<Rightarrow> bool" where
  "fut_inv N body s \<longleftrightarrow> enqueued (pl s) = started (pl s) @ tasks (pl s) \<and> runs_ok N (pl s) \<and> shared s = fut_view N body (pl s) \<and>
     (\<forall>i<N. \<forall>t. wpc (pl s) i = Run t \<longrightarrow> t_thread_id s i = int i)"

text \<open>A step of a worker takes the oldest task, ends one, or leaves the tasks alone.\<close>

lemma worker_next_cases:
  assumes "worker_next p i = Some p'"
  obtains (take) t where "wpc p i = Lock" "tasks p = t # tasks p'" "started p' = started p @ [t]" "wpc p' = (wpc p)(i := Run t)"
      "enqueued p' = enqueued p" "dtor p' = dtor p"
    | (finish) t where "wpc p i = Run t" "tasks p' = tasks p" "started p' = started p" "wpc p' = (wpc p)(i := Loop)"
      "enqueued p' = enqueued p" "dtor p' = dtor p"
    | (other) c where "\<nexists>t. wpc p i = Run t" "\<nexists>t. c = Run t" "tasks p' = tasks p" "started p' = started p"
      "wpc p' = (wpc p)(i := c)" "enqueued p' = enqueued p" "dtor p' = dtor p"
proof (cases "p' = dead_use p \<and> (\<nexists>t. wpc p i = Run t)")
  case True
  then show ?thesis by (intro other [of "wpc p i"]) (simp_all add: dead_use_def)
next
  case live: False
  show ?thesis
  proof (cases "wpc p i")
    case Lock
    with assms live show ?thesis by (cases "tasks p") (auto simp: worker_next_def goto_def split: if_splits intro: take other)
  next
    case (Run t)
    with assms show ?thesis by (auto simp: worker_next_def goto_def intro: finish)
  qed (use assms live in \<open>auto simp: worker_next_def goto_def split: if_splits intro: other\<close>)
qed

definition elsewhere :: "nat \<Rightarrow> 'a pool \<Rightarrow> nat \<Rightarrow> 'a set" where
  "elsewhere N p i = {t. \<exists>j<N. j \<noteq> i \<and> wpc p j = Run t}"

lemma elsewhere_upd: "wpc p' = (wpc p)(i := c) \<Longrightarrow> elsewhere N p' i = elsewhere N p i"
  by (simp add: elsewhere_def cong: conj_cong)

lemma running_split: "i < N \<Longrightarrow> running N p = {t. wpc p i = Run t} \<union> elsewhere N p i"
  by (auto simp: running_def elsewhere_def)

lemma running_upd: "i < N \<Longrightarrow> wpc p' = (wpc p)(i := c) \<Longrightarrow> running N p' = {t. c = Run t} \<union> elsewhere N p i"
  using running_split [of i N p'] elsewhere_upd [of p' p i c N] by simp

lemma running_other:
  assumes "i < N" "\<nexists>t. wpc p i = Run t" "\<nexists>t. c = Run t" "wpc p' = (wpc p)(i := c)"
  shows "running N p' = running N p"
  using running_upd [OF assms(1,4)] running_split [OF assms(1), of p] assms(2,3) by simp

lemma running_take:
  assumes "i < N" "wpc p i = Lock" "wpc p' = (wpc p)(i := Run t)"
  shows "running N p' = insert t (running N p)"
  using running_upd [OF assms(1,3)] running_split [OF assms(1), of p] assms(2) by auto

lemma running_finish:
  assumes "runs_ok N p" "i < N" "wpc p i = Run t" "wpc p' = (wpc p)(i := Loop)"
  shows "running N p' = running N p - {t}"
proof -
  have "j = i" if "j < N" "wpc p j = Run t" for j using assms(1-3) that unfolding runs_ok_def by blast
  then have "t \<notin> elsewhere N p i" by (auto simp: elsewhere_def)
  then show ?thesis using running_upd [OF assms(2,4)] running_split [OF assms(2), of p] assms(3) by auto
qed

lemma started_not_tasks: "runs_ok N p \<Longrightarrow> t \<in> set (tasks p) \<Longrightarrow> t \<notin> set (started p) \<and> t \<notin> running N p"
  by (auto simp: runs_ok_def)

lemma fut_inv_worker:
  assumes inv: "fut_inv N body s" and i: "i < N" and w: "worker_next (pl s) i = Some p"
  shows "fut_inv N body (worker_task body s i p)"
proof -
  have ok: "runs_ok N (pl s)" using inv by (simp add: fut_inv_def)
  have "wpc (pl s) i \<noteq> Exit" using w by (auto simp: worker_next_def)
  then have nd: "dtor (pl s) \<noteq> Done" using ok i by (auto simp: runs_ok_def)
  from w show ?thesis
  proof (cases rule: worker_next_cases)
    case (take t)
    have t: "t \<notin> set (started (pl s))" "t \<notin> running N (pl s)" using started_not_tasks [OF ok, of t] take(2) by simp_all
    have run: "running N p = insert t (running N (pl s))" using running_take [OF i take(1,4)] .
    have "runs_ok N p" using ok nd i take run t by (auto simp: runs_ok_def running_def)
    moreover have "fut_view N body p = fut_view N body (pl s)"
      using take run t nd by (auto simp: fut_view_def fun_eq_iff)
    ultimately show ?thesis using inv take i by (auto simp: fut_inv_def worker_task_def)
  next
    case (finish t)
    have run: "running N p = running N (pl s) - {t}" using running_finish [OF ok i finish(1,4)] .
    have t: "t \<in> set (started (pl s))" using ok finish(1) i by (auto simp: runs_ok_def running_def)
    have "runs_ok N p" using ok nd finish run by (auto simp: runs_ok_def)
    moreover have "fut_view N body p = (fut_view N body (pl s))(t := Ready (body t))"
      using finish run t by (auto simp: fut_view_def fun_eq_iff)
    ultimately show ?thesis using inv finish by (auto simp: fut_inv_def worker_task_def)
  next
    case (other c)
    have run: "running N p = running N (pl s)" using running_other [OF i other(1,2,5)] .
    have "runs_ok N p" using ok nd other run by (auto simp: runs_ok_def)
    moreover have "fut_view N body p = fut_view N body (pl s)" using other run by (auto simp: fut_view_def fun_eq_iff)
    moreover have "worker_task body s i p = s\<lparr>pl := p\<rparr>"
      using other by (auto simp: worker_task_def split: wpc.split)
    ultimately show ?thesis using inv other by (auto simp: fut_inv_def)
  qed
qed

lemma fut_inv_push:
  assumes inv: "fut_inv N body s" and d: "dtor (pl s) = Serving" and t: "t \<notin> set (enqueued (pl s))"
  shows "fut_inv N body (enqueue_task s t)"
proof -
  let ?p = "enqueue_push (pl s) t"
  have run: "running N ?p = running N (pl s)" by (simp add: running_def enqueue_push_def)
  have "runs_ok N ?p" using inv d t unfolding fut_inv_def runs_ok_def run by (auto simp: enqueue_push_def)
  moreover have "fut_view N body ?p = (fut_view N body (pl s))(t := Pending)"
    using inv d t unfolding fut_view_def run by (auto simp: fut_inv_def enqueue_push_def fun_eq_iff)
  ultimately show ?thesis using inv by (auto simp: fut_inv_def enqueue_task_def enqueue_push_def)
qed

lemma fut_inv_same:
  assumes "fut_inv N body s" "tasks p = tasks (pl s)" "started p = started (pl s)" "enqueued p = enqueued (pl s)"
    "wpc p = wpc (pl s)" "dtor p = dtor (pl s)"
  shows "fut_inv N body (s\<lparr>pl := p\<rparr>)"
proof -
  have "running N p = running N (pl s)" using assms(5) by (simp add: running_def)
  with assms show ?thesis by (simp add: fut_inv_def runs_ok_def fut_view_def fun_eq_iff)
qed

lemma destructor_next_frame:
  assumes "destructor_next N p = Some p'"
  shows "tasks p' = tasks p \<and> started p' = started p \<and> enqueued p' = enqueued p \<and> wpc p' = wpc p \<and> dtor p \<noteq> Done \<and>
    (dtor p' = Done \<longrightarrow> (\<forall>i<N. wpc p i = Exit))"
  using assms by (auto simp: destructor_next_def split: dpc.splits if_splits)

lemma fut_inv_destroy:
  assumes inv: "fut_inv N body s" and d: "destructor_next N (pl s) = Some p"
  shows "fut_inv N body (destroy_tasks s p)"
proof -
  note f = destructor_next_frame [OF d]
  have run: "running N p = running N (pl s)" using f by (simp add: running_def)
  have "runs_ok N p" using inv f run by (auto simp: fut_inv_def runs_ok_def)
  moreover have "fut_view N body p = (\<lambda>t. if dtor p = Done \<and> t \<in> set (tasks p) then Broken else fut_view N body (pl s) t)"
    using inv f run started_not_tasks [of N "pl s"] by (auto simp: fut_inv_def fut_view_def fun_eq_iff)
  ultimately show ?thesis using inv f by (auto simp: fut_inv_def destroy_tasks_def)
qed

interpretation fut: inductive_invariant "\<lambda>s. s = futures_start" "fut_step N body" "fut_inv N body" for N body
proof
  show "fut_inv N body s" if "s = futures_start" for s
    using that by (auto simp: fut_inv_def futures_start_def pool_start_def runs_ok_def running_def fut_view_def)
  show "fut_inv N body t" if inv: "fut_inv N body s" and st: "fut_step N body s t" for s t
    using st
  proof cases
    case (ft_release p)
    then show ?thesis using fut_inv_same [OF inv] by (auto simp: enqueue_release_def split: nat.splits)
  qed (use inv in \<open>simp_all add: fut_inv_worker fut_inv_push fut_inv_destroy\<close>)
qed

section \<open>Schedules\<close>

definition fut_act :: "nat \<Rightarrow> ('a \<Rightarrow> 'e + 'r) \<Rightarrow> ('a, 'e, 'r) futures \<Rightarrow> 'a act \<Rightarrow> ('a, 'e, 'r) futures option" where
  "fut_act N body s a =
     (if dead_access (pl s) then None else case a of
        Work i \<Rightarrow> if i < N then map_option (worker_task body s i) (worker_next (pl s) i) else None
      | Push t \<Rightarrow> if dtor (pl s) = Serving \<and> t \<notin> set (enqueued (pl s)) then Some (enqueue_task s t) else None
      | Release \<Rightarrow> map_option (\<lambda>p. s\<lparr>pl := p\<rparr>) (enqueue_release (pl s))
      | Destroy \<Rightarrow> if dtor (pl s) = Serving \<and> releases (pl s) \<noteq> 0 then None
          else map_option (destroy_tasks s) (destructor_next N (pl s)))"

fun fut_run :: "nat \<Rightarrow> ('a \<Rightarrow> 'e + 'r) \<Rightarrow> ('a, 'e, 'r) futures \<Rightarrow> 'a act list \<Rightarrow> ('a, 'e, 'r) futures option" where
  "fut_run N body s [] = Some s"
| "fut_run N body s (a # as) = (case fut_act N body s a of None \<Rightarrow> None | Some t \<Rightarrow> fut_run N body t as)"

lemma fut_act_step: "fut_act N body s a = Some t \<Longrightarrow> fut_step N body s t"
  by (auto simp: fut_act_def split: act.splits if_splits intro: ft_worker ft_push ft_release ft_destroy)

lemma fut_run_reach: "reach init (fut_step N body) s \<Longrightarrow> fut_run N body s as = Some t \<Longrightarrow> reach init (fut_step N body) t"
  by (induction "as" arbitrary: s) (auto split: option.splits dest!: fut_act_step intro: reach_step)

lemmas fut_eval = fut_act_def futures_start_def enqueue_task_def worker_task_def destroy_tasks_def

section \<open>Properties\<close>

text \<open>
  C36. Every future is settled. A task that a worker has run has the value or exception of its
  own callable in its future, and no other task has one; no promise is broken while the pool
  serves; when the destructor has returned no future is pending: for some number \<open>k\<close>, the first
  \<open>k\<close> calls of \<^verbatim>\<open>enqueue\<close> have their results and all later ones a broken promise. While a worker
  runs a task, \<^verbatim>\<open>get_thread_id\<close> on it gives the worker's number.\<close>

theorem pool_futures:
  assumes "reach (\<lambda>s. s = futures_start) (fut_step N body) s"
  shows "(\<forall>t r. shared s t = Ready r \<longleftrightarrow> r = body t \<and> t \<in> set (started (pl s)) \<and> (\<forall>i<N. wpc (pl s) i \<noteq> Run t)) \<and>
    (dtor (pl s) \<noteq> Done \<longrightarrow> (\<forall>t. shared s t \<noteq> Broken)) \<and>
    (dtor (pl s) = Done \<longrightarrow> (\<exists>k. \<forall>i<length (enqueued (pl s)).
       shared s (enqueued (pl s) ! i) = (if i < k then Ready (body (enqueued (pl s) ! i)) else Broken))) \<and>
    (\<forall>i<N. \<forall>t. wpc (pl s) i = Run t \<longrightarrow> get_thread_id s i = show_nat i)"
proof -
  have inv: "fut_inv N body s" using assms by (rule fut.reach_inv)
  then have ok: "runs_ok N (pl s)" and q: "enqueued (pl s) = started (pl s) @ tasks (pl s)" and v: "shared s = fut_view N body (pl s)"
    by (simp_all add: fut_inv_def)
  have "\<exists>k. \<forall>i<length (enqueued (pl s)). shared s (enqueued (pl s) ! i) = (if i < k then Ready (body (enqueued (pl s) ! i)) else Broken)"
    if "dtor (pl s) = Done"
  proof (intro exI [of _ "length (started (pl s))"] allI impI)
    fix i assume i: "i < length (enqueued (pl s))"
    have "running N (pl s) = {}" using ok that by (auto simp: runs_ok_def running_def)
    moreover have "tasks (pl s) ! (i - length (started (pl s))) \<in> set (tasks (pl s))" if "\<not> i < length (started (pl s))"
      using i that by (simp add: q)
    ultimately show "shared s (enqueued (pl s) ! i) = (if i < length (started (pl s)) then Ready (body (enqueued (pl s) ! i)) else Broken)"
      using i \<open>dtor (pl s) = Done\<close> started_not_tasks [OF ok] by (auto simp: q v fut_view_def nth_append)
  qed
  moreover have "shared s t = Ready r \<longleftrightarrow> r = body t \<and> t \<in> set (started (pl s)) \<and> (\<forall>i<N. wpc (pl s) i \<noteq> Run t)" for t r
    by (auto simp: v fut_view_def running_def)
  moreover have "shared s t \<noteq> Broken" if "dtor (pl s) \<noteq> Done" for t using that by (simp add: v fut_view_def)
  moreover have "get_thread_id s i = show_nat i" if "i < N" "wpc (pl s) i = Run t" for i t
    using inv that by (auto simp: fut_inv_def get_thread_id_def show_int_def)
  ultimately show ?thesis by blast
qed

text \<open>One worker runs the first of two tasks; the destructor returns before the second is taken.\<close>

definition two_tasks :: "nat act list" where
  "two_tasks = [Push 1, Release, Push 2, Release, Work 0, Work 0, Work 0, Work 0, Work 0, Work 0,
     Destroy, Destroy, Destroy, Destroy, Work 0, Destroy]"

lemma two_tasks_run:
  "\<exists>s. fut_run 1 body futures_start two_tasks = Some s \<and> dtor (pl s) = Done \<and> enqueued (pl s) = [1, 2] \<and> started (pl s) = [1] \<and>
     wpc (pl s) 0 = Exit \<and> shared s 2 = Broken"
  by (simp add: two_tasks_def fut_eval pool_eval)

theorem pool_futures_witness:
  "\<exists>s. reach (\<lambda>s. s = futures_start) (fut_step 1 (\<lambda>n :: nat. Inr (n * n) :: unit + nat)) s \<and> dtor (pl s) = Done \<and>
     shared s 1 = Ready (Inr 1) \<and> shared s 2 = Broken"
proof -
  let ?b = "\<lambda>n :: nat. Inr (n * n) :: unit + nat"
  obtain s where s: "fut_run 1 ?b futures_start two_tasks = Some s" "dtor (pl s) = Done" "enqueued (pl s) = [1, 2]" "started (pl s) = [1]"
    "wpc (pl s) 0 = Exit" "shared s 2 = Broken" using two_tasks_run by blast
  have r: "reach (\<lambda>s. s = futures_start) (fut_step 1 ?b) s" by (rule fut_run_reach [OF _ s(1)]) (simp add: reach_init)
  from pool_futures [OF r] have "shared s 1 = Ready (Inr 1) \<longleftrightarrow> True" using s by simp
  with r s show ?thesis by blast
qed

end
