(* ===== verification/SPSC_Logger.thy ===== *)
theory SPSC_Logger
  imports SPSC_Queue
begin

text \<open>
  The asynchronous logger of \<^verbatim>\<open>include/fiah/utils/SPSCLogger.hh\<close>: a queue per logging thread,
  registered on the thread's first message, and a consumer that takes snapshots of the list
  of queues, drains each into batches and writes the batches. The clock, the time zone and
  the expansion of a format by \<^verbatim>\<open>snprintf\<close> are parameters. The snapshot is a copy of a
  vector of pointers, for which \<^verbatim>\<open>Vector\<close>'s copy assignment is sound, so it is the list of
  the registered queues. A queue's calls are atomic steps here, which \<^verbatim>\<open>SPSC_Queue\<close> justifies:
  its concurrent system refines the same first-in first-out queue. The instance is the one
  static object of \<^verbatim>\<open>get_instance\<close>.
\<close>

section \<open>Records\<close>

datatype Level = INFO | DEBUG | ERROR | WARN

record location =
  file_name :: string
  function_name :: string
  line_no :: u32_t

record log_record =
  buff :: string            \<comment> \<open>up to the terminator\<close>
  ts_ns :: u64_t
  loc :: location
  buff_size :: u16_t
  level :: Level

definition BUFF_SIZE :: nat where
  "BUFF_SIZE = 2 ^ 9"

definition QUEUE_SIZE :: u64_t where
  "QUEUE_SIZE = 2 ^ 10"

text \<open>\<open>text\<close> is the full expansion of the format, of which \<^verbatim>\<open>snprintf\<close> keeps what fits.\<close>

definition make_record :: "Level \<Rightarrow> location \<Rightarrow> u64_t \<Rightarrow> string \<Rightarrow> log_record" where
  "make_record lev l now text =
     \<lparr>buff = take (BUFF_SIZE - 1) text, ts_ns = now, loc = l,
      buff_size = min (of_nat (length text)) (of_nat (BUFF_SIZE - 1)), level = lev\<rparr>"

fun level_to_string :: "Level \<Rightarrow> string" where
  "level_to_string INFO = ''INFO''"
| "level_to_string DEBUG = ''DEBUG''"
| "level_to_string ERROR = ''ERROR''"
| "level_to_string WARN = ''WARN''"

fun level_to_color :: "Level \<Rightarrow> string" where
  "level_to_color INFO = CHR 0x1B # ''[32m''"
| "level_to_color DEBUG = CHR 0x1B # ''[36m''"
| "level_to_color ERROR = CHR 0x1B # ''[31m''"
| "level_to_color WARN = CHR 0x1B # ''[33m''"

section \<open>Serialization\<close>

text \<open>\<^verbatim>\<open>strrchr\<close>: the text behind, and the text before, the last occurrence of a character.\<close>

definition after_last :: "char \<Rightarrow> string \<Rightarrow> string" where
  "after_last c s = rev (takeWhile (\<lambda>x. x \<noteq> c) (rev s))"

definition before_last :: "char \<Rightarrow> string \<Rightarrow> string" where
  "before_last c s = (if c \<in> set s then rev (drop 1 (dropWhile (\<lambda>x. x \<noteq> c) (rev s))) else s)"

text \<open>\<^verbatim>\<open>snprintf\<close> into a buffer of \<open>n\<close> characters: what it keeps, and the length it reports.\<close>

definition snprintf :: "nat \<Rightarrow> string \<Rightarrow> string \<times> nat" where
  "snprintf n text = (take (n - 1) text, length text)"

definition pad :: "nat \<Rightarrow> nat \<Rightarrow> string" where
  "pad w n = replicate (w - length (show_nat n)) CHR ''0'' @ show_nat n"

record tm =
  tm_hour :: nat
  tm_min :: nat
  tm_sec :: nat
  tm_zone :: string

definition func_part :: "string \<Rightarrow> string" where
  "func_part name = after_last CHR '':'' (before_last CHR ''('' (fst (snprintf 128 name)))"

definition time_part :: "(nat \<Rightarrow> tm) \<Rightarrow> u64_t \<Rightarrow> string" where
  "time_part localtime ts =
     (let s_since_epoch = unat (ts div 1000000000); ns = unat (ts mod 1000000000);
          tm_buf = localtime s_since_epoch
      in fst (snprintf 24 (pad 2 (tm_hour tm_buf) @ '':'' @ pad 2 (tm_min tm_buf) @ '':'' @ pad 2 (tm_sec tm_buf) @
           '' '' @ pad 9 ns @ '' '' @ tm_zone tm_buf)))"

definition log_text :: "(nat \<Rightarrow> tm) \<Rightarrow> log_record \<Rightarrow> string" where
  "log_text localtime r =
     level_to_color (level r) @ ''['' @ level_to_string (level r) @ '']'' @ [CHR 0x09] @
     ''['' @ time_part localtime (ts_ns r) @ '']['' @ after_last CHR ''/'' (file_name (loc r)) @ '' '' @
     func_part (function_name (loc r)) @ '':'' @ show_nat (unat (line_no (loc r))) @ '']'' @ [CHR 0x09] @
     (CHR 0x1B # ''[0m'') @ '' '' @ buff r"

definition serialize :: "(nat \<Rightarrow> tm) \<Rightarrow> log_record \<Rightarrow> nat \<Rightarrow> string \<times> nat" where
  "serialize localtime r len = snprintf len (log_text localtime r)"

definition LINE_SIZE :: nat where
  "LINE_SIZE = BUFF_SIZE + 512"

text \<open>\<^verbatim>\<open>fwrite\<close> of as many characters of the line as \<^verbatim>\<open>snprintf\<close> reports, its terminator included.\<close>

definition write_line :: "(nat \<Rightarrow> tm) \<Rightarrow> string \<Rightarrow> log_record \<Rightarrow> string res" where
  "write_line localtime out r =
     (let (line, written_bytes) = serialize localtime r LINE_SIZE
      in if written_bytes \<le> LINE_SIZE then Inr (out @ take written_bytes (line @ [CHR 0x00]))
         else Inl OutOfBounds)"

fun flush :: "(nat \<Rightarrow> tm) \<Rightarrow> log_record list \<Rightarrow> string \<Rightarrow> string res" where
  "flush localtime [] out = Inr out"
| "flush localtime (r # rs) out = bind_res (write_line localtime out r) (flush localtime rs)"

definition OUT_LIST_SIZE :: nat where
  "OUT_LIST_SIZE = 10"

lemma QUEUE_SIZE_pow2: "is_pow2 QUEUE_SIZE 10"
  by (simp add: is_pow2_def QUEUE_SIZE_def)

section \<open>Lines that fit the buffer\<close>

lemma write_line_text:
  "length (log_text localtime r) < LINE_SIZE \<Longrightarrow> write_line localtime out r = Inr (out @ log_text localtime r)"
  by (simp add: write_line_def serialize_def snprintf_def)

lemma flush_text:
  "list_all (\<lambda>r. length (log_text localtime r) < LINE_SIZE) rs \<Longrightarrow>
   flush localtime rs out = Inr (out @ concat (map (log_text localtime) rs))"
  by (induction rs arbitrary: out) (simp_all add: write_line_text)

lemma length_show_nat: "n < 10 ^ k \<Longrightarrow> 0 < k \<Longrightarrow> length (show_nat n) \<le> k"
proof (induction n arbitrary: k rule: show_nat.induct)
  case (1 n)
  show ?case
  proof (cases "n < 10")
    case True
    with 1 show ?thesis by (simp add: show_nat.simps)
  next
    case False
    with 1 have "k \<noteq> 1" by auto
    with 1 obtain j where k: "k = Suc j" "0 < j" by (cases k) auto
    then have "n div 10 < 10 ^ j" using 1 by (simp add: less_mult_imp_div_less mult.commute)
    with False k 1(1) [OF False, of j] show ?thesis by (simp add: show_nat.simps [of n])
  qed
qed

lemma length_after_last: "length (after_last c s) \<le> length s"
  unfolding after_last_def by (metis length_rev length_takeWhile_le)

lemma length_before_last: "length (before_last c s) \<le> length s"
  using length_dropWhile_le [of "\<lambda>x. x \<noteq> c" "rev s"] by (auto simp: before_last_def)

lemma length_parts:
  "length (level_to_color v) = 5" "length (level_to_string v) \<le> 5" "length (time_part localtime ts) \<le> 23"
  "length (func_part name) \<le> 127" "length (show_nat (unat (w :: u32_t))) \<le> 10"
proof -
  show "length (level_to_color v) = 5" "length (level_to_string v) \<le> 5" by (cases v; simp)+
  show "length (time_part localtime ts) \<le> 23" by (simp add: time_part_def Let_def snprintf_def)
  show "length (func_part name) \<le> 127"
    unfolding func_part_def by (intro order_trans [OF length_after_last] order_trans [OF length_before_last])
      (simp add: snprintf_def)
  have "unat w < 2 ^ 32" by (rule less_le_trans [OF unsigned_less]) simp
  then show "length (show_nat (unat w)) \<le> 10" by (intro length_show_nat) simp_all
qed

lemma log_text_bound:
  "length (log_text localtime r) \<le> 185 + length (after_last CHR ''/'' (file_name (loc r))) + length (buff r)"
  using length_parts(1,2) [of "level r"] length_parts(3) [of localtime "ts_ns r"]
    length_parts(4) [of "function_name (loc r)"] length_parts(5) [of "line_no (loc r)"]
  by (simp add: log_text_def)

section \<open>The logger\<close>

text \<open>
  Queues are known by their place in the order of registration. The last two fields are the
  history: records a queue accepted, and records handed to the output, with their queue.
\<close>

datatype consumer_phase = Looping | Final | Stopped

record logger =
  m_queues :: "log_record spsc list"
  thread_queue :: "nat \<Rightarrow> nat option"       \<comment> \<open>the \<^verbatim>\<open>thread_local\<close> pointer\<close>
  q_snapshot :: "nat list"
  remaining :: "nat list"                   \<comment> \<open>what is left of the loop over the snapshot\<close>
  out_list :: "log_record list"             \<comment> \<open>up to \<^verbatim>\<open>list_tracker\<close>\<close>
  phase :: consumer_phase
  stop_requested :: bool
  stdout :: string
  accepted :: "(nat \<times> log_record) list"
  written :: "(nat \<times> log_record) list"

definition logger_start :: logger where
  "logger_start = \<lparr>m_queues = [], thread_queue = (\<lambda>_. None), q_snapshot = [], remaining = [], out_list = [],
     phase = Looping, stop_requested = False, stdout = [], accepted = [], written = []\<rparr>"

definition register_thread :: "logger \<Rightarrow> nat \<times> logger" where
  "register_thread s = (length (m_queues s), s\<lparr>m_queues := m_queues s @ [spsc_new QUEUE_SIZE]\<rparr>)"

definition get_queue_ptr :: "logger \<Rightarrow> nat \<Rightarrow> nat \<times> logger" where
  "get_queue_ptr s t =
     (case thread_queue s t of
        Some i \<Rightarrow> (i, s)
      | None \<Rightarrow> let (i, s) = register_thread s in (i, s\<lparr>thread_queue := (thread_queue s)(t \<mapsto> i)\<rparr>))"

definition log_push :: "logger \<Rightarrow> nat \<Rightarrow> log_record \<Rightarrow> logger res" where
  "log_push s t r =
     (let (i, s) = get_queue_ptr s t
      in bind_res (spsc_push QUEUE_SIZE (m_queues s ! i) r) (\<lambda>(ok, q).
           Inr (s\<lparr>m_queues := (m_queues s)[i := q],
                  accepted := (if ok then accepted s @ [(i, r)] else accepted s)\<rparr>)))"

text \<open>The three calls of the interface; the clock shows \<open>now\<close> and the format expands to \<open>text\<close>.\<close>

definition log_info :: "logger \<Rightarrow> nat \<Rightarrow> location \<Rightarrow> u64_t \<Rightarrow> string \<Rightarrow> logger res" where
  "log_info s t l now text = log_push s t (make_record INFO l now text)"

definition log_warn :: "logger \<Rightarrow> nat \<Rightarrow> location \<Rightarrow> u64_t \<Rightarrow> string \<Rightarrow> logger res" where
  "log_warn s t l now text = log_push s t (make_record WARN l now text)"

definition log_error :: "logger \<Rightarrow> nat \<Rightarrow> location \<Rightarrow> u64_t \<Rightarrow> string \<Rightarrow> logger res" where
  "log_error s t l now text = log_push s t (make_record ERROR l now text)"

definition get_num_threads :: "logger \<Rightarrow> nat" where
  "get_num_threads s = length (m_queues s)"

section \<open>The consumer\<close>

text \<open>
  The body of the drain loop for queue \<open>i\<close>: a flush of the buffered records, the record of a
  successful pop, and the end of the queue.
\<close>

definition flush_list :: "(nat \<Rightarrow> tm) \<Rightarrow> nat \<Rightarrow> logger \<Rightarrow> logger res" where
  "flush_list localtime i s =
     bind_res (flush localtime (out_list s) (stdout s)) (\<lambda>out.
       Inr (s\<lparr>stdout := out, out_list := [], written := written s @ map (Pair i) (out_list s)\<rparr>))"

definition buffer_record :: "(nat \<Rightarrow> tm) \<Rightarrow> nat \<Rightarrow> log_record \<Rightarrow> logger \<Rightarrow> logger res" where
  "buffer_record localtime i rec s =
     (let s = s\<lparr>out_list := out_list s @ [rec]\<rparr>
      in if length (out_list s) \<ge> OUT_LIST_SIZE then flush_list localtime i s else Inr s)"

definition end_queue :: "(nat \<Rightarrow> tm) \<Rightarrow> nat \<Rightarrow> logger \<Rightarrow> logger res" where
  "end_queue localtime i s = (if length (out_list s) > 0 then flush_list localtime i s else Inr s)"

text \<open>
  The logging threads and the consumer. Each call of a queue is one step, so that a thread can
  log between two pops of the consumer.
\<close>

inductive logger_step :: "(nat \<Rightarrow> tm) \<Rightarrow> logger \<Rightarrow> logger \<Rightarrow> bool" for localtime where
  lg_log: "phase s \<noteq> Stopped \<Longrightarrow> log_push s t r = Inr s' \<Longrightarrow> logger_step localtime s s'"
| lg_snapshot: "phase s = Looping \<Longrightarrow> remaining s = [] \<Longrightarrow> \<not> stop_requested s \<Longrightarrow>
    logger_step localtime s (s\<lparr>q_snapshot := [0..<length (m_queues s)], remaining := [0..<length (m_queues s)]\<rparr>)"
| lg_take: "remaining s = i # is \<Longrightarrow> spsc_pop QUEUE_SIZE (m_queues s ! i) = Inr (Some r, q) \<Longrightarrow>
    buffer_record localtime i r (s\<lparr>m_queues := (m_queues s)[i := q]\<rparr>) = Inr s' \<Longrightarrow> logger_step localtime s s'"
| lg_next: "remaining s = i # is \<Longrightarrow> spsc_pop QUEUE_SIZE (m_queues s ! i) = Inr (None, q) \<Longrightarrow>
    end_queue localtime i (s\<lparr>m_queues := (m_queues s)[i := q]\<rparr>) = Inr s' \<Longrightarrow>
    logger_step localtime s (s'\<lparr>remaining := is\<rparr>)"
| lg_stop: "logger_step localtime s (s\<lparr>stop_requested := True\<rparr>)"
| lg_final: "phase s = Looping \<Longrightarrow> remaining s = [] \<Longrightarrow> stop_requested s \<Longrightarrow>
    logger_step localtime s (s\<lparr>phase := Final, remaining := q_snapshot s\<rparr>)"
| lg_exit: "phase s = Final \<Longrightarrow> remaining s = [] \<Longrightarrow> logger_step localtime s (s\<lparr>phase := Stopped\<rparr>)"

text \<open>
  The consumer alone, as the destructor runs it when no thread logs any more. Fuel bounds the
  pops of one queue; \<open>None\<close> is a loop that has not ended.
\<close>

fun drain_queue :: "(nat \<Rightarrow> tm) \<Rightarrow> nat \<Rightarrow> nat \<Rightarrow> logger \<Rightarrow> logger option res" where
  "drain_queue localtime 0 i s = Inr None"
| "drain_queue localtime (Suc n) i s =
     bind_res (spsc_pop QUEUE_SIZE (m_queues s ! i)) (\<lambda>(r, q).
       let s = s\<lparr>m_queues := (m_queues s)[i := q]\<rparr>
       in case r of
            Some rec \<Rightarrow> bind_res (buffer_record localtime i rec s) (drain_queue localtime n i)
          | None \<Rightarrow> bind_res (end_queue localtime i s) (\<lambda>s. Inr (Some s)))"

definition bind_run :: "'a option res \<Rightarrow> ('a \<Rightarrow> 'b option res) \<Rightarrow> 'b option res" where
  "bind_run m f = bind_res m (\<lambda>r. case r of None \<Rightarrow> Inr None | Some s \<Rightarrow> f s)"

definition drain_fuel :: nat where
  "drain_fuel = unat QUEUE_SIZE + 1"

fun drain :: "(nat \<Rightarrow> tm) \<Rightarrow> nat list \<Rightarrow> logger \<Rightarrow> logger option res" where
  "drain localtime [] s = Inr (Some s)"
| "drain localtime (i # is) s =
     bind_run (drain_queue localtime drain_fuel i s) (\<lambda>s. drain localtime is (s\<lparr>remaining := is\<rparr>))"

text \<open>What is left of \<^verbatim>\<open>_run\<close> once a stop is requested.\<close>

definition run_final :: "(nat \<Rightarrow> tm) \<Rightarrow> logger \<Rightarrow> logger option res" where
  "run_final localtime s =
     bind_run (drain localtime (remaining s) s) (\<lambda>s. Inr (Some (s\<lparr>phase := Stopped\<rparr>)))"

definition run_rest :: "(nat \<Rightarrow> tm) \<Rightarrow> logger \<Rightarrow> logger option res" where
  "run_rest localtime s =
     (case phase s of
        Looping \<Rightarrow> bind_run (drain localtime (remaining s) s) (\<lambda>s.
          run_final localtime (s\<lparr>phase := Final, remaining := q_snapshot s\<rparr>))
      | Final \<Rightarrow> run_final localtime s
      | Stopped \<Rightarrow> Inr (Some s))"

fun delete_queues :: "log_record spsc list \<Rightarrow> unit res" where
  "delete_queues [] = Inr ()"
| "delete_queues (q # qs) = bind_res (spsc_destructor QUEUE_SIZE q) (\<lambda>_. delete_queues qs)"

definition logger_destructor :: "(nat \<Rightarrow> tm) \<Rightarrow> logger \<Rightarrow> logger option res" where
  "logger_destructor localtime s =
     bind_run (run_rest localtime (s\<lparr>stop_requested := True\<rparr>)) (\<lambda>s.
       bind_res (delete_queues (m_queues s)) (\<lambda>_. Inr (Some (s\<lparr>m_queues := []\<rparr>))))"

section \<open>Invariant\<close>

definition records_of :: "nat \<Rightarrow> (nat \<times> log_record) list \<Rightarrow> log_record list" where
  "records_of i h = map snd (filter (\<lambda>e. fst e = i) h)"

definition short_lines :: "(nat \<Rightarrow> tm) \<Rightarrow> (nat \<times> log_record) list \<Rightarrow> bool" where
  "short_lines localtime h \<longleftrightarrow> list_all (\<lambda>(i, r). length (log_text localtime r) < LINE_SIZE) h"

text \<open>The records of queue \<open>i\<close> that the consumer has taken and not written yet.\<close>

definition pending :: "logger \<Rightarrow> nat \<Rightarrow> log_record list" where
  "pending s i = (case remaining s of [] \<Rightarrow> [] | j # _ \<Rightarrow> if i = j then out_list s else [])"

definition queues_ok :: "logger \<Rightarrow> bool" where
  "queues_ok s \<longleftrightarrow> (\<forall>i<length (m_queues s). spsc_inv QUEUE_SIZE (m_queues s ! i)) \<and>
     (\<forall>i<length (m_queues s). records_of i (accepted s) =
        records_of i (written s) @ pending s i @ spsc_contents QUEUE_SIZE (m_queues s ! i)) \<and>
     fst ` set (accepted s) \<union> fst ` set (written s) \<subseteq> {..<length (m_queues s)}"

definition refs_ok :: "logger \<Rightarrow> bool" where
  "refs_ok s \<longleftrightarrow> ran (thread_queue s) \<union> set (q_snapshot s) \<subseteq> {..<length (m_queues s)} \<and>
     set (remaining s) \<subseteq> set (q_snapshot s) \<and> (remaining s = [] \<longrightarrow> out_list s = []) \<and>
     length (out_list s) < OUT_LIST_SIZE \<and> (phase s = Stopped \<longrightarrow> remaining s = [])"

definition output_ok :: "(nat \<Rightarrow> tm) \<Rightarrow> logger \<Rightarrow> bool" where
  "output_ok localtime s \<longleftrightarrow>
     (short_lines localtime (accepted s) \<longrightarrow> stdout s = concat (map (\<lambda>(i, r). log_text localtime r) (written s)))"

definition logger_inv :: "(nat \<Rightarrow> tm) \<Rightarrow> logger \<Rightarrow> bool" where
  "logger_inv localtime s \<longleftrightarrow> queues_ok s \<and> refs_ok s \<and> output_ok localtime s"

lemma records_of_append [simp]: "records_of i (g @ h) = records_of i g @ records_of i h"
  by (simp add: records_of_def)

lemma records_of_Nil [simp]: "records_of i [] = []"
  by (simp add: records_of_def)

lemma records_of_single [simp]: "records_of i [(j, r)] = (if j = i then [r] else [])"
  by (simp add: records_of_def)

lemma records_of_Pair [simp]: "records_of i (map (Pair j) rs) = (if j = i then rs else [])"
  by (induction rs) (auto simp: records_of_def comp_def)

lemma records_of_fresh: "fst ` set h \<subseteq> {..<n} \<Longrightarrow> n \<le> i \<Longrightarrow> records_of i h = []"
  by (force simp: records_of_def filter_empty_conv)

lemma set_records_of: "r \<in> set (records_of i h) \<longleftrightarrow> (i, r) \<in> set h"
  by (force simp: records_of_def)

lemma new_queue: "spsc_inv QUEUE_SIZE (spsc_new QUEUE_SIZE)" "spsc_contents QUEUE_SIZE (spsc_new QUEUE_SIZE) = []"
proof -
  have "spsc_rep QUEUE_SIZE (spsc_new QUEUE_SIZE) 0 []"
    by (simp add: spsc_rep_def spsc_new_def ring_holds_empty)
  from spsc_invI [OF QUEUE_SIZE_pow2 this]
  show "spsc_inv QUEUE_SIZE (spsc_new QUEUE_SIZE)" "spsc_contents QUEUE_SIZE (spsc_new QUEUE_SIZE) = []" by simp_all
qed

lemma contents_fuel: "spsc_inv QUEUE_SIZE q \<Longrightarrow> length (spsc_contents QUEUE_SIZE q) < drain_fuel"
  unfolding drain_fuel_def by (elim spsc_inv_rep) (auto dest!: spsc_rep_bound)

text \<open>Pending depends on the loop's position and the buffer only.\<close>

lemma pending_cong: "remaining t = remaining s \<Longrightarrow> out_list t = out_list s \<Longrightarrow> pending t = pending s"
  by (auto simp: pending_def fun_eq_iff split: list.split)

lemma pending_idle [simp]: "out_list s = [] \<Longrightarrow> pending s i = []"
  by (simp add: pending_def split: list.split)

lemma get_queue_ptr_ok:
  assumes "logger_inv localtime s" "get_queue_ptr s t = (i, s')"
  shows "logger_inv localtime s' \<and> i < length (m_queues s')"
proof (cases "thread_queue s t")
  case None
  have ok: "queues_ok s" "refs_ok s" "output_ok localtime s" using assms(1) by (simp_all add: logger_inv_def)
  let ?n = "length (m_queues s)"
  have s': "s' = s\<lparr>m_queues := m_queues s @ [spsc_new QUEUE_SIZE], thread_queue := (thread_queue s)(t \<mapsto> ?n)\<rparr>" "i = ?n"
    using assms(2) None by (auto simp: get_queue_ptr_def register_thread_def)
  have p: "pending s' = pending s" by (rule pending_cong) (simp_all add: s')
  have "records_of ?n (accepted s) = []" "records_of ?n (written s) = []"
    using ok(1) by (auto simp: queues_ok_def intro: records_of_fresh)
  moreover have "pending s ?n = []" using ok(2) by (auto simp: pending_def refs_ok_def split: list.split)
  ultimately have "queues_ok s'" unfolding queues_ok_def p
    using ok(1) by (auto simp: s' queues_ok_def nth_append new_queue less_Suc_eq)
  moreover have "refs_ok s'" using ok(2) by (auto simp: s' refs_ok_def ran_def)
  ultimately show ?thesis using ok(3) by (simp add: s' logger_inv_def output_ok_def)
next
  case (Some j)
  with assms show ?thesis by (auto simp: get_queue_ptr_def logger_inv_def refs_ok_def ran_def)
qed

lemma log_push_total:
  assumes "logger_inv localtime s"
  shows "\<exists>s'. log_push s t r = Inr s' \<and> logger_inv localtime s'"
proof -
  obtain i s1 where g: "get_queue_ptr s t = (i, s1)" by fastforce
  have inv1: "logger_inv localtime s1" and i: "i < length (m_queues s1)" using get_queue_ptr_ok [OF assms g] by simp_all
  then have ok: "queues_ok s1" "refs_ok s1" "output_ok localtime s1" by (simp_all add: logger_inv_def)
  let ?q = "m_queues s1 ! i"
  have inv: "spsc_inv QUEUE_SIZE ?q" using ok i by (simp add: queues_ok_def)
  show ?thesis
  proof (cases "length (spsc_contents QUEUE_SIZE ?q) < unat QUEUE_SIZE")
    case True
    from spsc.push_room [OF inv True] obtain q where
      q: "spsc_push QUEUE_SIZE ?q r = Inr (True, q)" "spsc_inv QUEUE_SIZE q"
      "spsc_contents QUEUE_SIZE q = spsc_contents QUEUE_SIZE ?q @ [r]" by blast
    let ?s = "s1\<lparr>m_queues := (m_queues s1)[i := q], accepted := accepted s1 @ [(i, r)]\<rparr>"
    have p: "pending ?s = pending s1" by (rule pending_cong) simp_all
    have "queues_ok ?s" unfolding queues_ok_def p using ok(1) i q by (auto simp: queues_ok_def nth_list_update)
    moreover have "refs_ok ?s" "output_ok localtime ?s" using ok by (auto simp: refs_ok_def output_ok_def short_lines_def)
    ultimately show ?thesis using q(1) g by (simp add: log_push_def logger_inv_def)
  next
    case False
    have same: "s1\<lparr>m_queues := (m_queues s1)[i := ?q], accepted := accepted s1\<rparr> = s1" by simp
    from spsc.push_full [OF inv False] inv1 g same show ?thesis by (simp add: log_push_def)
  qed
qed

text \<open>What the consumer leaves alone while it works on queue \<open>i\<close>.\<close>

definition consumer_frame :: "nat \<Rightarrow> logger \<Rightarrow> logger \<Rightarrow> bool" where
  "consumer_frame i s s' \<longleftrightarrow> accepted s' = accepted s \<and> q_snapshot s' = q_snapshot s \<and> phase s' = phase s \<and>
     stop_requested s' = stop_requested s \<and> length (m_queues s') = length (m_queues s) \<and>
     (\<forall>j. j \<noteq> i \<longrightarrow> records_of j (written s') = records_of j (written s))"

lemma consumer_frame_trans: "consumer_frame i s t \<Longrightarrow> consumer_frame i t u \<Longrightarrow> consumer_frame i s u"
  by (simp add: consumer_frame_def)

lemma short_pending:
  assumes "queues_ok s" "remaining s = i # is" "i < length (m_queues s)" "short_lines localtime (accepted s)"
  shows "list_all (\<lambda>r. length (log_text localtime r) < LINE_SIZE) (out_list s)"
proof -
  have "(i, r) \<in> set (accepted s)" if "r \<in> set (out_list s)" for r
    using assms that set_records_of [of r i "accepted s"] by (auto simp: queues_ok_def pending_def)
  with assms(4) show ?thesis by (force simp: short_lines_def list_all_iff)
qed

lemma flush_list_total:
  assumes "queues_ok s" "remaining s = i # is" "i < length (m_queues s)" "short_lines localtime (accepted s)"
  shows "\<exists>s'. flush_list localtime i s = Inr s'"
  using flush_text [OF short_pending [OF assms]] by (simp add: flush_list_def)

lemma flush_list_ok:
  assumes ok: "queues_ok s" "output_ok localtime s" and rem: "remaining s = i # is" and i: "i < length (m_queues s)"
    and s': "flush_list localtime i s = Inr s'"
  shows "queues_ok s' \<and> output_ok localtime s' \<and> out_list s' = [] \<and> remaining s' = remaining s \<and>
    m_queues s' = m_queues s \<and> thread_queue s' = thread_queue s \<and> consumer_frame i s s'"
proof -
  obtain out where out: "flush localtime (out_list s) (stdout s) = Inr out"
    and e: "s' = s\<lparr>stdout := out, out_list := [], written := written s @ map (Pair i) (out_list s)\<rparr>"
    using s' by (auto simp: flush_list_def bind_res_eq_Inr)
  have p: "pending s j = (if j = i then out_list s else [])" for j using rem by (simp add: pending_def)
  have "queues_ok s'" using ok(1) i by (auto simp: queues_ok_def p e)
  moreover have "stdout s' = concat (map (\<lambda>(i, r). log_text localtime r) (written s'))" if "short_lines localtime (accepted s')"
  proof -
    have sh: "short_lines localtime (accepted s)" using that by (simp add: e)
    with ok(2) out flush_text [OF short_pending [OF ok(1) rem i sh], of "stdout s"] show ?thesis
      by (simp add: e output_ok_def comp_def)
  qed
  ultimately show ?thesis by (auto simp: e output_ok_def consumer_frame_def)
qed

text \<open>A pop moves the front record of the queue to the end of the buffer.\<close>

lemma pop_ok:
  assumes ok: "queues_ok s" "output_ok localtime s" and rem: "remaining s = i # is" and i: "i < length (m_queues s)"
    and c: "spsc_contents QUEUE_SIZE (m_queues s ! i) = r # rs"
  shows "\<exists>q. spsc_pop QUEUE_SIZE (m_queues s ! i) = Inr (Some r, q) \<and> spsc_contents QUEUE_SIZE q = rs \<and>
    queues_ok (s\<lparr>m_queues := (m_queues s)[i := q], out_list := out_list s @ [r]\<rparr>) \<and>
    output_ok localtime (s\<lparr>m_queues := (m_queues s)[i := q], out_list := out_list s @ [r]\<rparr>)"
proof -
  have "spsc_inv QUEUE_SIZE (m_queues s ! i)" using ok(1) i by (simp add: queues_ok_def)
  from spsc.pop_some [OF this c] obtain q where
    q: "spsc_pop QUEUE_SIZE (m_queues s ! i) = Inr (Some r, q)" "spsc_inv QUEUE_SIZE q" "spsc_contents QUEUE_SIZE q = rs" by blast
  have "queues_ok (s\<lparr>m_queues := (m_queues s)[i := q], out_list := out_list s @ [r]\<rparr>)"
    using ok(1) i q(2,3) c rem by (auto simp: queues_ok_def nth_list_update pending_def)
  with q ok(2) show ?thesis by (auto simp: output_ok_def)
qed

lemma logger_step_take:
  assumes inv: "logger_inv localtime s" and rem: "remaining s = i # is"
    and c: "spsc_contents QUEUE_SIZE (m_queues s ! i) = r # rs"
  shows "\<exists>q. spsc_pop QUEUE_SIZE (m_queues s ! i) = Inr (Some r, q) \<and>
    (let s1 = s\<lparr>m_queues := (m_queues s)[i := q]\<rparr> in
     (\<forall>s'. buffer_record localtime i r s1 = Inr s' \<longrightarrow> logger_inv localtime s' \<and> consumer_frame i s s' \<and>
        remaining s' = i # is \<and> spsc_contents QUEUE_SIZE (m_queues s' ! i) = rs) \<and>
     (short_lines localtime (accepted s) \<longrightarrow> (\<exists>s'. buffer_record localtime i r s1 = Inr s')))"
proof -
  have ok: "queues_ok s" "refs_ok s" "output_ok localtime s" using inv by (simp_all add: logger_inv_def)
  then have i: "i < length (m_queues s)" using rem by (auto simp: refs_ok_def)
  from pop_ok [OF ok(1,3) rem i c] obtain q where
    q: "spsc_pop QUEUE_SIZE (m_queues s ! i) = Inr (Some r, q)" "spsc_contents QUEUE_SIZE q = rs"
    and ok2: "queues_ok (s\<lparr>m_queues := (m_queues s)[i := q], out_list := out_list s @ [r]\<rparr>)" (is "queues_ok ?s")
      "output_ok localtime (s\<lparr>m_queues := (m_queues s)[i := q], out_list := out_list s @ [r]\<rparr>)" by blast
  have b: "buffer_record localtime i r (s\<lparr>m_queues := (m_queues s)[i := q]\<rparr>) =
      (if OUT_LIST_SIZE \<le> Suc (length (out_list s)) then flush_list localtime i ?s else Inr ?s)"
    by (simp add: buffer_record_def Let_def)
  have rem2: "remaining ?s = i # is" and i2: "i < length (m_queues ?s)" using rem i by simp_all
  have "logger_inv localtime s' \<and> consumer_frame i s s' \<and> remaining s' = i # is \<and> spsc_contents QUEUE_SIZE (m_queues s' ! i) = rs"
    if "(if OUT_LIST_SIZE \<le> Suc (length (out_list s)) then flush_list localtime i ?s else Inr ?s) = Inr s'" for s'
  proof (cases "OUT_LIST_SIZE \<le> Suc (length (out_list s))")
    case True
    with that have "flush_list localtime i ?s = Inr s'" by simp
    from flush_list_ok [OF ok2 rem2 i2 this] ok(2) i q(2) rem show ?thesis
      by (auto simp: logger_inv_def refs_ok_def consumer_frame_def OUT_LIST_SIZE_def)
  next
    case False
    with that have "s' = ?s" by simp
    with ok2 ok(2) False q(2) i rem show ?thesis by (auto simp: logger_inv_def refs_ok_def consumer_frame_def)
  qed
  moreover have "\<exists>s'. flush_list localtime i ?s = Inr s'" if "short_lines localtime (accepted s)"
    using flush_list_total [OF ok2(1) rem2 i2] that by simp
  ultimately show ?thesis using q(1) by (intro exI [of _ q]) (simp add: b)
qed

lemma logger_step_next:
  assumes inv: "logger_inv localtime s" and rem: "remaining s = i # is"
    and c: "spsc_contents QUEUE_SIZE (m_queues s ! i) = []"
  shows "spsc_pop QUEUE_SIZE (m_queues s ! i) = Inr (None, m_queues s ! i) \<and>
     (\<forall>s'. end_queue localtime i s = Inr s' \<longrightarrow> logger_inv localtime (s'\<lparr>remaining := is\<rparr>) \<and> consumer_frame i s s' \<and>
        records_of i (written s') = records_of i (accepted s)) \<and>
     (short_lines localtime (accepted s) \<longrightarrow> (\<exists>s'. end_queue localtime i s = Inr s'))"
proof -
  have ok: "queues_ok s" "refs_ok s" "output_ok localtime s" using inv by (simp_all add: logger_inv_def)
  then have i: "i < length (m_queues s)" using rem by (auto simp: refs_ok_def)
  then have "spsc_inv QUEUE_SIZE (m_queues s ! i)" using ok by (simp add: queues_ok_def)
  from spsc.pop_none [OF this c] have pop: "spsc_pop QUEUE_SIZE (m_queues s ! i) = Inr (None, m_queues s ! i)" .
  have "queues_ok s' \<and> output_ok localtime s' \<and> out_list s' = [] \<and> remaining s' = remaining s \<and>
      m_queues s' = m_queues s \<and> thread_queue s' = thread_queue s \<and> consumer_frame i s s'" if "end_queue localtime i s = Inr s'" for s'
  proof (cases "out_list s = []")
    case True
    with that ok show ?thesis by (simp add: end_queue_def consumer_frame_def)
  next
    case False
    with that have "flush_list localtime i s = Inr s'" by (simp add: end_queue_def)
    from flush_list_ok [OF ok(1,3) rem i this] show ?thesis .
  qed
  note e = this
  have "logger_inv localtime (s'\<lparr>remaining := is\<rparr>) \<and> consumer_frame i s s' \<and> records_of i (written s') = records_of i (accepted s)"
    if "end_queue localtime i s = Inr s'" for s'
  proof -
    note f = e [OF that]
    have "records_of i (accepted s') =
        records_of i (written s') @ pending s' i @ spsc_contents QUEUE_SIZE (m_queues s' ! i)"
      using f i by (simp add: queues_ok_def)
    then have "records_of i (written s') = records_of i (accepted s)"
      using f c by (simp add: consumer_frame_def)
    moreover have "queues_ok s'" "out_list s' = []" using f by simp_all
    then have "queues_ok (s'\<lparr>remaining := is\<rparr>)" by (simp add: queues_ok_def)
    moreover have "output_ok localtime (s'\<lparr>remaining := is\<rparr>)" using f by (simp add: output_ok_def)
    moreover have "refs_ok (s'\<lparr>remaining := is\<rparr>)" using f ok(2) rem by (simp add: refs_ok_def consumer_frame_def)
    ultimately show ?thesis using f by (simp add: logger_inv_def)
  qed
  moreover have "\<exists>s'. end_queue localtime i s = Inr s'" if "short_lines localtime (accepted s)"
    using flush_list_total [OF ok(1) rem i that] by (simp add: end_queue_def)
  ultimately show ?thesis using pop by blast
qed

lemma queue_same [simp]: "s\<lparr>m_queues := (m_queues s)[i := m_queues s ! i]\<rparr> = (s :: logger)"
  by simp

lemma logger_inv_refs:
  assumes "logger_inv localtime s" "m_queues t = m_queues s" "accepted t = accepted s" "written t = written s"
    "stdout t = stdout s" "refs_ok t" "pending t = pending s"
  shows "logger_inv localtime t"
  using assms by (simp add: logger_inv_def queues_ok_def output_ok_def)

interpretation lg: inductive_invariant "\<lambda>s. s = logger_start" "logger_step localtime" "logger_inv localtime" for localtime
proof
  show "logger_inv localtime s" if "s = logger_start" for s
    using that by (simp add: logger_inv_def logger_start_def queues_ok_def refs_ok_def output_ok_def OUT_LIST_SIZE_def)
  fix s s' assume inv: "logger_inv localtime s" and st: "logger_step localtime s s'"
  have refs: "refs_ok s" using inv by (simp add: logger_inv_def)
  from st show "logger_inv localtime s'"
  proof cases
    case (lg_log t r)
    with log_push_total [OF inv, of t r] show ?thesis by auto
  next
    case (lg_take i "is" r q)
    show ?thesis
    proof (cases "spsc_contents QUEUE_SIZE (m_queues s ! i)")
      case Nil
      from logger_step_next [OF inv lg_take(1) Nil] lg_take(2) show ?thesis by simp
    next
      case (Cons x xs)
      from logger_step_take [OF inv lg_take(1) Cons] lg_take(2,3) show ?thesis by (auto simp: Let_def)
    qed
  next
    case (lg_next i "is" q s1)
    show ?thesis
    proof (cases "spsc_contents QUEUE_SIZE (m_queues s ! i)")
      case Nil
      from logger_step_next [OF inv lg_next(2) Nil] lg_next(1,3,4) show ?thesis by simp
    next
      case (Cons x xs)
      from logger_step_take [OF inv lg_next(2) Cons] lg_next(3) show ?thesis by simp
    qed
  qed (use refs in \<open>intro logger_inv_refs [OF inv]; auto simp: refs_ok_def pending_def fun_eq_iff split: list.split\<close>)+
qed

section \<open>Shutdown\<close>

lemma bind_run_Some [simp]: "bind_run (Inr (Some s)) f = f s"
  by (simp add: bind_run_def)

lemma drain_queue_exact:
  "logger_inv localtime s \<Longrightarrow> short_lines localtime (accepted s) \<Longrightarrow> remaining s = i # is \<Longrightarrow>
   length (spsc_contents QUEUE_SIZE (m_queues s ! i)) < n \<Longrightarrow>
   \<exists>s'. drain_queue localtime n i s = Inr (Some s') \<and> logger_inv localtime (s'\<lparr>remaining := is\<rparr>) \<and> consumer_frame i s s' \<and>
     records_of i (written s') = records_of i (accepted s) \<and> (logger_step localtime)\<^sup>*\<^sup>* s (s'\<lparr>remaining := is\<rparr>)"
proof (induction n arbitrary: s)
  case (Suc n)
  note prems = Suc.prems
  show ?case
  proof (cases "spsc_contents QUEUE_SIZE (m_queues s ! i)")
    case Nil
    note nx = logger_step_next [OF prems(1,3) Nil]
    with prems(2) obtain s' where s': "end_queue localtime i s = Inr s'" by blast
    then have "logger_step localtime s (s'\<lparr>remaining := is\<rparr>)"
      using nx prems(3) by (intro lg_next [of s i "is" "m_queues s ! i"]) simp_all
    with nx s' show ?thesis by (intro exI [of _ s']) auto
  next
    case (Cons r rs)
    from logger_step_take [OF prems(1,3) Cons] prems(2) obtain q s1 where
      q: "spsc_pop QUEUE_SIZE (m_queues s ! i) = Inr (Some r, q)"
      and b: "buffer_record localtime i r (s\<lparr>m_queues := (m_queues s)[i := q]\<rparr>) = Inr s1"
      and s1: "logger_inv localtime s1" "consumer_frame i s s1" "remaining s1 = i # is"
        "spsc_contents QUEUE_SIZE (m_queues s1 ! i) = rs" by (auto simp: Let_def)
    have st: "logger_step localtime s s1" using prems(3) q b by (rule lg_take)
    have a: "accepted s1 = accepted s" using s1(2) by (simp add: consumer_frame_def)
    from Suc.IH [OF s1(1) _ s1(3)] prems(2,4) Cons s1(4) a obtain s' where
      s': "drain_queue localtime n i s1 = Inr (Some s')" "logger_inv localtime (s'\<lparr>remaining := is\<rparr>)" "consumer_frame i s1 s'"
        "records_of i (written s') = records_of i (accepted s)" "(logger_step localtime)\<^sup>*\<^sup>* s1 (s'\<lparr>remaining := is\<rparr>)" by auto
    have "drain_queue localtime (Suc n) i s = Inr (Some s')" using q b s'(1) by simp
    with s' st consumer_frame_trans [OF s1(2) s'(3)] show ?thesis
      by (intro exI [of _ s']) (auto intro: converse_rtranclp_into_rtranclp)
  qed
qed simp

lemma drain_exact:
  "logger_inv localtime s \<Longrightarrow> short_lines localtime (accepted s) \<Longrightarrow> remaining s = is \<Longrightarrow>
   \<exists>s'. drain localtime is s = Inr (Some s') \<and> logger_inv localtime s' \<and> remaining s' = [] \<and> (logger_step localtime)\<^sup>*\<^sup>* s s' \<and>
     accepted s' = accepted s \<and> q_snapshot s' = q_snapshot s \<and> phase s' = phase s \<and> stop_requested s' = stop_requested s \<and>
     (\<forall>j. records_of j (written s') = records_of j (if j \<in> set is then accepted s else written s))"
proof (induction "is" arbitrary: s)
  case (Cons i "is")
  have "i < length (m_queues s)" using Cons.prems by (auto simp: logger_inv_def refs_ok_def)
  then have "spsc_inv QUEUE_SIZE (m_queues s ! i)" using Cons.prems(1) by (simp add: logger_inv_def queues_ok_def)
  from drain_queue_exact [OF Cons.prems contents_fuel [OF this]] obtain s1 where
    s1: "drain_queue localtime drain_fuel i s = Inr (Some s1)" "logger_inv localtime (s1\<lparr>remaining := is\<rparr>)"
    and f: "consumer_frame i s s1" and w: "records_of i (written s1) = records_of i (accepted s)"
    and st: "(logger_step localtime)\<^sup>*\<^sup>* s (s1\<lparr>remaining := is\<rparr>)" by blast
  have "short_lines localtime (accepted (s1\<lparr>remaining := is\<rparr>))" using f Cons.prems(2) by (simp add: consumer_frame_def)
  from Cons.IH [OF s1(2) this] obtain s' where
    s': "drain localtime is (s1\<lparr>remaining := is\<rparr>) = Inr (Some s')" "logger_inv localtime s'" "remaining s' = []"
      "(logger_step localtime)\<^sup>*\<^sup>* (s1\<lparr>remaining := is\<rparr>) s'" "accepted s' = accepted s" "q_snapshot s' = q_snapshot s"
      "phase s' = phase s" "stop_requested s' = stop_requested s"
      "\<forall>j. records_of j (written s') = records_of j (if j \<in> set is then accepted s else written s1)"
    using f by (auto simp: consumer_frame_def)
  have "records_of j (written s') = records_of j (if j \<in> set (i # is) then accepted s else written s)" for j
    using s'(9) w f by (auto simp: consumer_frame_def)
  with s' s1(1) rtranclp_trans [OF st s'(4)] show ?case by (intro exI [of _ s']) simp
qed auto

text \<open>After a stop request the consumer ends, on its own, in a run of the step relation.\<close>

lemma run_rest_exact:
  assumes "logger_inv localtime s" "short_lines localtime (accepted s)" "phase s = Looping" "stop_requested s"
  shows "\<exists>s'. run_rest localtime s = Inr (Some s') \<and> logger_inv localtime s' \<and> phase s' = Stopped \<and>
    (logger_step localtime)\<^sup>*\<^sup>* s s' \<and> accepted s' = accepted s \<and>
    (\<forall>j. records_of j (written s') = records_of j (if j \<in> set (q_snapshot s) then accepted s else written s))"
proof -
  from drain_exact [OF assms(1,2) refl] obtain s1 where
    s1: "drain localtime (remaining s) s = Inr (Some s1)" "logger_inv localtime s1" "remaining s1 = []"
      "(logger_step localtime)\<^sup>*\<^sup>* s s1" "accepted s1 = accepted s" "q_snapshot s1 = q_snapshot s" "phase s1 = Looping" "stop_requested s1"
      "\<forall>j. records_of j (written s1) = records_of j (if j \<in> set (remaining s) then accepted s else written s)"
    using assms(3,4) by auto
  let ?s = "s1\<lparr>phase := Final, remaining := q_snapshot s1\<rparr>"
  have f: "logger_step localtime s1 ?s" using s1 by (intro lg_final) simp_all
  have sh: "short_lines localtime (accepted ?s)" using s1(5) assms(2) by simp
  from drain_exact [OF lg.inv_step [OF s1(2) f] sh refl] obtain s2 where
    s2: "drain localtime (q_snapshot s) ?s = Inr (Some s2)" "logger_inv localtime s2" "remaining s2 = []"
      "(logger_step localtime)\<^sup>*\<^sup>* ?s s2" "accepted s2 = accepted s" "phase s2 = Final"
      "\<forall>j. records_of j (written s2) = records_of j (if j \<in> set (q_snapshot s) then accepted s else written s1)"
    using s1(5,6) by auto
  let ?t = "s2\<lparr>phase := Stopped\<rparr>"
  have x: "logger_step localtime s2 ?t" using s2 by (intro lg_exit) simp_all
  have "(logger_step localtime)\<^sup>*\<^sup>* s ?t" using s1(4) f s2(4) x by (meson rtranclp.rtrancl_into_rtrancl rtranclp_trans)
  moreover have "run_rest localtime s = Inr (Some ?t)" using s1 s2(1) assms(3) by (simp add: run_rest_def run_final_def)
  moreover have "set (remaining s) \<subseteq> set (q_snapshot s)" using assms(1) by (simp add: logger_inv_def refs_ok_def)
  then have "records_of j (written ?t) = records_of j (if j \<in> set (q_snapshot s) then accepted s else written s)" for j
    using s1(9) s2(7) by auto
  ultimately show ?thesis using lg.inv_step [OF s2(2) x] s2(5) by (intro exI [of _ ?t]) simp
qed

lemma delete_queues_ok: "list_all (spsc_inv QUEUE_SIZE) qs \<Longrightarrow> delete_queues qs = Inr ()"
  by (induction qs) (simp_all add: spsc_destructor_raw)

lemma destructor_exact:
  assumes "logger_inv localtime s" "short_lines localtime (accepted s)" "phase s = Looping"
  shows "\<exists>s' t. logger_destructor localtime s = Inr (Some s') \<and> m_queues s' = [] \<and>
      stdout s' = concat (map (\<lambda>(i, r). log_text localtime r) (written s')) \<and>
      (\<forall>i. records_of i (written s') = records_of i (if i \<in> set (q_snapshot s) then accepted s else written s)) \<and>
      (logger_step localtime)\<^sup>*\<^sup>* s t \<and> phase t = Stopped \<and> s' = t\<lparr>m_queues := []\<rparr>"
proof -
  let ?s = "s\<lparr>stop_requested := True\<rparr>"
  have st: "logger_step localtime s ?s" by (rule lg_stop)
  note inv = lg.inv_step [OF assms(1) st]
  from run_rest_exact [OF inv] assms(2,3) obtain t where
    t: "run_rest localtime ?s = Inr (Some t)" "logger_inv localtime t" "phase t = Stopped" "(logger_step localtime)\<^sup>*\<^sup>* ?s t"
      "accepted t = accepted s"
      "\<forall>i. records_of i (written t) = records_of i (if i \<in> set (q_snapshot s) then accepted s else written s)" by auto
  have "list_all (spsc_inv QUEUE_SIZE) (m_queues t)" using t(2) by (simp add: logger_inv_def queues_ok_def list_all_length)
  then have "logger_destructor localtime s = Inr (Some (t\<lparr>m_queues := []\<rparr>))"
    using t(1) by (simp add: logger_destructor_def delete_queues_ok)
  moreover have "stdout t = concat (map (\<lambda>(i, r). log_text localtime r) (written t))"
    using t(2,5) assms(2) by (simp add: logger_inv_def output_ok_def)
  ultimately show ?thesis using t(3,6) converse_rtranclp_into_rtranclp [OF st t(4)]
    by (intro exI [of _ "t\<lparr>m_queues := []\<rparr>"] exI [of _ t]) simp
qed

section \<open>Properties\<close>

text \<open>
  C37. Every message arrives. In every interleaving of logging threads and consumer, a
  thread's accepted messages are the ones written so far, then the ones the consumer has
  buffered, then the ones in its queue, in the order they were logged, and the output is the
  sequence of written lines. From every such state in which the consumer still loops, and when
  no thread logs any more, the destructor returns and frees every queue; by then all accepted
  messages of the queues in the consumer's last snapshot are written, in order; of a queue
  that was registered after that snapshot nothing more is written, its messages are lost. The
  consumer's part of the shutdown is a run of the step relation.\<close>

theorem logger_delivers:
  assumes "reach (\<lambda>s. s = logger_start) (logger_step localtime) s" and "short_lines localtime (accepted s)"
  shows "(\<forall>i<length (m_queues s). records_of i (accepted s) =
        records_of i (written s) @ pending s i @ spsc_contents QUEUE_SIZE (m_queues s ! i)) \<and>
    stdout s = concat (map (\<lambda>(i, r). log_text localtime r) (written s)) \<and>
    (phase s = Looping \<longrightarrow> (\<exists>s' t. logger_destructor localtime s = Inr (Some s') \<and> m_queues s' = [] \<and>
      stdout s' = concat (map (\<lambda>(i, r). log_text localtime r) (written s')) \<and>
      (\<forall>i. records_of i (written s') = records_of i (if i \<in> set (q_snapshot s) then accepted s else written s)) \<and>
      (logger_step localtime)\<^sup>*\<^sup>* s t \<and> phase t = Stopped \<and> s' = t\<lparr>m_queues := []\<rparr>))"
proof -
  note inv = lg.reach_inv [OF assms(1)]
  have "(\<forall>i<length (m_queues s). records_of i (accepted s) =
        records_of i (written s) @ pending s i @ spsc_contents QUEUE_SIZE (m_queues s ! i)) \<and>
      stdout s = concat (map (\<lambda>(i, r). log_text localtime r) (written s))"
    using inv assms(2) by (simp add: logger_inv_def queues_ok_def output_ok_def)
  with destructor_exact [OF inv assms(2)] show ?thesis by simp
qed

lemma log_push_first:
  "\<exists>s. log_push logger_start t r = Inr s \<and> accepted s = [(0, r)] \<and> written s = [] \<and> length (m_queues s) = 1 \<and>
     phase s = Looping \<and> remaining s = [] \<and> out_list s = [] \<and> \<not> stop_requested s \<and> q_snapshot s = [] \<and>
     logger_step localtime logger_start s"
proof -
  have "length (spsc_contents QUEUE_SIZE (spsc_new QUEUE_SIZE :: log_record spsc)) < unat QUEUE_SIZE"
    using pow2_pos [OF QUEUE_SIZE_pow2] by (simp add: new_queue)
  from spsc.push_room [OF new_queue(1) this, of r] show ?thesis
    by (auto simp: log_push_def get_queue_ptr_def register_thread_def logger_start_def intro!: lg_log [of _ t r])
qed

definition utc :: "nat \<Rightarrow> tm" where
  "utc _ = \<lparr>tm_hour = 0, tm_min = 0, tm_sec = 0, tm_zone = ''UTC''\<rparr>"

definition hello :: log_record where
  "hello = make_record INFO \<lparr>file_name = ''src/main.cc'', function_name = ''int main()'', line_no = 7\<rparr> 5 ''hello''"

lemma hello_short: "length (log_text utc hello) < LINE_SIZE"
  using log_text_bound [of utc hello] by (simp add: hello_def make_record_def after_last_def LINE_SIZE_def BUFF_SIZE_def)

theorem logger_delivers_witness:
  "\<exists>s s'. reach (\<lambda>s. s = logger_start) (logger_step utc) s \<and> accepted s = [(0, hello)] \<and> written s = [] \<and> q_snapshot s = [0] \<and>
     logger_destructor utc s = Inr (Some s') \<and> records_of 0 (written s') = [hello]"
proof -
  obtain s where s: "accepted s = [(0, hello)]" "written s = []" "length (m_queues s) = 1"
    "phase s = Looping" "remaining s = []" "\<not> stop_requested s" "logger_step utc logger_start s" using log_push_first by blast
  let ?s = "s\<lparr>q_snapshot := [0..<length (m_queues s)], remaining := [0..<length (m_queues s)]\<rparr>"
  have "logger_step utc s ?s" using s by (intro lg_snapshot) simp_all
  with s(7) have r: "reach (\<lambda>s. s = logger_start) (logger_step utc) ?s"
    by (intro reach_step [of _ _ s ?s] reach_step [of _ _ logger_start s] reach_init) simp_all
  have sh: "short_lines utc (accepted ?s)" using s(1) hello_short by (simp add: short_lines_def)
  from logger_delivers [OF r sh] s(4) obtain s' where
    s': "logger_destructor utc ?s = Inr (Some s')"
      "\<forall>i. records_of i (written s') = records_of i (if i \<in> set (q_snapshot ?s) then accepted ?s else written ?s)" by auto
  have "records_of 0 (written s') = [hello]" using s'(2) s(1,3) by simp
  with r s s'(1) show ?thesis by (intro exI [of _ ?s] exI [of _ s']) simp
qed

text \<open>
  C38. What a line can carry. \<^verbatim>\<open>_log\<close> keeps the first 511 characters of a message and stores
  the number kept, reduced modulo \<open>2 ^ 16\<close> first; with a base file name of at most 327
  characters the line is written in full; a line of more than 1024 characters is read past the
  end of its buffer.\<close>

theorem log_line_bounds:
  "buff (make_record lev l now text) = take 511 text \<and>
   unat (buff_size (make_record lev l now text)) = min (length text mod 2 ^ 16) 511 \<and>
   (length (after_last CHR ''/'' (file_name l)) \<le> 327 \<longrightarrow>
      write_line localtime out (make_record lev l now text) = Inr (out @ log_text localtime (make_record lev l now text))) \<and>
   (1024 < length (log_text localtime r) \<longrightarrow> write_line localtime out r = Inl OutOfBounds)"
proof (intro conjI impI)
  let ?r = "make_record lev l now text"
  show b: "buff ?r = take 511 text" by (simp add: make_record_def BUFF_SIZE_def)
  have "unat (min (of_nat (length text)) (of_nat 511) :: u16_t) =
      min (unat (of_nat (length text) :: u16_t)) (unat (of_nat 511 :: u16_t))"
    by (auto simp: min_def word_le_nat_alt)
  then show "unat (buff_size ?r) = min (length text mod 2 ^ 16) 511"
    by (simp add: make_record_def BUFF_SIZE_def unat_of_nat take_bit_eq_mod)
  show "write_line localtime out ?r = Inr (out @ log_text localtime ?r)"
    if "length (after_last CHR ''/'' (file_name l)) \<le> 327"
  proof (rule write_line_text)
    have "loc ?r = l" by (simp add: make_record_def)
    with that b log_text_bound [of localtime ?r] show "length (log_text localtime ?r) < LINE_SIZE"
      by (simp add: LINE_SIZE_def BUFF_SIZE_def)
  qed
  show "write_line localtime out r = Inl OutOfBounds" if "1024 < length (log_text localtime r)"
    using that by (simp add: write_line_def serialize_def snprintf_def LINE_SIZE_def BUFF_SIZE_def)
qed

theorem log_line_bounds_witness:
  "unat (buff_size (make_record INFO \<lparr>file_name = ''a'', function_name = ''f'', line_no = 1\<rparr> 0 (replicate 65536 CHR ''x''))) = 0 \<and>
   write_line (\<lambda>_. \<lparr>tm_hour = 0, tm_min = 0, tm_sec = 0, tm_zone = ''UTC''\<rparr>) []
     (make_record INFO \<lparr>file_name = ''a'', function_name = ''f'', line_no = 1\<rparr> 0 ''x'') =
   Inr (log_text (\<lambda>_. \<lparr>tm_hour = 0, tm_min = 0, tm_sec = 0, tm_zone = ''UTC''\<rparr>)
     (make_record INFO \<lparr>file_name = ''a'', function_name = ''f'', line_no = 1\<rparr> 0 ''x''))"
  using log_line_bounds [of INFO "\<lparr>file_name = ''a'', function_name = ''f'', line_no = 1\<rparr>" 0 "replicate 65536 CHR ''x''"]
    log_line_bounds [of INFO "\<lparr>file_name = ''a'', function_name = ''f'', line_no = 1\<rparr>" 0 "''x''"
      "\<lambda>_. \<lparr>tm_hour = 0, tm_min = 0, tm_sec = 0, tm_zone = ''UTC''\<rparr>" "[]"]
  by (simp add: after_last_def)

end
