(* ===== verification/Socket_IO.thy ===== *)
theory Socket_IO
  imports Fiah_Prelude "HOL-Library.Multiset"
begin

text \<open>
  Sockets: the owning descriptor of \<^verbatim>\<open>include/fiah/io/Socket.hh\<close> and its clients \<^verbatim>\<open>Tcp.hh\<close>,
  \<^verbatim>\<open>TcpServer.hh\<close>, \<^verbatim>\<open>TcpClient.hh\<close> and \<^verbatim>\<open>Udp.hh\<close>. The state of the operating system is the list of
  open descriptors; its calls are a parameter \<open>kernel\<close> whose answers are arbitrary except that
  a new descriptor is not one that is open. Logging and timing calls are left out.
\<close>

section \<open>Operating system\<close>

record os = open_fds :: "int list"

record sockaddr_in =
  sin_port :: u16_t
  sin_addr :: u32_t

record kernel =
  k_socket :: "os \<Rightarrow> int"
  k_accept :: "os \<Rightarrow> int \<Rightarrow> int"
  k_bind :: "os \<Rightarrow> int \<Rightarrow> sockaddr_in \<Rightarrow> int"
  k_listen :: "os \<Rightarrow> int \<Rightarrow> nat \<Rightarrow> int"
  k_connect :: "os \<Rightarrow> int \<Rightarrow> sockaddr_in \<Rightarrow> int"
  k_send :: "os \<Rightarrow> int \<Rightarrow> string \<Rightarrow> nat \<Rightarrow> int"
  k_recv :: "os \<Rightarrow> int \<Rightarrow> nat \<Rightarrow> nat \<Rightarrow> int"
  k_sendto :: "os \<Rightarrow> int \<Rightarrow> string \<Rightarrow> nat \<Rightarrow> sockaddr_in \<Rightarrow> int"
  k_recvfrom :: "os \<Rightarrow> int \<Rightarrow> nat \<Rightarrow> nat \<Rightarrow> int \<times> sockaddr_in"
  k_inet_addr :: "string \<Rightarrow> u32_t"
  k_inet_pton :: "string \<Rightarrow> int \<times> u32_t"

text \<open>A descriptor a call returns is fresh: negative on failure, else not open before the call.\<close>

definition fresh_fd :: "os \<Rightarrow> int \<Rightarrow> bool" where
  "fresh_fd s fd \<longleftrightarrow> fd < 0 \<or> fd \<notin> set (open_fds s)"

definition kernel_ok :: "kernel \<Rightarrow> bool" where
  "kernel_ok k \<longleftrightarrow> (\<forall>s. fresh_fd s (k_socket k s)) \<and> (\<forall>s fd. fresh_fd s (k_accept k s fd))"

definition os_open :: "os \<Rightarrow> int \<Rightarrow> os" where
  "os_open s fd = (if fd < 0 then s else s\<lparr>open_fds := fd # open_fds s\<rparr>)"

text \<open>Closing a descriptor that is not open is a double close.\<close>

definition os_close :: "os \<Rightarrow> int \<Rightarrow> os res" where
  "os_close s fd = (if fd \<in> set (open_fds s) then Inr (s\<lparr>open_fds := remove1 fd (open_fds s)\<rparr>) else Inl DoubleFree)"

text \<open>\<^verbatim>\<open>htons\<close> on a little-endian machine.\<close>

definition htons :: "u16_t \<Rightarrow> u16_t" where
  "htons x = push_bit 8 x OR drop_bit 8 x"

section \<open>Socket\<close>

text \<open>A socket is its descriptor.\<close>

definition Socket :: int where
  "Socket = - 1"

definition Socket_fd :: "int \<Rightarrow> int" where
  "Socket_fd fd = fd"

definition sock_valid :: "int \<Rightarrow> bool" where
  "sock_valid m_fd \<longleftrightarrow> m_fd \<ge> 0"

definition close_if_valid :: "os \<Rightarrow> int \<Rightarrow> os res" where
  "close_if_valid s m_fd = (if m_fd \<ge> 0 then os_close s m_fd else Inr s)"

text \<open>The results are the new socket, then the one moved from.\<close>

definition sock_move :: "int \<Rightarrow> int \<times> int" where
  "sock_move other = (other, - 1)"

definition sock_move_assign :: "os \<Rightarrow> bool \<Rightarrow> int \<Rightarrow> int \<Rightarrow> (os \<times> int \<times> int) res" where
  "sock_move_assign s same m_fd other =
     (if \<not> same then bind_res (close_if_valid s m_fd) (\<lambda>s. Inr (s, other, - 1)) else Inr (s, m_fd, other))"

definition sock_destructor :: "os \<Rightarrow> int \<Rightarrow> os res" where
  "sock_destructor s m_fd = close_if_valid s m_fd"

definition sock_assign :: "os \<Rightarrow> int \<Rightarrow> int \<Rightarrow> (os \<times> int) res" where
  "sock_assign s m_fd newfd = bind_res (close_if_valid s m_fd) (\<lambda>s. Inr (s, newfd))"

definition sock_reset :: "os \<Rightarrow> int \<Rightarrow> int \<Rightarrow> (os \<times> int) res" where
  "sock_reset s m_fd newfd = bind_res (close_if_valid s m_fd) (\<lambda>s. Inr (s, newfd))"

section \<open>Ownership\<close>

text \<open>The open descriptors are exactly the ones the given sockets hold, each held once.\<close>

definition fds_owned :: "os \<Rightarrow> int multiset \<Rightarrow> bool" where
  "fds_owned s M \<longleftrightarrow> distinct (open_fds s) \<and> mset (open_fds s) = filter_mset (\<lambda>fd. fd \<ge> 0) M"

lemma owned_neg [simp]: "fd < 0 \<Longrightarrow> fds_owned s (add_mset fd M) \<longleftrightarrow> fds_owned s M"
  by (simp add: fds_owned_def)

lemma owned_neg2 [simp]: "fd < 0 \<Longrightarrow> fds_owned s (add_mset a (add_mset fd M)) \<longleftrightarrow> fds_owned s (add_mset a M)"
  by (simp add: fds_owned_def)

lemma close_owned:
  assumes "fds_owned s (add_mset fd M)"
  shows "\<exists>s'. close_if_valid s fd = Inr s' \<and> fds_owned s' M \<and> set (open_fds s') \<subseteq> set (open_fds s)"
proof (cases "fd \<ge> 0")
  case True
  have m: "mset (open_fds s) = add_mset fd (filter_mset (\<lambda>fd. fd \<ge> 0) M)" using assms True by (simp add: fds_owned_def)
  then have "fd \<in> set (open_fds s)" by (metis set_mset_mset union_single_eq_member)
  moreover have "mset (remove1 fd (open_fds s)) = filter_mset (\<lambda>fd. fd \<ge> 0) M"
    unfolding mset_remove1 m by simp
  moreover have "distinct (remove1 fd (open_fds s))" using assms by (simp add: fds_owned_def)
  moreover from calculation have "fds_owned (s\<lparr>open_fds := remove1 fd (open_fds s)\<rparr>) M"
    by (simp add: fds_owned_def)
  ultimately show ?thesis using True set_remove1_subset [of fd "open_fds s"] by (simp add: close_if_valid_def os_close_def)
qed (use assms in \<open>simp add: close_if_valid_def\<close>)

lemma open_owned: "fds_owned s M \<Longrightarrow> fresh_fd s fd \<Longrightarrow> fds_owned (os_open s fd) (add_mset fd M)"
  by (auto simp: fds_owned_def os_open_def fresh_fd_def)

text \<open>Replacing a held descriptor by a new one, the way \<^verbatim>\<open>operator=(int)\<close> and \<^verbatim>\<open>reset\<close> do.\<close>

lemma assign_owned:
  assumes "fds_owned s (add_mset fd M)" "fresh_fd s newfd"
  shows "\<exists>s'. sock_assign (os_open s newfd) fd newfd = Inr (s', newfd) \<and> fds_owned s' (add_mset newfd M)"
proof -
  have "fds_owned (os_open s newfd) (add_mset fd (add_mset newfd M))"
    using open_owned [OF assms] by (simp add: add_mset_commute)
  from close_owned [OF this] show ?thesis by (auto simp: sock_assign_def)
qed

section \<open>Programs over sockets\<close>

text \<open>
  The live sockets of a program in a list; a destroyed one leaves the list. A descriptor that
  an operation is given was just returned by the system.
\<close>

datatype sock_op =
    S_new                        \<comment> \<open>\<^verbatim>\<open>Socket()\<close>\<close>
  | S_adopt int                  \<comment> \<open>\<^verbatim>\<open>Socket(fd)\<close>\<close>
  | S_move nat                   \<comment> \<open>\<^verbatim>\<open>Socket(std::move(xs[i]))\<close>\<close>
  | S_move_assign nat nat        \<comment> \<open>\<^verbatim>\<open>xs[i] = std::move(xs[j])\<close>\<close>
  | S_assign nat int             \<comment> \<open>\<^verbatim>\<open>xs[i] = fd\<close>\<close>
  | S_reset nat int              \<comment> \<open>\<^verbatim>\<open>xs[i].reset(fd)\<close>\<close>
  | S_destroy nat

definition remove_nth :: "nat \<Rightarrow> 'a list \<Rightarrow> 'a list" where
  "remove_nth i xs = take i xs @ drop (Suc i) xs"

definition sock_exec :: "os \<Rightarrow> int list \<Rightarrow> sock_op \<Rightarrow> (os \<times> int list) res" where
  "sock_exec s xs a =
     (case a of
        S_new \<Rightarrow> Inr (s, xs @ [Socket])
      | S_adopt fd \<Rightarrow> Inr (os_open s fd, xs @ [Socket_fd fd])
      | S_move i \<Rightarrow> let (new, old) = sock_move (xs ! i) in Inr (s, xs[i := old] @ [new])
      | S_move_assign i j \<Rightarrow>
          bind_res (sock_move_assign s (i = j) (xs ! i) (xs ! j)) (\<lambda>(s, a, b). Inr (s, xs[j := b, i := a]))
      | S_assign i fd \<Rightarrow> bind_res (sock_assign (os_open s fd) (xs ! i) fd) (\<lambda>(s, a). Inr (s, xs[i := a]))
      | S_reset i fd \<Rightarrow> bind_res (sock_reset (os_open s fd) (xs ! i) fd) (\<lambda>(s, a). Inr (s, xs[i := a]))
      | S_destroy i \<Rightarrow> bind_res (sock_destructor s (xs ! i)) (\<lambda>s. Inr (s, remove_nth i xs)))"

fun sock_legal :: "os \<Rightarrow> int list \<Rightarrow> sock_op \<Rightarrow> bool" where
  "sock_legal s xs S_new = True"
| "sock_legal s xs (S_adopt fd) = fresh_fd s fd"
| "sock_legal s xs (S_move i) = (i < length xs)"
| "sock_legal s xs (S_move_assign i j) = (i < length xs \<and> j < length xs)"
| "sock_legal s xs (S_assign i fd) = (i < length xs \<and> fresh_fd s fd)"
| "sock_legal s xs (S_reset i fd) = (i < length xs \<and> fresh_fd s fd)"
| "sock_legal s xs (S_destroy i) = (i < length xs)"

text \<open>A program that checks each operation before it; \<open>None\<close> when one is not legal.\<close>

fun sock_run :: "os \<Rightarrow> int list \<Rightarrow> sock_op list \<Rightarrow> (os \<times> int list) option res" where
  "sock_run s xs [] = Inr (Some (s, xs))"
| "sock_run s xs (a # as) =
     (if sock_legal s xs a then bind_res (sock_exec s xs a) (\<lambda>(s, xs). sock_run s xs as) else Inr None)"

lemma mset_nth_split: "i < length xs \<Longrightarrow> mset xs = add_mset (xs ! i) (mset (remove_nth i xs))"
  by (metis add_mset_add_single append_Cons_eq_iff id_take_nth_drop mset.simps(2) mset_append remove_nth_def
      union_mset_add_mset_right)

lemma remove_nth_update [simp]: "remove_nth i (xs[i := x]) = remove_nth i xs"
  by (simp add: remove_nth_def)

lemma mset_update_split: "i < length xs \<Longrightarrow> mset (xs[i := x]) = add_mset x (mset (remove_nth i xs))"
  using mset_nth_split [of i "xs[i := x]"] by simp

lemma mset_move:
  assumes i: "i < length xs" and j: "j < length xs" and ij: "i \<noteq> j"
  shows "mset (xs[j := z, i := xs ! j]) = add_mset z (mset (remove_nth i xs))"
proof -
  let ?ys = "xs[j := z]"
  have "add_mset (xs ! i) (mset (remove_nth i ?ys)) = mset ?ys"
    using mset_nth_split [of i ?ys] i ij by simp
  also have "\<dots> = add_mset z (mset (remove_nth j xs))" by (rule mset_update_split [OF j])
  finally have "add_mset (xs ! j) (add_mset (xs ! i) (mset (remove_nth i ?ys))) = add_mset z (mset xs)"
    by (simp add: mset_nth_split [OF j] add_mset_commute)
  then have "add_mset (xs ! i) (add_mset (xs ! j) (mset (remove_nth i ?ys))) =
      add_mset (xs ! i) (add_mset z (mset (remove_nth i xs)))"
    by (simp only: mset_nth_split [OF i] add_mset_commute)
  then show ?thesis using mset_update_split [of i ?ys "xs ! j"] i by simp
qed

lemma sock_exec_owned:
  assumes own: "fds_owned s (mset xs)" and legal: "sock_legal s xs a"
  shows "\<exists>s' xs'. sock_exec s xs a = Inr (s', xs') \<and> fds_owned s' (mset xs')"
proof -
  have at: "fds_owned s (add_mset (xs ! i) (mset (remove_nth i xs)))" if "i < length xs" for i
    using own mset_nth_split [OF that] by simp
  show ?thesis
  proof (cases a)
    case (S_assign i fd)
    with legal have i: "i < length xs" "fresh_fd s fd" by simp_all
    from assign_owned [OF at [OF i(1)] i(2)] show ?thesis
      by (auto simp: S_assign sock_exec_def mset_update_split [OF i(1)])
  next
    case (S_reset i fd)
    with legal have i: "i < length xs" "fresh_fd s fd" by simp_all
    have "sock_reset = sock_assign" by (simp add: sock_reset_def sock_assign_def fun_eq_iff)
    with assign_owned [OF at [OF i(1)] i(2)] show ?thesis
      by (auto simp: S_reset sock_exec_def mset_update_split [OF i(1)])
  next
    case (S_destroy i)
    with legal have "i < length xs" by simp
    from close_owned [OF at [OF this]] show ?thesis by (auto simp: S_destroy sock_exec_def sock_destructor_def)
  next
    case (S_move i)
    with legal have i: "i < length xs" by simp
    have "fds_owned s (mset (xs[i := - 1] @ [xs ! i]))"
      using at [OF i] by (simp add: mset_update_split [OF i])
    then show ?thesis by (simp add: S_move sock_exec_def sock_move_def)
  next
    case (S_move_assign i j)
    with legal have i: "i < length xs" and j: "j < length xs" by simp_all
    show ?thesis
    proof (cases "i = j")
      case True
      with own show ?thesis by (simp add: S_move_assign sock_exec_def sock_move_assign_def)
    next
      case False
      have m: "fds_owned s' (mset (xs[j := - 1, i := xs ! j])) \<longleftrightarrow> fds_owned s' (mset (remove_nth i xs))" for s'
        by (simp add: mset_move [OF i j False])
      from close_owned [OF at [OF i]] m False show ?thesis
        by (auto simp: S_move_assign sock_exec_def sock_move_assign_def)
    qed
  qed (use own legal in \<open>auto simp: sock_exec_def Socket_def Socket_fd_def open_owned\<close>)
qed

lemma sock_run_owned:
  "fds_owned s (mset xs) \<Longrightarrow> sock_run s xs as = Inr None \<or> (\<exists>s' xs'. sock_run s xs as = Inr (Some (s', xs')) \<and> fds_owned s' (mset xs'))"
proof (induction as arbitrary: s xs)
  case (Cons a as)
  show ?case
  proof (cases "sock_legal s xs a")
    case True
    with sock_exec_owned [OF Cons.prems] obtain s' xs' where "sock_exec s xs a = Inr (s', xs')" "fds_owned s' (mset xs')" by blast
    with Cons.IH True show ?thesis by simp
  qed simp
qed simp

section \<open>TCP\<close>

datatype TcpError =
  BAD_SOCKET | BIND_FAIL | LISTEN_FAIL | CONNECT_FAIL | ACCEPT_FAIL | SEND_FAIL | RECV_FAIL | INVALID_IP

record tcp =
  ip :: string
  port :: u16_t
  m_sock :: int
  running :: bool

definition Tcp :: "string \<Rightarrow> u16_t \<Rightarrow> tcp" where
  "Tcp addr p = \<lparr>ip = addr, port = p, m_sock = Socket_fd (- 1), running = False\<rparr>"

definition create_socket :: "kernel \<Rightarrow> os \<Rightarrow> tcp \<Rightarrow> ((TcpError + unit) \<times> os \<times> tcp) res" where
  "create_socket k s t =
     (let fd = k_socket k s; s = os_open s fd
      in if fd < 0 then Inr (Inl BAD_SOCKET, s, t)
         else bind_res (sock_assign s (m_sock t) fd) (\<lambda>(s, sock). Inr (Inr (), s, t\<lparr>m_sock := sock\<rparr>)))"

definition get_fd :: "tcp \<Rightarrow> int" where
  "get_fd t = m_sock t"

text \<open>
  The defaulted moves move each member: the socket empties its source, \<^verbatim>\<open>_port\<close> and \<^verbatim>\<open>_running\<close>
  are copied, and \<open>left\<close> is what the string's move leaves in its source. The result of an
  assignment is the target, then the source.
\<close>

definition tcp_move :: "string \<Rightarrow> tcp \<Rightarrow> tcp \<times> tcp" where
  "tcp_move left other =
     (let (new, old) = sock_move (m_sock other)
      in (other\<lparr>m_sock := new\<rparr>, other\<lparr>ip := left, m_sock := old\<rparr>))"

definition tcp_move_assign :: "os \<Rightarrow> bool \<Rightarrow> string \<Rightarrow> tcp \<Rightarrow> tcp \<Rightarrow> (os \<times> tcp \<times> tcp) res" where
  "tcp_move_assign s same left t other =
     bind_res (sock_move_assign s same (m_sock t) (m_sock other)) (\<lambda>(s, new, old).
       if same then Inr (s, t\<lparr>ip := left, m_sock := new\<rparr>, t\<lparr>ip := left, m_sock := new\<rparr>)
       else Inr (s, other\<lparr>m_sock := new\<rparr>, other\<lparr>ip := left, m_sock := old\<rparr>))"

definition MAX_LISTEN_NUM :: nat where
  "MAX_LISTEN_NUM = 10"

definition server_start :: "kernel \<Rightarrow> os \<Rightarrow> tcp \<Rightarrow> ((TcpError + unit) \<times> os \<times> tcp) res" where
  "server_start k s t =
     bind_res (create_socket k s t) (\<lambda>(r, s, t).
       case r of
         Inl _ \<Rightarrow> Inr (Inl BAD_SOCKET, s, t)
       | Inr _ \<Rightarrow>
           let addr = \<lparr>sin_port = htons (port t), sin_addr = k_inet_addr k (ip t)\<rparr>
           in if k_bind k s (m_sock t) addr < 0 then Inr (Inl BIND_FAIL, s, t)
              else if k_listen k s (m_sock t) MAX_LISTEN_NUM < 0 then Inr (Inl LISTEN_FAIL, s, t)
              else Inr (Inr (), s, t\<lparr>running := True\<rparr>))"

definition accept_client :: "kernel \<Rightarrow> os \<Rightarrow> tcp \<Rightarrow> (TcpError + int) \<times> os" where
  "accept_client k s t =
     (let client_fd = k_accept k s (m_sock t); s = os_open s client_fd
      in if client_fd < 0 then (Inl BAD_SOCKET, s) else (Inr (Socket_fd client_fd), s))"

definition connect_to_server :: "kernel \<Rightarrow> os \<Rightarrow> tcp \<Rightarrow> ((TcpError + unit) \<times> os \<times> tcp) res" where
  "connect_to_server k s t =
     bind_res (create_socket k s t) (\<lambda>(r, s, t).
       case r of
         Inl _ \<Rightarrow> Inr (Inl BAD_SOCKET, s, t)
       | Inr _ \<Rightarrow>
           let (ok, addr) = k_inet_pton k (ip t)
           in if ok \<le> 0 then Inr (Inl INVALID_IP, s, t)
              else if k_connect k s (m_sock t) \<lparr>sin_port = htons (port t), sin_addr = addr\<rparr> < 0
              then Inr (Inl CONNECT_FAIL, s, t) else Inr (Inr (), s, t))"

text \<open>
  A transfer reports the number of bytes as an unsigned 64-bit value. The client passes no
  flags; the server asks not to be signalled when the peer is gone.
\<close>

definition send_data :: "kernel \<Rightarrow> os \<Rightarrow> tcp \<Rightarrow> string \<Rightarrow> nat \<Rightarrow> int" where
  "send_data k s t buf flags = k_send k s (m_sock t) buf flags"

definition recv_data :: "kernel \<Rightarrow> os \<Rightarrow> tcp \<Rightarrow> nat \<Rightarrow> nat \<Rightarrow> int" where
  "recv_data k s t len flags = k_recv k s (m_sock t) len flags"

definition client_send :: "kernel \<Rightarrow> os \<Rightarrow> tcp \<Rightarrow> string \<Rightarrow> TcpError + u64_t" where
  "client_send k s t buf =
     (let result = send_data k s t buf 0 in if result < 0 then Inl SEND_FAIL else Inr (of_int result))"

definition client_recv :: "kernel \<Rightarrow> os \<Rightarrow> tcp \<Rightarrow> nat \<Rightarrow> TcpError + u64_t" where
  "client_recv k s t len =
     (let result = recv_data k s t len 0 in if result < 0 then Inl RECV_FAIL else Inr (of_int result))"

definition MSG_NOSIGNAL :: nat where
  "MSG_NOSIGNAL = 0x4000"

definition server_send :: "kernel \<Rightarrow> os \<Rightarrow> int \<Rightarrow> string \<Rightarrow> TcpError + u64_t" where
  "server_send k s client buf =
     (let result = k_send k s client buf MSG_NOSIGNAL in if result < 0 then Inl SEND_FAIL else Inr (of_int result))"

definition server_recv :: "kernel \<Rightarrow> os \<Rightarrow> int \<Rightarrow> nat \<Rightarrow> TcpError + u64_t" where
  "server_recv k s client len =
     (let result = k_recv k s client len 0 in if result < 0 then Inl RECV_FAIL else Inr (of_int result))"

text \<open>A count the system can return is reported unchanged.\<close>

lemma transfer_count:
  assumes "0 \<le> r" "r < 2 ^ 63"
  shows "uint (of_int r :: u64_t) = r"
  using assms by (simp add: uint_word_of_int)

lemma client_send_count:
  assumes "send_data k s t buf 0 \<le> int (length buf)" "length buf < 2 ^ 63"
  shows "client_send k s t buf = Inl SEND_FAIL \<or> (\<exists>n. client_send k s t buf = Inr n \<and> uint n = send_data k s t buf 0 \<and> unat n \<le> length buf)"
proof (cases "send_data k s t buf 0 < 0")
  case False
  moreover have "int (length buf) < 2 ^ 63" using assms(2) by simp
  then have "send_data k s t buf 0 < 2 ^ 63" using assms(1) by (rule le_less_trans [rotated])
  ultimately have u: "uint (of_int (send_data k s t buf 0) :: u64_t) = send_data k s t buf 0" by (intro transfer_count) simp_all
  then have "unat (of_int (send_data k s t buf 0) :: u64_t) \<le> length buf" using assms(1) by (simp only: flip: nat_uint_eq)
  with False u show ?thesis by (simp add: client_send_def)
qed (simp add: client_send_def)

section \<open>UDP\<close>

datatype UdpError =
  UDP_BAD_SOCKET | UDP_BIND_FAIL | UDP_LISTEN_FAIL | UDP_CONNECT_FAIL | UDP_ACCEPT_FAIL | UDP_SEND_FAIL
| UDP_RECV_FAIL | UDP_INVALID_IP

record udp_server =
  us_ip :: string
  us_port :: u16_t
  us_sock :: int
  m_started :: bool

definition UdpServer :: "string \<Rightarrow> u16_t \<Rightarrow> udp_server" where
  "UdpServer addr p = \<lparr>us_ip = addr, us_port = p, us_sock = Socket, m_started = False\<rparr>"

text \<open>The implicit move of a server: like \<^verbatim>\<open>Tcp\<close>'s, \<^verbatim>\<open>m_started\<close> is copied.\<close>

definition udp_move :: "string \<Rightarrow> udp_server \<Rightarrow> udp_server \<times> udp_server" where
  "udp_move left other =
     (let (new, old) = sock_move (us_sock other)
      in (other\<lparr>us_sock := new\<rparr>, other\<lparr>us_ip := left, us_sock := old\<rparr>))"

definition udp_create_socket :: "kernel \<Rightarrow> os \<Rightarrow> int \<Rightarrow> ((UdpError + unit) \<times> os \<times> int) res" where
  "udp_create_socket k s sock =
     (let fd = k_socket k s; s = os_open s fd
      in if fd < 0 then Inr (Inl UDP_BAD_SOCKET, s, sock)
         else bind_res (sock_assign s sock fd) (\<lambda>(s, sock). Inr (Inr (), s, sock)))"

definition udp_start :: "kernel \<Rightarrow> os \<Rightarrow> udp_server \<Rightarrow> ((UdpError + unit) \<times> os \<times> udp_server) res" where
  "udp_start k s u =
     (if m_started u then Inr (Inr (), s, u)
      else bind_res (udp_create_socket k s (us_sock u)) (\<lambda>(r, s, sock).
        let u = u\<lparr>us_sock := sock\<rparr>
        in case r of
             Inl e \<Rightarrow> Inr (Inl e, s, u)
           | Inr _ \<Rightarrow>
               if k_bind k s (us_sock u) \<lparr>sin_port = htons (us_port u), sin_addr = k_inet_addr k (us_ip u)\<rparr> < 0
               then Inr (Inl UDP_BIND_FAIL, s, u) else Inr (Inr (), s, u\<lparr>m_started := True\<rparr>)))"

record udp_client =
  uc_sock :: int
  m_peer :: sockaddr_in

text \<open>The constructor aborts when it gets no socket; the address keeps its old content when it does not parse.\<close>

definition UdpClient :: "kernel \<Rightarrow> os \<Rightarrow> sockaddr_in \<Rightarrow> string \<Rightarrow> u16_t \<Rightarrow> (os \<times> udp_client) res" where
  "UdpClient k s peer addr p =
     bind_res (udp_create_socket k s Socket) (\<lambda>(r, s, sock).
       case r of
         Inl _ \<Rightarrow> Inl Trap
       | Inr _ \<Rightarrow>
           let (ok, a) = k_inet_pton k addr
           in Inr (s, \<lparr>uc_sock = sock, m_peer = \<lparr>sin_port = htons p, sin_addr = (if ok > 0 then a else sin_addr peer)\<rparr>\<rparr>))"

definition UdpClient_default :: "sockaddr_in \<Rightarrow> udp_client" where
  "UdpClient_default peer = \<lparr>uc_sock = Socket, m_peer = peer\<rparr>"

definition get_sockaddr_in :: "udp_client \<Rightarrow> sockaddr_in" where
  "get_sockaddr_in c = m_peer c"

definition udp_send :: "kernel \<Rightarrow> os \<Rightarrow> int \<Rightarrow> string \<Rightarrow> sockaddr_in \<Rightarrow> int" where
  "udp_send k s sock buf peer = k_sendto k s sock buf 0 peer"

definition udp_recv :: "kernel \<Rightarrow> os \<Rightarrow> int \<Rightarrow> nat \<Rightarrow> int \<times> sockaddr_in" where
  "udp_recv k s sock len = k_recvfrom k s sock len 0"

definition udp_server_send :: "kernel \<Rightarrow> os \<Rightarrow> udp_server \<Rightarrow> string \<Rightarrow> sockaddr_in \<Rightarrow> int" where
  "udp_server_send k s u buf peer = udp_send k s (us_sock u) buf peer"

definition udp_server_recv :: "kernel \<Rightarrow> os \<Rightarrow> udp_server \<Rightarrow> nat \<Rightarrow> int \<times> sockaddr_in" where
  "udp_server_recv k s u len = udp_recv k s (us_sock u) len"

definition udp_client_recv :: "kernel \<Rightarrow> os \<Rightarrow> udp_client \<Rightarrow> nat \<Rightarrow> int \<times> sockaddr_in" where
  "udp_client_recv k s c len = udp_recv k s (uc_sock c) len"

definition bind_local :: "kernel \<Rightarrow> os \<Rightarrow> udp_client \<Rightarrow> u16_t \<Rightarrow> UdpError + unit" where
  "bind_local k s c p =
     (if k_bind k s (uc_sock c) \<lparr>sin_port = htons p, sin_addr = 0\<rparr> < 0 then Inl UDP_BIND_FAIL else Inr ())"

section \<open>Ownership through the clients\<close>

lemma create_socket_owned:
  assumes "kernel_ok k" "fds_owned s (add_mset (m_sock t) M)"
  shows "\<exists>s' t'. create_socket k s t = Inr (if k_socket k s < 0 then Inl BAD_SOCKET else Inr (), s', t') \<and>
    fds_owned s' (add_mset (m_sock t') M) \<and> t' = (if k_socket k s < 0 then t else t\<lparr>m_sock := k_socket k s\<rparr>)"
proof -
  have fresh: "fresh_fd s (k_socket k s)" using assms(1) by (simp add: kernel_ok_def)
  from assign_owned [OF assms(2) fresh] open_owned [OF assms(2) fresh] show ?thesis
    by (auto simp: create_socket_def Let_def)
qed

lemma udp_create_socket_owned:
  assumes "kernel_ok k" "fds_owned s (add_mset sock M)"
  shows "\<exists>s'. udp_create_socket k s sock =
      Inr (if k_socket k s < 0 then (Inl UDP_BAD_SOCKET, s', sock) else (Inr (), s', k_socket k s)) \<and>
    fds_owned s' (add_mset (if k_socket k s < 0 then sock else k_socket k s) M)"
proof -
  have fresh: "fresh_fd s (k_socket k s)" using assms(1) by (simp add: kernel_ok_def)
  from assign_owned [OF assms(2) fresh] open_owned [OF assms(2) fresh] show ?thesis
    by (auto simp: udp_create_socket_def Let_def)
qed

lemma htons_htons: "htons (htons x) = x"
  by (rule bit_word_eqI) (auto simp: htons_def bit_simps)

section \<open>Properties\<close>

text \<open>
  C39. Every descriptor has one owner. A program of legal operations on sockets never closes a
  descriptor that is not open, and after it the open descriptors are exactly the ones its live
  sockets hold, each held by one socket; with no socket left, none is open.\<close>

theorem socket_ownership:
  assumes "sock_run \<lparr>open_fds = []\<rparr> [] as \<noteq> Inr None"
  shows "\<exists>s xs. sock_run \<lparr>open_fds = []\<rparr> [] as = Inr (Some (s, xs)) \<and>
    set (open_fds s) = {fd \<in> set xs. fd \<ge> 0} \<and> (\<forall>fd\<ge>0. count (mset xs) fd \<le> 1) \<and> (xs = [] \<longrightarrow> open_fds s = [])"
proof -
  have "fds_owned \<lparr>open_fds = []\<rparr> (mset [])" by (simp add: fds_owned_def)
  from sock_run_owned [OF this, of as] assms obtain s xs where
    r: "sock_run \<lparr>open_fds = []\<rparr> [] as = Inr (Some (s, xs))" and o: "fds_owned s (mset xs)" by blast
  have m: "mset (open_fds s) = filter_mset (\<lambda>fd. fd \<ge> 0) (mset xs)" and d: "distinct (open_fds s)"
    using o by (simp_all add: fds_owned_def)
  have "set (open_fds s) = {fd \<in> set xs. fd \<ge> 0}"
    using arg_cong [OF m, of set_mset] by auto
  moreover have "count (mset xs) fd \<le> 1" if "fd \<ge> 0" for fd
  proof -
    have "count (mset xs) fd = count (mset (open_fds s)) fd" using m that by simp
    also have "\<dots> \<le> 1" using d by (simp add: distinct_count_atmost_1)
    finally show ?thesis .
  qed
  moreover have "xs = [] \<longrightarrow> open_fds s = []" using m by (metis filter_empty_mset mset.simps(1) mset_zero_iff)
  ultimately show ?thesis using r by blast
qed

theorem socket_ownership_witness:
  "\<exists>s xs. sock_run \<lparr>open_fds = []\<rparr> [] [S_adopt 3, S_new, S_move_assign 1 0, S_assign 0 4, S_move_assign 1 1, S_destroy 1] =
     Inr (Some (s, xs)) \<and> set (open_fds s) = {fd \<in> set xs. fd \<ge> 0}"
  using socket_ownership [of "[S_adopt 3, S_new, S_move_assign 1 0, S_assign 0 4, S_move_assign 1 1, S_destroy 1]"]
  by (simp add: fresh_fd_def sock_exec_def sock_move_assign_def sock_assign_def sock_destructor_def close_if_valid_def
      os_close_def os_open_def Socket_def Socket_fd_def remove_nth_def numeral_2_eq_2)

text \<open>
  Starting a TCP server never leaks a descriptor or closes a foreign one, whatever the
  system answers; the result is the first step that failed; the server object holds the new
  socket from then on, also when binding or listening failed, and \<^verbatim>\<open>_running\<close> is set by success
  and never cleared.\<close>

theorem tcp_start_exact:
  assumes "kernel_ok k" and "fds_owned s (add_mset (m_sock t) M)"
  shows "\<exists>s' t'. fds_owned s' (add_mset (m_sock t') M) \<and>
      server_start k s t = Inr
        (if k_socket k s < 0 then Inl BAD_SOCKET
         else if k_bind k s' (m_sock t') \<lparr>sin_port = htons (port t), sin_addr = k_inet_addr k (ip t)\<rparr> < 0 then Inl BIND_FAIL
         else if k_listen k s' (m_sock t') 10 < 0 then Inl LISTEN_FAIL else Inr (), s', t') \<and>
      m_sock t' = (if k_socket k s < 0 then m_sock t else k_socket k s) \<and>
      (running t' \<longleftrightarrow> running t \<or> fst (projr (server_start k s t)) = Inr ())"
proof -
  obtain s' t' where c: "create_socket k s t = Inr (if k_socket k s < 0 then Inl BAD_SOCKET else Inr (), s', t')"
    and o: "fds_owned s' (add_mset (m_sock t') M)" and t': "t' = (if k_socket k s < 0 then t else t\<lparr>m_sock := k_socket k s\<rparr>)"
    using create_socket_owned [OF assms] by blast
  show ?thesis
    using c o t' by (cases "k_socket k s < 0") (auto simp: server_start_def MAX_LISTEN_NUM_def)
qed

text \<open>A system in which every call succeeds: the next descriptor is above all open ones.\<close>

definition kernel_example :: kernel where
  "kernel_example = \<lparr>k_socket = (\<lambda>s. fold max (open_fds s) 2 + 1), k_accept = (\<lambda>s fd. fold max (open_fds s) 2 + 1),
     k_bind = (\<lambda>s fd a. 0), k_listen = (\<lambda>s fd n. 0), k_connect = (\<lambda>s fd a. 0), k_send = (\<lambda>s fd b f. int (length b)),
     k_recv = (\<lambda>s fd n f. 0), k_sendto = (\<lambda>s fd b f a. int (length b)),
     k_recvfrom = (\<lambda>s fd n f. (0, \<lparr>sin_port = 0, sin_addr = 0\<rparr>)), k_inet_addr = (\<lambda>_. 0x0100007F), k_inet_pton = (\<lambda>_. (1, 0x0100007F))\<rparr>"

lemma fold_max_ge: "x \<in> set xs \<union> {a} \<Longrightarrow> x \<le> fold max xs (a :: int)"
proof (induction xs arbitrary: a x)
  case (Cons y ys)
  have "max y a \<le> fold max ys (max y a)" by (rule Cons.IH) simp
  with Cons.prems Cons.IH [of x "max y a"] show ?case by auto
qed simp

lemma kernel_example_ok: "kernel_ok kernel_example"
proof -
  have "fold max (open_fds s) 2 + 1 \<notin> set (open_fds s)" for s using fold_max_ge [of _ "open_fds s" 2] by force
  then show ?thesis unfolding kernel_ok_def kernel_example_def fresh_fd_def by auto
qed

theorem tcp_start_exact_witness:
  "\<exists>s' t'. fds_owned s' {#m_sock t'#} \<and> server_start kernel_example \<lparr>open_fds = []\<rparr> (Tcp ''127.0.0.1'' 80) = Inr (Inr (), s', t') \<and>
     m_sock t' = 3 \<and> running t'"
proof -
  have "fds_owned \<lparr>open_fds = []\<rparr> {#m_sock (Tcp ''127.0.0.1'' 80)#}" by (simp add: fds_owned_def Tcp_def Socket_fd_def)
  from tcp_start_exact [OF kernel_example_ok this] show ?thesis by (auto simp: kernel_example_def)
qed

text \<open>
  Connecting a TCP client keeps the ownership of descriptors and reports the first step
  that failed: no socket, an address that does not parse, a refused connection.\<close>

theorem tcp_connect_exact:
  assumes "kernel_ok k" and "fds_owned s (add_mset (m_sock t) M)"
  shows "\<exists>s' t'. fds_owned s' (add_mset (m_sock t') M) \<and>
      connect_to_server k s t = Inr
        (if k_socket k s < 0 then Inl BAD_SOCKET
         else if fst (k_inet_pton k (ip t)) \<le> 0 then Inl INVALID_IP
         else if k_connect k s' (m_sock t') \<lparr>sin_port = htons (port t), sin_addr = snd (k_inet_pton k (ip t))\<rparr> < 0
         then Inl CONNECT_FAIL else Inr (), s', t') \<and>
      m_sock t' = (if k_socket k s < 0 then m_sock t else k_socket k s)"
proof -
  obtain s' t' where c: "create_socket k s t = Inr (if k_socket k s < 0 then Inl BAD_SOCKET else Inr (), s', t')"
    and o: "fds_owned s' (add_mset (m_sock t') M)" and t': "t' = (if k_socket k s < 0 then t else t\<lparr>m_sock := k_socket k s\<rparr>)"
    using create_socket_owned [OF assms] by blast
  show ?thesis
    using c o t' by (cases "k_socket k s < 0") (auto simp: connect_to_server_def split_beta)
qed

theorem tcp_connect_exact_witness:
  "\<exists>s' t'. connect_to_server kernel_example \<lparr>open_fds = []\<rparr> (Tcp ''127.0.0.1'' 80) = Inr (Inr (), s', t') \<and> m_sock t' = 3"
proof -
  have "fds_owned \<lparr>open_fds = []\<rparr> {#m_sock (Tcp ''127.0.0.1'' 80)#}" by (simp add: fds_owned_def Tcp_def Socket_fd_def)
  from tcp_connect_exact [OF kernel_example_ok this] show ?thesis by (auto simp: kernel_example_def)
qed

text \<open>
  A UDP server starts once. Until it has started a call makes a new socket in place of the
  old one and keeps the ownership of descriptors; after a success every further call succeeds
  without effect.\<close>

theorem udp_start_once:
  assumes "kernel_ok k" and "fds_owned s (add_mset (us_sock u) M)"
  shows "\<exists>r s' u'. udp_start k s u = Inr (r, s', u') \<and> fds_owned s' (add_mset (us_sock u') M) \<and>
     (m_started u' \<longleftrightarrow> r = Inr ()) \<and> (r = Inr () \<longrightarrow> udp_start k' s' u' = Inr (Inr (), s', u')) \<and>
     (\<not> m_started u \<and> k_socket k s \<ge> 0 \<longrightarrow> us_sock u' = k_socket k s)"
proof -
  obtain s' where c: "udp_create_socket k s (us_sock u) =
      Inr (if k_socket k s < 0 then (Inl UDP_BAD_SOCKET, s', us_sock u) else (Inr (), s', k_socket k s))"
    and o: "fds_owned s' (add_mset (if k_socket k s < 0 then us_sock u else k_socket k s) M)"
    using udp_create_socket_owned [OF assms] by blast
  show ?thesis
  proof (cases "m_started u")
    case True
    with assms(2) show ?thesis by (simp add: udp_start_def)
  next
    case False
    with c o show ?thesis by (cases "k_socket k s < 0") (auto simp: udp_start_def Let_def)
  qed
qed

theorem udp_start_once_witness:
  "\<exists>s' u'. udp_start kernel_example \<lparr>open_fds = []\<rparr> (UdpServer ''0.0.0.0'' 53) = Inr (Inr (), s', u') \<and> us_sock u' = 3 \<and>
     udp_start kernel_example s' u' = Inr (Inr (), s', u')"
proof -
  have "fds_owned \<lparr>open_fds = []\<rparr> {#us_sock (UdpServer ''0.0.0.0'' 53)#}" by (simp add: fds_owned_def UdpServer_def Socket_def)
  from udp_start_once [OF kernel_example_ok this, of kernel_example] show ?thesis
    by (auto simp: kernel_example_def udp_start_def UdpServer_def udp_create_socket_def sock_assign_def close_if_valid_def
        Socket_def Let_def)
qed

text \<open>
  Moving a TCP object hands its descriptor over and closes the target's: ownership is kept.
  The source keeps \<^verbatim>\<open>_running\<close>, so a server that was moved from still claims to run, without a
  socket.\<close>

theorem tcp_moves_owned:
  assumes "fds_owned s (add_mset (m_sock t) (add_mset (m_sock other) M))"
  shows "\<exists>s' t' other'. tcp_move_assign s False left t other = Inr (s', t', other') \<and>
     fds_owned s' (add_mset (m_sock t') (add_mset (m_sock other') M)) \<and> (t', other') = tcp_move left other \<and>
     m_sock other' = - 1 \<and> running other' = running other"
proof -
  from close_owned [OF assms] obtain s' where "close_if_valid s (m_sock t) = Inr s'" "fds_owned s' (add_mset (m_sock other) M)"
    by blast
  then show ?thesis by (simp add: tcp_move_assign_def sock_move_assign_def tcp_move_def sock_move_def)
qed

theorem tcp_moves_owned_witness:
  "\<exists>s' t' other'. tcp_move_assign \<lparr>open_fds = [4, 3]\<rparr> False [] (Tcp [] 1 \<lparr>m_sock := 3\<rparr>) (Tcp [] 2 \<lparr>m_sock := 4, running := True\<rparr>) =
       Inr (s', t', other') \<and> fds_owned s' {#m_sock t', m_sock other'#} \<and> m_sock other' = - 1 \<and> running other'"
proof -
  have "fds_owned \<lparr>open_fds = [4, 3]\<rparr> {#m_sock (Tcp [] 1 \<lparr>m_sock := 3\<rparr>), m_sock (Tcp [] 2 \<lparr>m_sock := 4, running := True\<rparr>)#}"
    by (simp add: fds_owned_def add_mset_commute)
  from tcp_moves_owned [OF this, of "[]"] show ?thesis by auto
qed

text \<open>
  A UDP server that was moved from after it started reports success when it is started
  again, makes no socket and holds none; a datagram then goes to descriptor \<open>-1\<close>.\<close>

theorem udp_moved_start:
  assumes "m_started u"
  shows "udp_start k s (snd (udp_move left u)) = Inr (Inr (), s, snd (udp_move left u)) \<and>
     udp_server_send k s (snd (udp_move left u)) buf peer = k_sendto k s (- 1) buf 0 peer"
  using assms by (simp add: udp_start_def udp_move_def sock_move_def udp_server_send_def udp_send_def)

theorem udp_moved_start_witness:
  "udp_start kernel_example \<lparr>open_fds = [3]\<rparr> (snd (udp_move [] (UdpServer [] 53 \<lparr>us_sock := 3, m_started := True\<rparr>))) =
     Inr (Inr (), \<lparr>open_fds = [3]\<rparr>, snd (udp_move [] (UdpServer [] 53 \<lparr>us_sock := 3, m_started := True\<rparr>)))"
  using udp_moved_start [of "UdpServer [] 53 \<lparr>us_sock := 3, m_started := True\<rparr>"] by simp

end
