(* ===== verification/Tag_Logger.thy ===== *)
theory Tag_Logger
  imports Fiah_Prelude
begin

text \<open>
  The locking logger of \<^verbatim>\<open>include/fiah/utils/Logger.hh\<close>, one instance for each tag, and its facade
  \<^verbatim>\<open>SimpleLogger.hh\<close>. The clock and the time zone are parameters, and the arguments of a call are
  the text they print. A line is built by the calling thread and written under the mutex of
  its instance, one character at a time: the standard stream accepts concurrent writers but
  may interleave their characters.
\<close>

section \<open>Lines\<close>

datatype LogLevel = INFO | DEBUG | ERROR | WARN

record tm_buf =
  tmb_hour :: nat
  tmb_min :: nat
  tmb_sec :: nat

fun log_level_to_string :: "LogLevel \<Rightarrow> string" where
  "log_level_to_string INFO = ''INFO''"
| "log_level_to_string DEBUG = ''DEBUG''"
| "log_level_to_string ERROR = ''ERROR''"
| "log_level_to_string WARN = ''WARN''"

fun log_level_to_color :: "LogLevel \<Rightarrow> string" where
  "log_level_to_color INFO = CHR 0x1B # ''[32m''"
| "log_level_to_color DEBUG = CHR 0x1B # ''[36m''"
| "log_level_to_color ERROR = CHR 0x1B # ''[31m''"
| "log_level_to_color WARN = CHR 0x1B # ''[33m''"

definition two_digits :: "nat \<Rightarrow> string" where
  "two_digits n = (if n < 10 then ''0'' else '''') @ show_nat n"

text \<open>\<open>now\<close> counts the nanoseconds of the system clock.\<close>

definition log_time :: "(nat \<Rightarrow> tm_buf) \<Rightarrow> nat \<Rightarrow> string" where
  "log_time localtime now =
     (let curr_time = now div 10 ^ 9; ms = now mod 10 ^ 9 div 10 ^ 6; b = localtime curr_time
      in two_digits (tmb_hour b) @ '':'' @ two_digits (tmb_min b) @ '':'' @ two_digits (tmb_sec b) @ ''.'' @ show_nat ms)"

definition log_line :: "(nat \<Rightarrow> tm_buf) \<Rightarrow> string \<Rightarrow> LogLevel \<Rightarrow> nat \<Rightarrow> string \<Rightarrow> nat \<Rightarrow> string list \<Rightarrow> string" where
  "log_line localtime name lev now func line args =
     log_level_to_color lev @ ''['' @ log_time localtime now @ '']'' @ ''['' @ log_level_to_string lev @ '']'' @
     ''['' @ name @ ''::'' @ func @ '':'' @ show_nat line @ ''] '' @ concat args @ (CHR 0x1B # ''[0m'') @ [CHR 0x0A]"

text \<open>The calls of an instance build the line of their level.\<close>

definition logger_info :: "(nat \<Rightarrow> tm_buf) \<Rightarrow> string \<Rightarrow> nat \<Rightarrow> string \<Rightarrow> nat \<Rightarrow> string list \<Rightarrow> string" where
  "logger_info localtime name now func line args = log_line localtime name INFO now func line args"

definition logger_error :: "(nat \<Rightarrow> tm_buf) \<Rightarrow> string \<Rightarrow> nat \<Rightarrow> string \<Rightarrow> nat \<Rightarrow> string list \<Rightarrow> string" where
  "logger_error localtime name now func line args = log_line localtime name ERROR now func line args"

definition logger_debug :: "(nat \<Rightarrow> tm_buf) \<Rightarrow> string \<Rightarrow> nat \<Rightarrow> string \<Rightarrow> nat \<Rightarrow> string list \<Rightarrow> string" where
  "logger_debug localtime name now func line args = log_line localtime name DEBUG now func line args"

definition logger_warn :: "(nat \<Rightarrow> tm_buf) \<Rightarrow> string \<Rightarrow> nat \<Rightarrow> string \<Rightarrow> nat \<Rightarrow> string list \<Rightarrow> string" where
  "logger_warn localtime name now func line args = log_line localtime name WARN now func line args"

section \<open>Instances\<close>

text \<open>The singletons that have been constructed, with their names.\<close>

type_synonym registry = "nat \<rightharpoonup> string"

definition get_instance :: "registry \<Rightarrow> nat \<Rightarrow> string \<Rightarrow> string \<times> registry" where
  "get_instance reg tag name =
     (case reg tag of Some n \<Rightarrow> (n, reg) | None \<Rightarrow> (name, reg(tag \<mapsto> name)))"

definition internal_tag :: nat where
  "internal_tag = 0"

definition impl_logger :: "registry \<Rightarrow> string \<times> registry" where
  "impl_logger reg = get_instance reg internal_tag ''GenericLogger''"

definition init :: "registry \<Rightarrow> string \<Rightarrow> registry" where
  "init reg name = snd (get_instance reg internal_tag name)"

text \<open>Calls of the facade: the line a call builds, and the registry after it.\<close>

datatype facade_call = Init string | Log LogLevel nat string nat "string list"

definition facade :: "(nat \<Rightarrow> tm_buf) \<Rightarrow> registry \<Rightarrow> facade_call \<Rightarrow> string list \<times> registry" where
  "facade localtime reg c =
     (case c of
        Init name \<Rightarrow> ([], init reg name)
      | Log lev now func line args \<Rightarrow>
          let (name, reg) = impl_logger reg;
              call = (case lev of INFO \<Rightarrow> logger_info | DEBUG \<Rightarrow> logger_debug | ERROR \<Rightarrow> logger_error | WARN \<Rightarrow> logger_warn)
          in ([call localtime name now func line args], reg))"

fun facade_run :: "(nat \<Rightarrow> tm_buf) \<Rightarrow> registry \<Rightarrow> facade_call list \<Rightarrow> string list" where
  "facade_run localtime reg [] = []"
| "facade_run localtime reg (c # cs) =
     (let (ls, reg) = facade localtime reg c in ls @ facade_run localtime reg cs)"

section \<open>Concurrent writers\<close>

datatype lpc = Idle | Waiting nat string | Writing nat string

record log_sys =
  cout :: string
  log_mutex :: "nat \<Rightarrow> nat option"      \<comment> \<open>the thread that holds the mutex of a tag\<close>
  lpcs :: "nat \<Rightarrow> lpc"
  entered :: "string list"              \<comment> \<open>lines whose writer got the mutex, in this order\<close>

definition log_start :: log_sys where
  "log_start = \<lparr>cout = [], log_mutex = (\<lambda>_. None), lpcs = (\<lambda>_. Idle), entered = []\<rparr>"

inductive log_step :: "nat set \<Rightarrow> log_sys \<Rightarrow> log_sys \<Rightarrow> bool" for tags where
  l_call: "lpcs s i = Idle \<Longrightarrow> t \<in> tags \<Longrightarrow> log_step tags s (s\<lparr>lpcs := (lpcs s)(i := Waiting t l)\<rparr>)"
| l_lock: "lpcs s i = Waiting t l \<Longrightarrow> log_mutex s t = None \<Longrightarrow>
    log_step tags s (s\<lparr>log_mutex := (log_mutex s)(t \<mapsto> i), lpcs := (lpcs s)(i := Writing t l), entered := entered s @ [l]\<rparr>)"
| l_char: "lpcs s i = Writing t (c # l) \<Longrightarrow>
    log_step tags s (s\<lparr>cout := cout s @ [c], lpcs := (lpcs s)(i := Writing t l)\<rparr>)"
| l_unlock: "lpcs s i = Writing t [] \<Longrightarrow>
    log_step tags s (s\<lparr>log_mutex := (log_mutex s)(t := None), lpcs := (lpcs s)(i := Idle)\<rparr>)"

text \<open>
  With the single tag \<open>t\<close>: only the holder of the mutex writes, and the output followed by what
  it has left to write is the sequence of lines that entered.
\<close>

definition log_rest :: "nat \<Rightarrow> log_sys \<Rightarrow> string" where
  "log_rest t s = (case log_mutex s t of None \<Rightarrow> [] | Some i \<Rightarrow> (case lpcs s i of Writing _ l \<Rightarrow> l | _ \<Rightarrow> []))"

fun pc_ok :: "nat \<Rightarrow> nat option \<Rightarrow> nat \<Rightarrow> lpc \<Rightarrow> bool" where
  "pc_ok t holder i Idle \<longleftrightarrow> holder \<noteq> Some i"
| "pc_ok t holder i (Waiting t' l) \<longleftrightarrow> t' = t \<and> holder \<noteq> Some i"
| "pc_ok t holder i (Writing t' l) \<longleftrightarrow> t' = t \<and> holder = Some i"

definition log_inv :: "nat \<Rightarrow> log_sys \<Rightarrow> bool" where
  "log_inv t s \<longleftrightarrow> cout s @ log_rest t s = concat (entered s) \<and> (\<forall>i. pc_ok t (log_mutex s t) i (lpcs s i))"

lemma log_inv_pc: "log_inv t s \<Longrightarrow> pc_ok t (log_mutex s t) i (lpcs s i)"
  by (simp add: log_inv_def)

text \<open>A new holder of the mutex is at a writing point and nobody else is.\<close>

lemma pc_ok_holder: "pc_ok t (Some i) j pc \<Longrightarrow> j \<noteq> i \<Longrightarrow> pc_ok t None j pc \<and> (k \<noteq> j \<longrightarrow> pc_ok t (Some k) j pc)"
  by (cases pc) auto

lemma pc_ok_free: "pc_ok t None j pc \<Longrightarrow> j \<noteq> i \<Longrightarrow> pc_ok t (Some i) j pc"
  by (cases pc) auto

interpretation tag_log: inductive_invariant "\<lambda>s. s = log_start" "log_step {t}" "log_inv t" for t
proof
  show "log_inv t s" if "s = log_start" for s using that by (simp add: log_inv_def log_start_def log_rest_def)
  fix s s' assume inv: "log_inv t s" and st: "log_step {t} s s'"
  note pc = log_inv_pc [OF inv]
  from st show "log_inv t s'"
  proof cases
    case (l_call i t' l)
    then have "log_mutex s t \<noteq> Some i" using pc [of i] by simp
    then have "log_rest t s' = log_rest t s" using l_call by (auto simp: log_rest_def split: option.splits)
    with inv l_call \<open>log_mutex s t \<noteq> Some i\<close> show ?thesis by (simp add: log_inv_def)
  next
    case (l_lock i t' l)
    then have t': "t' = t" using pc [of i] by simp
    then have "log_rest t s = []" "log_rest t s' = l" using l_lock by (simp_all add: log_rest_def)
    moreover have "pc_ok t (Some i) j (lpcs s j)" if "j \<noteq> i" for j
      using pc [of j] l_lock(3) t' that by (simp add: pc_ok_free)
    ultimately show ?thesis using inv l_lock t' by (simp add: log_inv_def)
  next
    case (l_char i t' c l)
    have w: "t' = t" "log_mutex s t = Some i" using pc [of i] l_char(2) by simp_all
    then have "log_rest t s = c # l" "log_rest t s' = l" using l_char by (simp_all add: log_rest_def)
    with inv l_char w show ?thesis by (simp add: log_inv_def)
  next
    case (l_unlock i t')
    have w: "t' = t" "log_mutex s t = Some i" using pc [of i] l_unlock(2) by simp_all
    then have "log_rest t s = []" "log_rest t s' = []" using l_unlock by (simp_all add: log_rest_def)
    moreover have "pc_ok t None j (lpcs s j)" if "j \<noteq> i" for j
      using pc [of j] w that pc_ok_holder by simp
    ultimately show ?thesis using inv l_unlock w by (simp add: log_inv_def)
  qed
qed

section \<open>Schedules\<close>

datatype log_action = Call nat nat string | Step nat

definition log_act :: "log_sys \<Rightarrow> log_action \<Rightarrow> log_sys option" where
  "log_act s a =
     (case a of
        Call i t l \<Rightarrow> if lpcs s i = Idle then Some (s\<lparr>lpcs := (lpcs s)(i := Waiting t l)\<rparr>) else None
      | Step i \<Rightarrow>
          (case lpcs s i of
             Idle \<Rightarrow> None
           | Waiting t l \<Rightarrow>
               if log_mutex s t = None
               then Some (s\<lparr>log_mutex := (log_mutex s)(t \<mapsto> i), lpcs := (lpcs s)(i := Writing t l), entered := entered s @ [l]\<rparr>)
               else None
           | Writing t [] \<Rightarrow> Some (s\<lparr>log_mutex := (log_mutex s)(t := None), lpcs := (lpcs s)(i := Idle)\<rparr>)
           | Writing t (c # l) \<Rightarrow> Some (s\<lparr>cout := cout s @ [c], lpcs := (lpcs s)(i := Writing t l)\<rparr>)))"

fun log_run :: "log_sys \<Rightarrow> log_action list \<Rightarrow> log_sys option" where
  "log_run s [] = Some s"
| "log_run s (a # as) = (case log_act s a of None \<Rightarrow> None | Some s \<Rightarrow> log_run s as)"

definition tags_of :: "log_action list \<Rightarrow> nat set" where
  "tags_of as = {t. \<exists>i l. Call i t l \<in> set as}"

lemma log_act_step: "log_act s a = Some s' \<Longrightarrow> tags_of [a] \<subseteq> tags \<Longrightarrow> log_step tags s s'"
  by (cases a) (auto simp: log_act_def tags_of_def intro: log_step.intros split: if_splits lpc.splits list.splits)

lemma log_run_reach:
  "log_run s as = Some s' \<Longrightarrow> tags_of as \<subseteq> tags \<Longrightarrow> reach (\<lambda>s. s = log_start) (log_step tags) s \<Longrightarrow>
   reach (\<lambda>s. s = log_start) (log_step tags) s'"
proof (induction as arbitrary: s)
  case (Cons a as)
  then obtain s1 where s1: "log_act s a = Some s1" "log_run s1 as = Some s'" by (auto split: option.splits)
  have "tags_of [a] \<subseteq> tags" "tags_of as \<subseteq> tags" using Cons.prems(2) by (auto simp: tags_of_def)
  with s1 Cons show ?case by (blast intro: reach_step log_act_step)
qed simp

lemma log_run_start: "log_run log_start as = Some s \<Longrightarrow> tags_of as \<subseteq> tags \<Longrightarrow> reach (\<lambda>s. s = log_start) (log_step tags) s"
  by (erule log_run_reach) (simp_all add: reach_init)

section \<open>Properties\<close>

text \<open>
  Lines of one logger are whole. When every thread logs through the same instance, the
  output is the lines in the order their writers got the mutex, up to the characters the
  present holder has still to write; when nobody holds it, all of them.\<close>

theorem log_lines_whole:
  assumes "reach (\<lambda>s. s = log_start) (log_step {t}) s"
  shows "cout s @ log_rest t s = concat (entered s) \<and> (log_mutex s t = None \<longrightarrow> cout s = concat (entered s)) \<and>
    (\<forall>i j k l. lpcs s i = Writing t k \<longrightarrow> lpcs s j = Writing t l \<longrightarrow> i = j)"
proof -
  note inv = tag_log.reach_inv [OF assms]
  have out: "cout s @ log_rest t s = concat (entered s)" using inv by (simp add: log_inv_def)
  moreover have "cout s = concat (entered s)" if "log_mutex s t = None"
    using that out by (simp add: log_rest_def)
  moreover have "i = j" if "lpcs s i = Writing t k" "lpcs s j = Writing t l" for i j k l
    using that log_inv_pc [OF inv, of i] log_inv_pc [OF inv, of j] by simp
  ultimately show ?thesis by blast
qed

theorem log_lines_whole_witness:
  "\<exists>s. reach (\<lambda>s. s = log_start) (log_step {5}) s \<and> cout s = ''cdab'' \<and> entered s = [''cd'', ''ab''] \<and>
     cout s @ log_rest 5 s = concat (entered s)"
proof -
  let ?as = "[Call 1 5 ''ab'', Call 2 5 ''cd'', Step 2, Step 2, Step 2, Step 2, Step 1, Step 1, Step 1]"
  obtain s where s: "log_run log_start ?as = Some s" "cout s = ''cdab''" "entered s = [''cd'', ''ab'']"
    by (simp add: log_act_def log_start_def)
  have "tags_of ?as \<subseteq> {5}" by (auto simp: tags_of_def)
  note r = log_run_start [OF s(1) this]
  from log_lines_whole [OF r] s r show ?thesis by blast
qed

text \<open>
  Instances do not exclude each other. Two threads that log through different instances hold
  different mutexes, and their lines can be interleaved.\<close>

theorem log_lines_mixed:
  "\<exists>s. reach (\<lambda>s. s = log_start) (log_step {5, 6}) s \<and> entered s = [''ab'', ''cd''] \<and> cout s = ''acbd'' \<and> log_mutex s = (\<lambda>_. None)"
proof -
  let ?as = "[Call 1 5 ''ab'', Call 2 6 ''cd'', Step 1, Step 2, Step 1, Step 2, Step 1, Step 2, Step 1, Step 2]"
  obtain s where s: "log_run log_start ?as = Some s" "cout s = ''acbd''" "entered s = [''ab'', ''cd'']" "log_mutex s = (\<lambda>_. None)"
    by (simp add: log_act_def log_start_def fun_eq_iff)
  have "tags_of ?as \<subseteq> {5, 6}" by (auto simp: tags_of_def)
  with log_run_start [OF s(1)] s show ?thesis by blast
qed

text \<open>
  The name on the facade's lines is fixed by its first call: the given name when that call is
  \<^verbatim>\<open>init\<close>, the default name when it is a message; later calls of \<^verbatim>\<open>init\<close> have no effect.\<close>

definition call_line :: "(nat \<Rightarrow> tm_buf) \<Rightarrow> string \<Rightarrow> facade_call \<Rightarrow> string list" where
  "call_line localtime name c =
     (case c of Init _ \<Rightarrow> [] | Log lev now func line args \<Rightarrow> [log_line localtime name lev now func line args])"

lemmas logger_calls = logger_info_def logger_debug_def logger_error_def logger_warn_def

lemma facade_named:
  "reg internal_tag = Some name \<Longrightarrow> facade localtime reg c = (call_line localtime name c, reg)"
  by (auto simp: facade_def call_line_def init_def impl_logger_def get_instance_def logger_calls
      split: facade_call.splits LogLevel.splits)

lemma facade_run_named:
  "reg internal_tag = Some name \<Longrightarrow> facade_run localtime reg cs = concat (map (call_line localtime name) cs)"
  by (induction cs) (simp_all add: facade_named)

theorem facade_first_name:
  "facade_run localtime Map.empty (c # cs) =
     concat (map (call_line localtime (case c of Init name \<Rightarrow> name | Log _ _ _ _ _ \<Rightarrow> ''GenericLogger'')) (c # cs))"
  by (cases c) (simp_all add: facade_def init_def impl_logger_def get_instance_def facade_run_named call_line_def logger_calls
      split: LogLevel.splits)

text \<open>Milliseconds are printed without leading zeros: 7 and 700 milliseconds read \<open>.7\<close> and \<open>.700\<close>.\<close>

lemma log_time_ms: "log_time localtime 7000000 = (let b = localtime 0 in
    two_digits (tmb_hour b) @ '':'' @ two_digits (tmb_min b) @ '':'' @ two_digits (tmb_sec b) @ ''.7'')"
  by (simp add: log_time_def show_nat.simps char_of_def bit_0 Let_def)

end
