(* ===== verification/Cassandra_Client.thy ===== *)
theory Cassandra_Client
  imports Fiah_Prelude
begin

text \<open>
  The database client of \<^verbatim>\<open>include/fiah/io/Cassandra.hh\<close>. The Cassandra driver is a parameter: what
  connecting and executing a statement answer, and what they do to the database. The objects
  of the driver that the client creates and has to free live in a heap, so that a leak, a
  double free or a use after free is visible.
\<close>

section \<open>Driver\<close>

datatype cass_value = VString string | VBool bool | VFloat u32_t | VDouble u64_t | VInt32 u32_t | VInt64 u64_t

type_synonym row = "cass_value list"

text \<open>Return code and rows; \<open>CASS_OK\<close> is zero. Floating point values are their bits.\<close>

record 'd driver =
  drv_connect :: "'d \<Rightarrow> string \<Rightarrow> int \<times> 'd"
  drv_execute :: "'d \<Rightarrow> string \<Rightarrow> row \<Rightarrow> (int \<times> row list) \<times> 'd"

datatype cass_obj =
    Cluster string
  | Session
  | Statement string "cass_value option list"
  | Future int "row list"
  | Result "row list"
  | Iterator "row list" nat

record 'd cass =
  cass_heap :: "nat \<rightharpoonup> cass_obj"
  cass_next :: nat
  cass_db :: 'd
  cass_stderr :: nat       \<comment> \<open>messages printed\<close>

definition cass_alloc :: "cass_obj \<Rightarrow> 'd cass \<Rightarrow> nat \<times> 'd cass" where
  "cass_alloc ob s = (cass_next s, s\<lparr>cass_heap := (cass_heap s)(cass_next s \<mapsto> ob), cass_next := Suc (cass_next s)\<rparr>)"

definition cass_free :: "nat \<Rightarrow> 'd cass \<Rightarrow> 'd cass res" where
  "cass_free i s =
     (case cass_heap s i of None \<Rightarrow> Inl DoubleFree | Some _ \<Rightarrow> Inr (s\<lparr>cass_heap := (cass_heap s)(i := None)\<rparr>))"

definition cass_get :: "nat \<Rightarrow> 'd cass \<Rightarrow> cass_obj res" where
  "cass_get i s = (case cass_heap s i of None \<Rightarrow> Inl UseAfterFree | Some ob \<Rightarrow> Inr ob)"

definition cass_session_connect :: "'d driver \<Rightarrow> nat \<Rightarrow> nat \<Rightarrow> 'd cass \<Rightarrow> (nat \<times> 'd cass) res" where
  "cass_session_connect drv session cluster s =
     bind_res (cass_get session s) (\<lambda>_. bind_res (cass_get cluster s) (\<lambda>c.
       case c of
         Cluster hosts \<Rightarrow>
           let (rc, db) = drv_connect drv (cass_db s) hosts in Inr (cass_alloc (Future rc []) (s\<lparr>cass_db := db\<rparr>))
       | _ \<Rightarrow> Inl DeadObject))"

definition cass_session_execute :: "'d driver \<Rightarrow> nat \<Rightarrow> nat \<Rightarrow> 'd cass \<Rightarrow> (nat \<times> 'd cass) res" where
  "cass_session_execute drv session statement s =
     bind_res (cass_get session s) (\<lambda>_. bind_res (cass_get statement s) (\<lambda>st.
       case st of
         Statement query vs \<Rightarrow>
           let ((rc, rows), db) = drv_execute drv (cass_db s) query (map the (filter (\<lambda>v. v \<noteq> None) vs))
           in Inr (cass_alloc (Future rc rows) (s\<lparr>cass_db := db\<rparr>))
       | _ \<Rightarrow> Inl DeadObject))"

definition cass_statement_bind :: "nat \<Rightarrow> nat \<Rightarrow> cass_value \<Rightarrow> 'd cass \<Rightarrow> 'd cass res" where
  "cass_statement_bind statement k v s =
     bind_res (cass_get statement s) (\<lambda>st.
       case st of
         Statement query vs \<Rightarrow>
           Inr (s\<lparr>cass_heap := (cass_heap s)(statement \<mapsto> Statement query (vs[k := Some v]))\<rparr>)
       | _ \<Rightarrow> Inl DeadObject)"

definition cass_future_error_code :: "nat \<Rightarrow> 'd cass \<Rightarrow> int res" where
  "cass_future_error_code future s =
     bind_res (cass_get future s) (\<lambda>f. case f of Future rc rows \<Rightarrow> Inr rc | _ \<Rightarrow> Inl DeadObject)"

section \<open>Client\<close>

record basic =
  bln :: bool
  flt :: u32_t
  dbl :: u64_t
  i32 :: u32_t
  i64 :: u64_t

text \<open>A \<^verbatim>\<open>Basic\<close> that is filled field by field; a field that was not written has no value.\<close>

record basic_out =
  out_bln :: "bool option"
  out_flt :: "u32_t option"
  out_dbl :: "u64_t option"
  out_i32 :: "u32_t option"
  out_i64 :: "u64_t option"

definition print_error :: "nat \<Rightarrow> 'd cass \<Rightarrow> 'd cass res" where
  "print_error future s = bind_res (cass_get future s) (\<lambda>_. Inr (s\<lparr>cass_stderr := Suc (cass_stderr s)\<rparr>))"

definition create_cluster :: "string \<Rightarrow> 'd cass \<Rightarrow> nat \<times> 'd cass" where
  "create_cluster hosts s = cass_alloc (Cluster hosts) s"

definition connect_session :: "'d driver \<Rightarrow> nat \<Rightarrow> nat \<Rightarrow> 'd cass \<Rightarrow> (int \<times> 'd cass) res" where
  "connect_session drv session cluster s =
     bind_res (cass_session_connect drv session cluster s) (\<lambda>(future, s).
     bind_res (cass_future_error_code future s) (\<lambda>rc.
     bind_res (if rc \<noteq> 0 then print_error future s else Inr s) (\<lambda>s.
     bind_res (cass_free future s) (\<lambda>s. Inr (rc, s)))))"

definition execute_query :: "'d driver \<Rightarrow> nat \<Rightarrow> string \<Rightarrow> 'd cass \<Rightarrow> (int \<times> 'd cass) res" where
  "execute_query drv session query s =
     (let (statement, s) = cass_alloc (Statement query []) s in
     bind_res (cass_session_execute drv session statement s) (\<lambda>(future, s).
     bind_res (cass_future_error_code future s) (\<lambda>rc.
     bind_res (if rc \<noteq> 0 then print_error future s else Inr s) (\<lambda>s.
     bind_res (cass_free future s) (\<lambda>s.
     bind_res (cass_free statement s) (\<lambda>s. Inr (rc, s)))))))"

definition insert_query :: string where
  "insert_query = ''INSERT INTO examples.basic (key, bln, flt, dbl, i32, i64) VALUES (?, ?, ?, ?, ?, ?);''"

definition select_query :: string where
  "select_query = ''SELECT * FROM examples.basic WHERE key = ?''"

definition insert_into_basic :: "'d driver \<Rightarrow> nat \<Rightarrow> string \<Rightarrow> basic \<Rightarrow> 'd cass \<Rightarrow> (int \<times> 'd cass) res" where
  "insert_into_basic drv session key b s =
     (let (statement, s) = cass_alloc (Statement insert_query (replicate 6 None)) s in
     bind_res (cass_statement_bind statement 0 (VString key) s) (\<lambda>s.
     bind_res (cass_statement_bind statement 1 (VBool (bln b)) s) (\<lambda>s.
     bind_res (cass_statement_bind statement 2 (VFloat (flt b)) s) (\<lambda>s.
     bind_res (cass_statement_bind statement 3 (VDouble (dbl b)) s) (\<lambda>s.
     bind_res (cass_statement_bind statement 4 (VInt32 (i32 b)) s) (\<lambda>s.
     bind_res (cass_statement_bind statement 5 (VInt64 (i64 b)) s) (\<lambda>s.
     bind_res (cass_session_execute drv session statement s) (\<lambda>(future, s).
     bind_res (cass_future_error_code future s) (\<lambda>rc.
     bind_res (if rc \<noteq> 0 then print_error future s else Inr s) (\<lambda>s.
     bind_res (cass_free future s) (\<lambda>s.
     bind_res (cass_free statement s) (\<lambda>s. Inr (rc, s)))))))))))))"

text \<open>The getters write their field when the column exists and has the type asked for.\<close>

definition column :: "row \<Rightarrow> nat \<Rightarrow> cass_value option" where
  "column r k = (if k < length r then Some (r ! k) else None)"

definition read_row :: "row \<Rightarrow> basic_out \<Rightarrow> basic_out" where
  "read_row r b =
     (let b = (case column r 1 of Some (VBool v) \<Rightarrow> b\<lparr>out_bln := Some v\<rparr> | _ \<Rightarrow> b);
          b = (case column r 2 of Some (VDouble v) \<Rightarrow> b\<lparr>out_dbl := Some v\<rparr> | _ \<Rightarrow> b);
          b = (case column r 3 of Some (VFloat v) \<Rightarrow> b\<lparr>out_flt := Some v\<rparr> | _ \<Rightarrow> b);
          b = (case column r 4 of Some (VInt32 v) \<Rightarrow> b\<lparr>out_i32 := Some v\<rparr> | _ \<Rightarrow> b);
          b = (case column r 5 of Some (VInt64 v) \<Rightarrow> b\<lparr>out_i64 := Some v\<rparr> | _ \<Rightarrow> b)
      in b)"

definition read_result :: "nat \<Rightarrow> basic_out \<Rightarrow> 'd cass \<Rightarrow> (basic_out \<times> 'd cass) res" where
  "read_result future b s =
     bind_res (cass_get future s) (\<lambda>f. case f of
       Future rc rows \<Rightarrow>
         let (result, s) = cass_alloc (Result rows) s; (iterator, s) = cass_alloc (Iterator rows 0) s;
             b = (case rows of [] \<Rightarrow> b | r # _ \<Rightarrow> read_row r b)
         in bind_res (cass_free result s) (\<lambda>s. bind_res (cass_free iterator s) (\<lambda>s. Inr (b, s)))
     | _ \<Rightarrow> Inl DeadObject)"

definition select_from_basic ::
  "'d driver \<Rightarrow> nat \<Rightarrow> string \<Rightarrow> basic_out \<Rightarrow> 'd cass \<Rightarrow> (int \<times> basic_out \<times> 'd cass) res" where
  "select_from_basic drv session key b s =
     (let (statement, s) = cass_alloc (Statement select_query (replicate 1 None)) s in
     bind_res (cass_statement_bind statement 0 (VString key) s) (\<lambda>s.
     bind_res (cass_session_execute drv session statement s) (\<lambda>(future, s).
     bind_res (cass_future_error_code future s) (\<lambda>rc.
     bind_res (if rc \<noteq> 0 then bind_res (print_error future s) (\<lambda>s. Inr (b, s)) else read_result future b s) (\<lambda>(b, s).
     bind_res (cass_free future s) (\<lambda>s.
     bind_res (cass_free statement s) (\<lambda>s. Inr (rc, b, s))))))))"

text \<open>An assertion that compares an unwritten field reads an indeterminate value.\<close>

definition assert_field :: "'a \<Rightarrow> 'a option \<Rightarrow> unit res" where
  "assert_field x y = (case y of None \<Rightarrow> Inl DeadObject | Some v \<Rightarrow> if x = v then Inr () else Inl AssertFailed)"

definition assert_equal :: "basic \<Rightarrow> basic_out \<Rightarrow> unit res" where
  "assert_equal b c =
     bind_res (assert_field (bln b) (out_bln c)) (\<lambda>_. bind_res (assert_field (flt b) (out_flt c)) (\<lambda>_.
     bind_res (assert_field (dbl b) (out_dbl c)) (\<lambda>_. bind_res (assert_field (i32 b) (out_i32 c)) (\<lambda>_.
     assert_field (i64 b) (out_i64 c)))))"

definition no_basic :: basic_out where
  "no_basic = \<lparr>out_bln = None, out_flt = None, out_dbl = None, out_i32 = None, out_i64 = None\<rparr>"

text \<open>The statements that create the tables and the input, whose floats are given by their bits.\<close>

definition create_keyspace :: string where
  "create_keyspace = ''CREATE KEYSPACE examples WITH replication = { 'class': 'SimpleStrategy', 'replication_factor': '3' };''"

definition create_table :: string where
  "create_table = ''CREATE TABLE examples.basic (key text, bln boolean, flt float, dbl double, i32 int, i64 bigint, PRIMARY KEY (key));''"

definition db_input :: basic where
  "db_input = \<lparr>bln = True, flt = 0x3A83126F, dbl = 0x3F2A36E2EB1C432D, i32 = 1, i64 = 2\<rparr>"

definition init_db :: "'d driver \<Rightarrow> string list \<Rightarrow> 'd cass \<Rightarrow> (bool \<times> 'd cass) res" where
  "init_db drv argv s =
     (let (session, s) = cass_alloc Session s;
          hosts = (if length argv > 1 then argv ! 1 else ''127.0.0.1'');
          (cluster, s) = create_cluster hosts s
      in bind_res (connect_session drv session cluster s) (\<lambda>(rc, s).
         if rc \<noteq> 0
         then bind_res (cass_free cluster s) (\<lambda>s. bind_res (cass_free session s) (\<lambda>s. Inr (False, s)))
         else
           bind_res (execute_query drv session create_keyspace s) (\<lambda>(_, s).
           bind_res (execute_query drv session create_table s) (\<lambda>(_, s).
           bind_res (insert_into_basic drv session ''test2'' db_input s) (\<lambda>(_, s).
           bind_res (select_from_basic drv session ''test2'' no_basic s) (\<lambda>(_, output, s).
           bind_res (assert_equal db_input output) (\<lambda>_.
           bind_res (cass_free session s) (\<lambda>s. bind_res (cass_free cluster s) (\<lambda>s. Inr (True, s))))))))))"

section \<open>Every call frees what it allocates\<close>

definition cass_fresh :: "'d cass \<Rightarrow> bool" where
  "cass_fresh s \<longleftrightarrow> (\<forall>i\<ge>cass_next s. cass_heap s i = None)"

definition keeps_heap :: "'d cass \<Rightarrow> 'd cass \<Rightarrow> bool" where
  "keeps_heap s s' \<longleftrightarrow> cass_heap s' = cass_heap s \<and> cass_next s \<le> cass_next s'"

lemmas cass_ops = cass_alloc_def cass_free_def cass_get_def cass_session_connect_def cass_session_execute_def
  cass_statement_bind_def cass_future_error_code_def print_error_def Let_def split_beta

lemma fresh_keeps: "cass_fresh s \<Longrightarrow> keeps_heap s s' \<Longrightarrow> cass_fresh s'"
  by (auto simp: cass_fresh_def keeps_heap_def)

lemma heap_next:
  assumes "cass_fresh s"
  shows "cass_heap s (cass_next s) = None" "cass_heap s (Suc (cass_next s)) = None"
    "cass_heap s (Suc (Suc (cass_next s))) = None" "cass_heap s (Suc (Suc (Suc (cass_next s)))) = None"
  using assms by (simp_all add: cass_fresh_def)

lemma upd_None_id: "m k = None \<Longrightarrow> m(k := None) = m"
  by (simp add: fun_upd_idem_iff)

lemma live_not_next: "cass_fresh s \<Longrightarrow> cass_heap s i = Some ob \<Longrightarrow> i < cass_next s"
  by (metis cass_fresh_def linorder_not_less option.distinct(1))

lemma connect_session_exact:
  assumes f: "cass_fresh s" and ses: "cass_heap s session = Some Session" and cl: "cass_heap s cluster = Some (Cluster hosts)"
  shows "\<exists>s'. connect_session drv session cluster s = Inr (fst (drv_connect drv (cass_db s) hosts), s') \<and> keeps_heap s s' \<and>
    cass_db s' = snd (drv_connect drv (cass_db s) hosts)"
  using heap_next [OF f] ses cl
  by (auto simp: connect_session_def cass_ops keeps_heap_def upd_None_id)

lemma execute_query_exact:
  assumes f: "cass_fresh s" and ses: "cass_heap s session = Some Session"
  shows "\<exists>s'. execute_query drv session query s = Inr (fst (fst (drv_execute drv (cass_db s) query [])), s') \<and> keeps_heap s s' \<and>
    cass_db s' = snd (drv_execute drv (cass_db s) query [])"
proof -
  have "session \<noteq> cass_next s" using live_not_next [OF f ses] by simp
  then show ?thesis
    using heap_next [OF f] ses
    by (simp add: execute_query_def cass_ops keeps_heap_def upd_None_id fun_upd_twist)
qed

definition basic_row :: "string \<Rightarrow> basic \<Rightarrow> row" where
  "basic_row key b = [VString key, VBool (bln b), VFloat (flt b), VDouble (dbl b), VInt32 (i32 b), VInt64 (i64 b)]"

lemma insert_into_basic_exact:
  assumes f: "cass_fresh s" and ses: "cass_heap s session = Some Session"
  shows "\<exists>s'. insert_into_basic drv session key b s =
      Inr (fst (fst (drv_execute drv (cass_db s) insert_query (basic_row key b))), s') \<and>
    keeps_heap s s' \<and> cass_db s' = snd (drv_execute drv (cass_db s) insert_query (basic_row key b))"
proof -
  have "session \<noteq> cass_next s" using live_not_next [OF f ses] by simp
  then show ?thesis
    using heap_next [OF f] ses
    by (simp add: insert_into_basic_def cass_ops keeps_heap_def upd_None_id fun_upd_twist basic_row_def numeral_eq_Suc)
qed

lemma select_from_basic_exact:
  assumes f: "cass_fresh s" and ses: "cass_heap s session = Some Session"
  shows "\<exists>s'. select_from_basic drv session key b s =
      (case drv_execute drv (cass_db s) select_query [VString key] of
         ((rc, rows), db) \<Rightarrow> Inr (rc, if rc = 0 then (case rows of [] \<Rightarrow> b | r # _ \<Rightarrow> read_row r b) else b, s')) \<and>
    keeps_heap s s' \<and> cass_db s' = snd (drv_execute drv (cass_db s) select_query [VString key])"
proof -
  have "session \<noteq> cass_next s" using live_not_next [OF f ses] by simp
  then show ?thesis
    using heap_next [OF f] ses
    by (simp add: select_from_basic_def read_result_def cass_ops keeps_heap_def upd_None_id fun_upd_twist split: list.splits)
qed

section \<open>Initialisation\<close>

text \<open>The database state that the select of \<^verbatim>\<open>init_db\<close> meets, and what it reads.\<close>

definition db_after_insert :: "'d driver \<Rightarrow> 'd \<Rightarrow> 'd" where
  "db_after_insert drv db =
     (let db = snd (drv_execute drv db create_keyspace []); db = snd (drv_execute drv db create_table [])
      in snd (drv_execute drv db insert_query (basic_row ''test2'' db_input)))"

definition selected :: "'d driver \<Rightarrow> 'd \<Rightarrow> basic_out" where
  "selected drv db =
     (case drv_execute drv db select_query [VString ''test2''] of
        ((rc, rows), _) \<Rightarrow> if rc = 0 then (case rows of [] \<Rightarrow> no_basic | r # _ \<Rightarrow> read_row r no_basic) else no_basic)"

lemma keeps_trans: "keeps_heap s t \<Longrightarrow> keeps_heap t u \<Longrightarrow> keeps_heap s u"
  by (simp add: keeps_heap_def)

lemma keeps_live: "keeps_heap s t \<Longrightarrow> cass_heap s i = Some ob \<Longrightarrow> cass_heap t i = Some ob"
  by (simp add: keeps_heap_def)

text \<open>The four statements of a connected session, for every continuation.\<close>

lemma session_work:
  assumes f: "cass_fresh s" and ses: "cass_heap s session = Some Session"
  shows "\<exists>s'. keeps_heap s s' \<and> (\<forall>K.
    bind_res (execute_query drv session create_keyspace s) (\<lambda>(_, s).
    bind_res (execute_query drv session create_table s) (\<lambda>(_, s).
    bind_res (insert_into_basic drv session ''test2'' db_input s) (\<lambda>(_, s).
    bind_res (select_from_basic drv session ''test2'' no_basic s) (\<lambda>(_, output, s). K output s)))) =
    K (selected drv (db_after_insert drv (cass_db s))) s')"
proof -
  obtain r1 s1 where s1: "execute_query drv session create_keyspace s = Inr (r1, s1)" "keeps_heap s s1"
    "cass_db s1 = snd (drv_execute drv (cass_db s) create_keyspace [])"
    using execute_query_exact [OF f ses] by blast
  obtain r2 s2 where s2: "execute_query drv session create_table s1 = Inr (r2, s2)" "keeps_heap s1 s2"
    "cass_db s2 = snd (drv_execute drv (cass_db s1) create_table [])"
    using execute_query_exact [OF fresh_keeps [OF f s1(2)] keeps_live [OF s1(2) ses]] by blast
  note k2 = keeps_trans [OF s1(2) s2(2)]
  obtain r3 s3 where s3: "insert_into_basic drv session ''test2'' db_input s2 = Inr (r3, s3)" "keeps_heap s2 s3"
    "cass_db s3 = snd (drv_execute drv (cass_db s2) insert_query (basic_row ''test2'' db_input))"
    using insert_into_basic_exact [OF fresh_keeps [OF f k2] keeps_live [OF k2 ses]] by blast
  note k3 = keeps_trans [OF k2 s3(2)]
  have db: "cass_db s3 = db_after_insert drv (cass_db s)"
    by (simp only: s3(3) s2(3) s1(3) db_after_insert_def Let_def)
  obtain r4 s4 where s4: "select_from_basic drv session ''test2'' no_basic s3 = Inr (r4, selected drv (cass_db s3), s4)"
    "keeps_heap s3 s4"
    using select_from_basic_exact [OF fresh_keeps [OF f k3] keeps_live [OF k3 ses], of drv "''test2''" no_basic]
    by (auto simp: selected_def split_beta)
  from s1(1) s2(1) s3(1) s4(1) keeps_trans [OF k3 s4(2)] db show ?thesis by (intro exI [of _ s4]) simp
qed

lemma free_two:
  assumes "cass_heap t = H(a \<mapsto> x, b \<mapsto> y)" "H a = None" "H b = None" "a \<noteq> b"
  shows "\<exists>u. cass_heap u = H \<and> bind_res (cass_free a t) (\<lambda>t. bind_res (cass_free b t) (\<lambda>t. Inr (r, t))) = Inr (r, u)"
    and "\<exists>u. cass_heap u = H \<and> bind_res (cass_free b t) (\<lambda>t. bind_res (cass_free a t) (\<lambda>t. Inr (r, t))) = Inr (r, u)"
proof -
  have "H(a := None, b := None) = H" "H(b := None, a := None) = H" using assms(2,3) by (simp_all add: fun_upd_idem)
  then show "\<exists>u. cass_heap u = H \<and> bind_res (cass_free a t) (\<lambda>t. bind_res (cass_free b t) (\<lambda>t. Inr (r, t))) = Inr (r, u)"
    and "\<exists>u. cass_heap u = H \<and> bind_res (cass_free b t) (\<lambda>t. bind_res (cass_free a t) (\<lambda>t. Inr (r, t))) = Inr (r, u)"
    using assms(1,4) by (simp_all add: cass_free_def fun_upd_twist [of a b])
qed

definition db_hosts :: "string list \<Rightarrow> string" where
  "db_hosts argv = (if length argv > 1 then argv ! 1 else ''127.0.0.1'')"

lemma init_db_unfold:
  fixes s :: "'d cass" and argv :: "string list"
  defines "ses \<equiv> cass_next s" and "cl \<equiv> Suc (cass_next s)"
  defines "s0 \<equiv> s\<lparr>cass_heap := (cass_heap s)(ses \<mapsto> Session, cl \<mapsto> Cluster (db_hosts argv)), cass_next := Suc cl\<rparr>"
  shows "init_db drv argv s = bind_res (connect_session drv ses cl s0) (\<lambda>(rc, s).
      if rc \<noteq> 0 then bind_res (cass_free cl s) (\<lambda>s. bind_res (cass_free ses s) (\<lambda>s. Inr (False, s)))
      else bind_res (execute_query drv ses create_keyspace s) (\<lambda>(_, s).
        bind_res (execute_query drv ses create_table s) (\<lambda>(_, s).
        bind_res (insert_into_basic drv ses ''test2'' db_input s) (\<lambda>(_, s).
        bind_res (select_from_basic drv ses ''test2'' no_basic s) (\<lambda>(_, output, s).
        bind_res (assert_equal db_input output) (\<lambda>_.
        bind_res (cass_free ses s) (\<lambda>s. bind_res (cass_free cl s) (\<lambda>s. Inr (True, s)))))))))"
proof -
  have "cass_alloc Session s = (ses, s\<lparr>cass_heap := (cass_heap s)(ses \<mapsto> Session), cass_next := cl\<rparr>)"
    "create_cluster (db_hosts argv) (s\<lparr>cass_heap := (cass_heap s)(ses \<mapsto> Session), cass_next := cl\<rparr>) = (cl, s0)"
    by (simp_all add: create_cluster_def cass_alloc_def s0_def ses_def cl_def)
  then show ?thesis by (simp only: init_db_def Let_def prod.case db_hosts_def [symmetric])
qed

lemma init_db_exact:
  assumes f: "cass_fresh s"
  shows "\<exists>s'. cass_heap s' = cass_heap s \<and> init_db drv argv s =
      (case drv_connect drv (cass_db s) (db_hosts argv) of (rc, db) \<Rightarrow>
         if rc \<noteq> 0 then Inr (False, s')
         else bind_res (assert_equal db_input (selected drv (db_after_insert drv db))) (\<lambda>_. Inr (True, s')))"
proof -
  let ?ses = "cass_next s" and ?cl = "Suc (cass_next s)"
  let ?h = "(cass_heap s)(?ses \<mapsto> Session, ?cl \<mapsto> Cluster (db_hosts argv))"
  define s0 where "s0 = s\<lparr>cass_heap := ?h, cass_next := Suc ?cl\<rparr>"
  have f0: "cass_fresh s0" using f by (auto simp: s0_def cass_fresh_def)
  have ses: "cass_heap s0 ?ses = Some Session" and cl: "cass_heap s0 ?cl = Some (Cluster (db_hosts argv))" and db0: "cass_db s0 = cass_db s"
    by (simp_all add: s0_def)
  obtain rc db where c: "drv_connect drv (cass_db s) (db_hosts argv) = (rc, db)" by fastforce
  obtain s1 where s1: "connect_session drv ?ses ?cl s0 = Inr (rc, s1)" "keeps_heap s0 s1" "cass_db s1 = db"
    using connect_session_exact [OF f0 ses cl, of drv] c db0 by auto
  note unfold = init_db_unfold [of drv argv s, folded s0_def]
  have two: "cass_heap t = ?h" if "keeps_heap s0 t" for t using that by (simp add: keeps_heap_def s0_def)
  show ?thesis
  proof (cases "rc = 0")
    case True
    obtain s2 where s2: "keeps_heap s1 s2" and K: "\<And>K :: basic_out \<Rightarrow> 'a cass \<Rightarrow> (bool \<times> 'a cass) res.
        bind_res (execute_query drv ?ses create_keyspace s1) (\<lambda>(_, s).
        bind_res (execute_query drv ?ses create_table s) (\<lambda>(_, s).
        bind_res (insert_into_basic drv ?ses ''test2'' db_input s) (\<lambda>(_, s).
        bind_res (select_from_basic drv ?ses ''test2'' no_basic s) (\<lambda>(_, output, s). K output s)))) =
        K (selected drv (db_after_insert drv db)) s2"
      using session_work [OF fresh_keeps [OF f0 s1(2)] keeps_live [OF s1(2) ses], of drv] s1(3) by auto
    obtain u where "cass_heap u = cass_heap s"
      "bind_res (cass_free ?ses s2) (\<lambda>s. bind_res (cass_free ?cl s) (\<lambda>s. Inr (True, s))) = Inr (True, u)"
      using free_two(1) [OF two [OF keeps_trans [OF s1(2) s2]] heap_next(1,2) [OF f], where r = True] by auto
    with True c s1(1) K [of "\<lambda>output s. bind_res (assert_equal db_input output) (\<lambda>_.
        bind_res (cass_free ?ses s) (\<lambda>s. bind_res (cass_free ?cl s) (\<lambda>s. Inr (True, s))))"]
    show ?thesis unfolding unfold by (intro exI [of _ u]) simp
  next
    case False
    obtain u where "cass_heap u = cass_heap s"
      "bind_res (cass_free ?cl s1) (\<lambda>s. bind_res (cass_free ?ses s) (\<lambda>s. Inr (False, s))) = Inr (False, u)"
      using free_two(2) [OF two [OF s1(2)] heap_next(1,2) [OF f], where r = False] by auto
    with False c s1(1) show ?thesis unfolding unfold by (intro exI [of _ u]) simp
  qed
qed

section \<open>Properties\<close>

lemma assert_field_error: "assert_field x y = Inl e \<Longrightarrow> e = DeadObject \<or> e = AssertFailed"
  by (auto simp: assert_field_def split: option.splits if_splits)

lemma assert_equal_error: "assert_equal b c = Inl e \<Longrightarrow> e = DeadObject \<or> e = AssertFailed"
  unfolding assert_equal_def by (auto simp: bind_res_def split: sum.splits dest: assert_field_error)

text \<open>A database that answers the select with the row just inserted, its columns in a given order.\<close>

definition answers :: "'d driver \<Rightarrow> (basic \<Rightarrow> row) \<Rightarrow> bool" where
  "answers drv cols \<longleftrightarrow>
     (\<forall>db key b. fst (drv_execute drv (snd (drv_execute drv db insert_query (basic_row key b))) select_query [VString key]) =
        (0, [VString key # cols b]))"

definition by_name :: "basic \<Rightarrow> row" where
  "by_name b = [VBool (bln b), VDouble (dbl b), VFloat (flt b), VInt32 (i32 b), VInt64 (i64 b)]"

definition as_declared :: "basic \<Rightarrow> row" where
  "as_declared b = [VBool (bln b), VFloat (flt b), VDouble (dbl b), VInt32 (i32 b), VInt64 (i64 b)]"

text \<open>
  The client frees what it allocates, whatever the driver answers: \<^verbatim>\<open>init_db\<close> never frees an
  object twice or uses a freed one, and when it returns the heap of driver objects is as before;
  it returns false exactly when connecting fails. Its assertions hold for a database that
  returns the columns ordered by name, and read an unwritten field for one that returns them
  in the order of the table's declaration.\<close>

theorem cassandra_resources:
  assumes "cass_fresh s"
  shows "(case init_db drv argv s of
       Inr (ok, s') \<Rightarrow> cass_heap s' = cass_heap s \<and> (ok \<longleftrightarrow> fst (drv_connect drv (cass_db s) (db_hosts argv)) = 0)
     | Inl e \<Rightarrow> e = DeadObject \<or> e = AssertFailed) \<and>
    (fst (drv_connect drv (cass_db s) (db_hosts argv)) = 0 \<and> answers drv by_name \<longrightarrow> (\<exists>s'. init_db drv argv s = Inr (True, s'))) \<and>
    (fst (drv_connect drv (cass_db s) (db_hosts argv)) = 0 \<and> answers drv as_declared \<longrightarrow> init_db drv argv s = Inl DeadObject)"
proof -
  obtain rc db where c: "drv_connect drv (cass_db s) (db_hosts argv) = (rc, db)" by fastforce
  let ?asserts = "assert_equal db_input (selected drv (db_after_insert drv db))"
  obtain s' where s': "cass_heap s' = cass_heap s" "init_db drv argv s =
      (if rc \<noteq> 0 then Inr (False, s') else bind_res ?asserts (\<lambda>_. Inr (True, s')))"
    using init_db_exact [OF assms, of drv argv] c by auto
  have row: "selected drv (db_after_insert drv db) = read_row (VString ''test2'' # cols db_input) no_basic" if "answers drv cols" for cols
    using that unfolding answers_def by (simp add: selected_def db_after_insert_def split_beta)
  have "?asserts = Inr ()" if "answers drv by_name"
    unfolding row [OF that] by (simp add: by_name_def read_row_def column_def no_basic_def assert_equal_def assert_field_def)
  moreover have "?asserts = Inl DeadObject" if "answers drv as_declared"
    unfolding row [OF that] by (simp add: as_declared_def read_row_def column_def no_basic_def assert_equal_def assert_field_def)
  ultimately show ?thesis
    using s' c by (cases ?asserts) (auto dest: assert_equal_error)
qed

text \<open>A database with one row that answers in the order of the column names.\<close>

definition example_driver :: "row driver" where
  "example_driver = \<lparr>drv_connect = (\<lambda>db hosts. (0, db)),
     drv_execute = (\<lambda>db query vs.
       if query = insert_query then ((0, []), [vs ! 0, vs ! 1, vs ! 3, vs ! 2, vs ! 4, vs ! 5])
       else if query = select_query then ((0, [db]), db) else ((0, []), db))\<rparr>"

theorem cassandra_resources_witness:
  "\<exists>s'. init_db example_driver [''client'', ''10.0.0.1''] \<lparr>cass_heap = Map.empty, cass_next = 0, cass_db = [], cass_stderr = 0\<rparr> =
     Inr (True, s') \<and> cass_heap s' = Map.empty"
proof -
  let ?s = "\<lparr>cass_heap = Map.empty, cass_next = 0, cass_db = [] :: row, cass_stderr = 0\<rparr>"
  have q: "select_query \<noteq> insert_query" by (simp add: select_query_def insert_query_def)
  have "answers example_driver by_name"
    using q by (simp add: answers_def example_driver_def by_name_def basic_row_def)
  moreover have "fst (drv_connect example_driver (cass_db ?s) hosts) = 0" for hosts by (simp add: example_driver_def)
  moreover have "cass_fresh ?s" by (simp add: cass_fresh_def)
  ultimately show ?thesis using cassandra_resources [of ?s example_driver "[''client'', ''10.0.0.1'']"] by auto
qed

end
