(* ===== verification/Numeric.thy ===== *)
theory Numeric
  imports Fiah_Prelude Complex_Main
begin

text \<open>
  The numerical headers under \<^verbatim>\<open>include/fiah/math\<close>: dual numbers for automatic differentiation,
  finite differences and a matrix of vectors. A \<^verbatim>\<open>double\<close> is a real number
  here: the theorems are about the formulas, not about rounding. Newton's iteration is left out: its call of the
  difference quotient does not compile, and its loop is governed by rounding, infinities and NaN.
\<close>

section \<open>Dual numbers (AutoDiff.hpp)\<close>

record dual =
  dual_val :: real
  dual_d :: real

definition dual_plus :: "dual \<Rightarrow> dual \<Rightarrow> dual" where
  "dual_plus a b = \<lparr>dual_val = dual_val a + dual_val b, dual_d = dual_d a + dual_d b\<rparr>"

definition dual_minus :: "dual \<Rightarrow> dual \<Rightarrow> dual" where
  "dual_minus a b = \<lparr>dual_val = dual_val a - dual_val b, dual_d = dual_d a - dual_d b\<rparr>"

definition dual_times :: "dual \<Rightarrow> dual \<Rightarrow> dual" where
  "dual_times a b = \<lparr>dual_val = dual_val a * dual_val b, dual_d = dual_d a * dual_val b + dual_val a * dual_d b\<rparr>"

definition dual_divide :: "dual \<Rightarrow> dual \<Rightarrow> dual" where
  "dual_divide a b =
     \<lparr>dual_val = dual_val a * dual_val b,
      dual_d = (dual_d a * dual_val b - dual_val a * dual_d b) / (dual_val b * dual_val b)\<rparr>"

definition dual_sin :: "dual \<Rightarrow> dual" where
  "dual_sin x = \<lparr>dual_val = sin (dual_val x), dual_d = cos (dual_val x) * dual_d x\<rparr>"

definition dual_cos :: "dual \<Rightarrow> dual" where
  "dual_cos x = \<lparr>dual_val = cos (dual_val x), dual_d = - sin (dual_val x) * dual_d x\<rparr>"

definition dual_exp :: "dual \<Rightarrow> dual" where
  "dual_exp x = (let e = exp (dual_val x) in \<lparr>dual_val = e, dual_d = e * dual_d x\<rparr>)"

text \<open>Programs of one variable over these operations.\<close>

datatype dexpr =
    Var
  | Const real
  | Plus dexpr dexpr
  | Minus dexpr dexpr
  | Times dexpr dexpr
  | Divide dexpr dexpr
  | Sin dexpr
  | Cos dexpr
  | Exp dexpr

fun eval_real :: "dexpr \<Rightarrow> real \<Rightarrow> real" where
  "eval_real Var x = x"
| "eval_real (Const c) x = c"
| "eval_real (Plus a b) x = eval_real a x + eval_real b x"
| "eval_real (Minus a b) x = eval_real a x - eval_real b x"
| "eval_real (Times a b) x = eval_real a x * eval_real b x"
| "eval_real (Divide a b) x = eval_real a x / eval_real b x"
| "eval_real (Sin a) x = sin (eval_real a x)"
| "eval_real (Cos a) x = cos (eval_real a x)"
| "eval_real (Exp a) x = exp (eval_real a x)"

fun eval_dual :: "dexpr \<Rightarrow> real \<Rightarrow> dual" where
  "eval_dual Var x = \<lparr>dual_val = x, dual_d = 1\<rparr>"
| "eval_dual (Const c) x = \<lparr>dual_val = c, dual_d = 0\<rparr>"
| "eval_dual (Plus a b) x = dual_plus (eval_dual a x) (eval_dual b x)"
| "eval_dual (Minus a b) x = dual_minus (eval_dual a x) (eval_dual b x)"
| "eval_dual (Times a b) x = dual_times (eval_dual a x) (eval_dual b x)"
| "eval_dual (Divide a b) x = dual_divide (eval_dual a x) (eval_dual b x)"
| "eval_dual (Sin a) x = dual_sin (eval_dual a x)"
| "eval_dual (Cos a) x = dual_cos (eval_dual a x)"
| "eval_dual (Exp a) x = dual_exp (eval_dual a x)"

fun division_free :: "dexpr \<Rightarrow> bool" where
  "division_free Var = True"
| "division_free (Const c) = True"
| "division_free (Plus a b) = (division_free a \<and> division_free b)"
| "division_free (Minus a b) = (division_free a \<and> division_free b)"
| "division_free (Times a b) = (division_free a \<and> division_free b)"
| "division_free (Divide a b) = False"
| "division_free (Sin a) = division_free a"
| "division_free (Cos a) = division_free a"
| "division_free (Exp a) = division_free a"

definition differentiates :: "dexpr \<Rightarrow> real \<Rightarrow> bool" where
  "differentiates e x \<longleftrightarrow> dual_val (eval_dual e x) = eval_real e x \<and>
     (eval_real e has_real_derivative dual_d (eval_dual e x)) (at x)"

lemma eval_real_fun:
  "eval_real Var = (\<lambda>x. x)" "eval_real (Const c) = (\<lambda>x. c)"
  "eval_real (Plus a b) = (\<lambda>x. eval_real a x + eval_real b x)" "eval_real (Minus a b) = (\<lambda>x. eval_real a x - eval_real b x)"
  "eval_real (Times a b) = (\<lambda>x. eval_real a x * eval_real b x)" "eval_real (Divide a b) = (\<lambda>x. eval_real a x / eval_real b x)"
  "eval_real (Sin a) = (\<lambda>x. sin (eval_real a x))" "eval_real (Cos a) = (\<lambda>x. cos (eval_real a x))"
  "eval_real (Exp a) = (\<lambda>x. exp (eval_real a x))"
  by (simp_all add: fun_eq_iff)

lemmas dual_ops = dual_plus_def dual_minus_def dual_times_def dual_divide_def dual_sin_def dual_cos_def dual_exp_def

lemma division_free_differentiates: "division_free e \<Longrightarrow> differentiates e x"
proof (induction e)
  case (Times a b)
  then show ?case
    by (auto simp: differentiates_def dual_ops eval_real_fun(5) intro!: derivative_eq_intros)
next
  case (Sin a)
  then show ?case
    by (auto simp: differentiates_def dual_ops eval_real_fun(7) intro!: derivative_eq_intros)
next
  case (Cos a)
  then show ?case
    by (auto simp: differentiates_def dual_ops eval_real_fun(8) intro!: derivative_eq_intros)
next
  case (Exp a)
  then show ?case
    by (auto simp: differentiates_def dual_ops eval_real_fun(9) Let_def intro!: derivative_eq_intros)
next
  case (Plus a b)
  then show ?case
    by (auto simp: differentiates_def dual_ops eval_real_fun(3) intro!: derivative_eq_intros)
next
  case (Minus a b)
  then show ?case
    by (auto simp: differentiates_def dual_ops eval_real_fun(4) intro!: derivative_eq_intros)
qed (auto simp: differentiates_def eval_real_fun)

section \<open>Finite differences (FiniteDiff.hpp)\<close>

datatype DiffType = Forward | Backward | Central

definition calcForwardFiniteDiff :: "real \<Rightarrow> (real \<Rightarrow> real) \<Rightarrow> real \<Rightarrow> real" where
  "calcForwardFiniteDiff x f h = (f (x + h) - f x) / h"

definition calcCentralFiniteDiff :: "real \<Rightarrow> (real \<Rightarrow> real) \<Rightarrow> real \<Rightarrow> real" where
  "calcCentralFiniteDiff x f h = (f (x + h) - f (x - h)) / (2 * h)"

definition calcBackwardFiniteDiff :: "real \<Rightarrow> (real \<Rightarrow> real) \<Rightarrow> real \<Rightarrow> real" where
  "calcBackwardFiniteDiff x f h = (f x - f (x - h)) / h"

definition finite_diff :: "DiffType \<Rightarrow> real \<Rightarrow> real \<Rightarrow> (real \<Rightarrow> real) \<Rightarrow> real" where
  "finite_diff eDiffType x h f =
     (if eDiffType = Forward then calcForwardFiniteDiff x f h
      else if eDiffType = Central then calcCentralFiniteDiff x f h
      else calcBackwardFiniteDiff x f h)"

lemmas finite_diff_defs = finite_diff_def calcForwardFiniteDiff_def calcCentralFiniteDiff_def calcBackwardFiniteDiff_def

lemma forward_limit:
  "(f has_real_derivative D) (at x) \<Longrightarrow> ((\<lambda>h. (f (x + h) - f x) / h) \<longlongrightarrow> D) (at 0)"
  by (simp add: DERIV_def)

lemma backward_limit:
  assumes "(f has_real_derivative D) (at x)"
  shows "((\<lambda>h. (f x - f (x - h)) / h) \<longlongrightarrow> D) (at 0)"
proof -
  have "filterlim (\<lambda>h :: real. - h) (at 0) (at 0)"
    by (auto simp: filterlim_at eventually_at_filter intro!: tendsto_eq_intros)
  from filterlim_compose [OF forward_limit [OF assms] this]
  have "((\<lambda>h. (f (x + - h) - f x) / - h) \<longlongrightarrow> D) (at 0)" .
  moreover have "(f (x + - h) - f x) / - h = (f x - f (x - h)) / h" for h
    by (simp add: divide_simps)
  ultimately show ?thesis by simp
qed

lemma finite_diff_limit_lemma:
  assumes "(f has_real_derivative D) (at x)"
  shows "((\<lambda>h. finite_diff t x h f) \<longlongrightarrow> D) (at 0)"
proof (cases t)
  case Central
  have "((\<lambda>h. ((f (x + h) - f x) / h + (f x - f (x - h)) / h) / 2) \<longlongrightarrow> (D + D) / 2) (at 0)"
    by (intro tendsto_intros forward_limit backward_limit assms) simp
  moreover have "((f (x + h) - f x) / h + (f x - f (x - h)) / h) / 2 = (f (x + h) - f (x - h)) / (2 * h)" for h
    by (simp add: divide_simps)
  ultimately show ?thesis by (simp add: Central finite_diff_defs)
qed (simp_all add: finite_diff_defs forward_limit [OF assms] backward_limit [OF assms])

text \<open>On an affine function every difference quotient is the slope.\<close>

lemma finite_diff_affine: "h \<noteq> 0 \<Longrightarrow> finite_diff t x h (\<lambda>x. a * x + b) = a"
  by (cases t) (simp_all add: finite_diff_defs field_simps)

section \<open>Matrix (Matrix.hpp)\<close>

text \<open>A negative number of columns is no vector size.\<close>

definition SimpleMatrix :: "int \<Rightarrow> int \<Rightarrow> 'a \<Rightarrow> 'a list list res" where
  "SimpleMatrix rows cols val =
     (if cols < 0 then Inl Trap else Inr (replicate (nat rows) (replicate (nat cols) val)))"

definition mat_in :: "'a list list \<Rightarrow> int \<Rightarrow> int \<Rightarrow> bool" where
  "mat_in m row col \<longleftrightarrow> 0 \<le> row \<and> row < int (length m) \<and> 0 \<le> col \<and> col < int (length (m ! nat row))"

definition mat_value :: "'a list list \<Rightarrow> int \<Rightarrow> int \<Rightarrow> 'a res" where
  "mat_value m row col = (if mat_in m row col then Inr (m ! nat row ! nat col) else Inl OutOfBounds)"

text \<open>An assignment through the reference that \<^verbatim>\<open>value\<close> returns.\<close>

definition mat_assign :: "'a list list \<Rightarrow> int \<Rightarrow> int \<Rightarrow> 'a \<Rightarrow> 'a list list res" where
  "mat_assign m row col x =
     (if mat_in m row col then Inr (m[nat row := (m ! nat row)[nat col := x]]) else Inl OutOfBounds)"

lemma mat_in_update: "mat_in m i j \<Longrightarrow> mat_in (m[nat i := (m ! nat i)[nat j := x]]) k l \<longleftrightarrow> mat_in m k l"
  by (cases "nat k = nat i") (auto simp: mat_in_def)

lemma mat_value_assign:
  assumes "mat_in m i j"
  shows "\<exists>m'. mat_assign m i j x = Inr m' \<and> mat_value m' k l = (if k = i \<and> l = j then Inr x else mat_value m k l)"
proof -
  let ?m = "m[nat i := (m ! nat i)[nat j := x]]"
  have "?m ! nat k ! nat l = (if k = i \<and> l = j then x else m ! nat k ! nat l)" if "mat_in m k l"
    using assms that by (auto simp: mat_in_def nth_list_update eq_nat_nat_iff)
  with assms show ?thesis by (auto simp: mat_assign_def mat_value_def mat_in_update)
qed

section \<open>Properties\<close>

text \<open>
  Automatic differentiation is right for programs without division: evaluating one on dual
  numbers gives its value and its derivative. A quotient of two such programs gets the right
  derivative, but its value is their product, which is right only when the numerator is zero or
  the denominator is \<open>1\<close> or \<open>- 1\<close>.\<close>

theorem autodiff_exact:
  "(division_free e \<longrightarrow> dual_val (eval_dual e x) = eval_real e x \<and>
     (eval_real e has_real_derivative dual_d (eval_dual e x)) (at x)) \<and>
   (division_free a \<and> division_free b \<and> eval_real b x \<noteq> 0 \<longrightarrow>
     (eval_real (Divide a b) has_real_derivative dual_d (eval_dual (Divide a b) x)) (at x) \<and>
     (dual_val (eval_dual (Divide a b) x) = eval_real (Divide a b) x \<longleftrightarrow>
        eval_real a x = 0 \<or> eval_real b x = 1 \<or> eval_real b x = - 1))"
proof (intro conjI impI; (elim conjE)?)
  show "dual_val (eval_dual e x) = eval_real e x" "(eval_real e has_real_derivative dual_d (eval_dual e x)) (at x)"
    if "division_free e" using division_free_differentiates [OF that] by (simp_all add: differentiates_def)
next
  assume "division_free a" "division_free b" and b: "eval_real b x \<noteq> 0"
  then have d: "differentiates a x" "differentiates b x" by (simp_all add: division_free_differentiates)
  from d b show "(eval_real (Divide a b) has_real_derivative dual_d (eval_dual (Divide a b) x)) (at x)"
    by (auto simp: differentiates_def dual_ops eval_real_fun(6) intro!: derivative_eq_intros)
  have "A * B = A / B \<longleftrightarrow> A = 0 \<or> B = 1 \<or> B = - 1" if "B \<noteq> 0" for A B :: real
    using that square_eq_1_iff [of B] by (auto simp: field_simps)
  with d b show "dual_val (eval_dual (Divide a b) x) = eval_real (Divide a b) x \<longleftrightarrow>
      eval_real a x = 0 \<or> eval_real b x = 1 \<or> eval_real b x = - 1"
    by (simp add: differentiates_def dual_ops)
qed

theorem autodiff_exact_witness:
  "(eval_real (Times Var Var) has_real_derivative 6) (at 3) \<and>
   dual_val (eval_dual (Divide Var (Const 2)) 6) \<noteq> eval_real (Divide Var (Const 2)) 6"
  using autodiff_exact [of "Times Var Var" 3 Var "Const 2"] autodiff_exact [of Var 6 Var "Const 2"]
  by (simp add: dual_times_def)

text \<open>
  Each of the three difference quotients tends to the derivative as the width goes to zero,
  and all are the slope of an affine function at every width.\<close>

theorem finite_diff_converges:
  assumes "(f has_real_derivative D) (at x)"
  shows "((\<lambda>h. finite_diff t x h f) \<longlongrightarrow> D) (at 0) \<and> (h \<noteq> 0 \<longrightarrow> finite_diff t x h (\<lambda>x. a * x + b) = a)"
  using finite_diff_limit_lemma [OF assms] finite_diff_affine by blast

theorem finite_diff_converges_witness:
  "((\<lambda>h. finite_diff Central 3 h (\<lambda>x. x * x)) \<longlongrightarrow> 6) (at 0) \<and> finite_diff Backward 5 2 (\<lambda>x. 7 * x + 1) = 7"
proof -
  have "((\<lambda>x :: real. x * x) has_real_derivative 6) (at 3)" by (auto intro!: derivative_eq_intros)
  from finite_diff_converges [OF this, of Central] finite_diff_converges [OF this, of Backward 2 7 1] show ?thesis
    by (simp add: finite_diff_affine)
qed

text \<open>
  Matrix cells. A new matrix holds its initial value in every cell, an assignment changes
  its cell and no other, and an access outside the matrix is undefined.\<close>

theorem matrix_cells:
  assumes "SimpleMatrix rows cols v = Inr m"
  shows "(mat_in m i j \<longleftrightarrow> 0 \<le> i \<and> i < rows \<and> 0 \<le> j \<and> j < cols) \<and> (mat_in m i j \<longrightarrow> mat_value m i j = Inr v) \<and>
    (mat_in m i j \<longrightarrow> (\<exists>m'. mat_assign m i j x = Inr m' \<and> mat_value m' k l = (if k = i \<and> l = j then Inr x else mat_value m k l))) \<and>
    (\<not> mat_in m i j \<longrightarrow> mat_value m i j = Inl OutOfBounds \<and> mat_assign m i j x = Inl OutOfBounds)"
proof -
  from assms have m: "m = replicate (nat rows) (replicate (nat cols) v)" by (simp add: SimpleMatrix_def split: if_splits)
  have "mat_in m i j \<longleftrightarrow> 0 \<le> i \<and> i < rows \<and> 0 \<le> j \<and> j < cols" by (auto simp: m mat_in_def split: if_splits)
  moreover from this have "mat_in m i j \<longrightarrow> mat_value m i j = Inr v" by (auto simp: mat_value_def) (simp add: m)
  moreover have "mat_in m i j \<longrightarrow>
      (\<exists>m'. mat_assign m i j x = Inr m' \<and> mat_value m' k l = (if k = i \<and> l = j then Inr x else mat_value m k l))"
    by (intro impI mat_value_assign)
  moreover have "\<not> mat_in m i j \<longrightarrow> mat_value m i j = Inl OutOfBounds \<and> mat_assign m i j x = Inl OutOfBounds"
    by (simp add: mat_value_def mat_assign_def)
  ultimately show ?thesis by blast
qed

end
