(* ===== verification/Timing.thy ===== *)
theory Timing
  imports Fiah_Prelude Complex_Main
begin

text \<open>
  Time stamps and timers: \<^verbatim>\<open>TimeStamp.hh\<close>, \<^verbatim>\<open>Timer.hh\<close> and \<^verbatim>\<open>TSCTimer.hh\<close> under
  \<^verbatim>\<open>include/fiah/utils\<close>. A clock is a parameter, the number of nanoseconds it shows at an
  instant; a tick count is an integer that the machine's 64 bits are taken to hold. A floating
  point number is a real number: conversions are exact here.
\<close>

section \<open>Durations\<close>

datatype Resolution = Seconds | Milli | Micro | Nano

text \<open>Nanoseconds in a tick of the duration that belongs to a resolution.\<close>

fun period_ns :: "Resolution \<Rightarrow> int" where
  "period_ns Seconds = 1000000000"
| "period_ns Milli = 1000000"
| "period_ns Micro = 1000"
| "period_ns Nano = 1"

text \<open>\<^verbatim>\<open>std::chrono::duration_cast\<close> truncates toward zero.\<close>

definition duration_cast :: "Resolution \<Rightarrow> int \<Rightarrow> int" where
  "duration_cast R ns = (if ns \<ge> 0 then ns div period_ns R else - ((- ns) div period_ns R))"

section \<open>TimeStamp\<close>

datatype time_stamp = Ticks (m_ticks: int)

definition update_now :: "Resolution \<Rightarrow> int \<Rightarrow> time_stamp \<Rightarrow> time_stamp" where
  "update_now R now ts = Ticks (duration_cast R now)"

definition TimeStamp :: "Resolution \<Rightarrow> int \<Rightarrow> time_stamp" where
  "TimeStamp R now = update_now R now (Ticks 0)"

definition TimeStamp_ticks :: "int \<Rightarrow> time_stamp" where
  "TimeStamp_ticks ticks = Ticks ticks"

definition get_ticks :: "time_stamp \<Rightarrow> int" where
  "get_ticks ts = m_ticks ts"

text \<open>The duration is given in nanoseconds.\<close>

definition increment :: "Resolution \<Rightarrow> time_stamp \<Rightarrow> int \<Rightarrow> time_stamp" where
  "increment R ts dur = Ticks (m_ticks ts + duration_cast R dur)"

definition to_micro :: "Resolution \<Rightarrow> int \<Rightarrow> real" where
  "to_micro R v = of_int v * (of_int (period_ns R) / of_int (period_ns Micro))"

text \<open>The defaulted \<^verbatim>\<open>operator<=>\<close> compares the ticks; it makes the stamps a linear order.\<close>

definition ts_less_eq :: "time_stamp \<Rightarrow> time_stamp \<Rightarrow> bool" where
  "ts_less_eq a b \<longleftrightarrow> m_ticks a \<le> m_ticks b"

instantiation time_stamp :: linorder
begin

definition less_eq_time_stamp :: "time_stamp \<Rightarrow> time_stamp \<Rightarrow> bool" where
  "a \<le> b \<longleftrightarrow> ts_less_eq a b"

definition less_time_stamp :: "time_stamp \<Rightarrow> time_stamp \<Rightarrow> bool" where
  "a < b \<longleftrightarrow> m_ticks a < m_ticks b"

instance
  by standard (auto simp: less_eq_time_stamp_def less_time_stamp_def ts_less_eq_def intro: time_stamp.expand)

end

section \<open>Timer\<close>

record timer = m_startTimePoint :: int

definition Timer :: "int \<Rightarrow> timer" where
  "Timer now = \<lparr>m_startTimePoint = now\<rparr>"

definition startTime :: "timer \<Rightarrow> int" where
  "startTime t = m_startTimePoint t"

definition timer_reset :: "int \<Rightarrow> timer \<Rightarrow> timer" where
  "timer_reset now t = t\<lparr>m_startTimePoint := now\<rparr>"

definition elapsed :: "int \<Rightarrow> timer \<Rightarrow> int" where
  "elapsed now t = now - m_startTimePoint t"

definition elapsedAs :: "Resolution \<Rightarrow> int \<Rightarrow> timer \<Rightarrow> int" where
  "elapsedAs R now t = duration_cast R (elapsed now t)"

definition elapsedNs :: "int \<Rightarrow> timer \<Rightarrow> int" where
  "elapsedNs now t = elapsedAs Nano now t"

definition elapsedUs :: "int \<Rightarrow> timer \<Rightarrow> int" where
  "elapsedUs now t = elapsedAs Micro now t"

definition elapsedMs :: "int \<Rightarrow> timer \<Rightarrow> int" where
  "elapsedMs now t = elapsedAs Milli now t"

definition elapsedSecs :: "int \<Rightarrow> timer \<Rightarrow> real" where
  "elapsedSecs now t = of_int (elapsed now t) / 10 ^ 9"

section \<open>TSCTimer\<close>

text \<open>The counter of the processor is a parameter.\<close>

record tsc_timer = m_dbCyclesToMicros :: real

definition TSCTimer :: "real \<Rightarrow> tsc_timer" where
  "TSCTimer dbTSCHz = \<lparr>m_dbCyclesToMicros = 1000000 / dbTSCHz\<rparr>"

definition cyclesToMicros :: "tsc_timer \<Rightarrow> u64_t \<Rightarrow> real" where
  "cyclesToMicros t cycles = real (unat cycles) * m_dbCyclesToMicros t"

section \<open>Lemmas\<close>

lemma period_pos: "0 < period_ns R"
  by (cases R) simp_all

lemma duration_cast_mono: "a \<le> b \<Longrightarrow> duration_cast R a \<le> duration_cast R b"
proof -
  assume ab: "a \<le> b"
  have neg: "0 \<le> (- a) div period_ns R" if "a < 0" using that period_pos [of R] by (intro pos_imp_zdiv_nonneg_iff [THEN iffD2]) simp_all
  have pos: "0 \<le> b div period_ns R" if "b \<ge> 0" using that period_pos [of R] by (intro pos_imp_zdiv_nonneg_iff [THEN iffD2]) simp_all
  show ?thesis
  proof (cases "a \<ge> 0")
    case True
    with ab show ?thesis using zdiv_mono1 [OF ab period_pos] by (simp add: duration_cast_def)
  next
    case False
    with ab neg pos zdiv_mono1 [OF _ period_pos, of "- b" "- a" R] show ?thesis
      by (cases "b \<ge> 0") (auto simp: duration_cast_def)
  qed
qed

lemma duration_cast_bounds:
  "0 \<le> ns \<Longrightarrow> duration_cast R ns * period_ns R \<le> ns \<and> ns < (duration_cast R ns + 1) * period_ns R"
proof -
  assume ns: "0 \<le> ns"
  have "ns div period_ns R * period_ns R + ns mod period_ns R = ns" by (rule div_mult_mod_eq)
  moreover have "0 \<le> ns mod period_ns R" "ns mod period_ns R < period_ns R" using period_pos [of R] by simp_all
  ultimately have "ns div period_ns R * period_ns R \<le> ns" "ns < ns div period_ns R * period_ns R + period_ns R"
    by linarith+
  with ns show ?thesis by (simp add: duration_cast_def distrib_right)
qed

text \<open>
  The conversions agree: the microseconds of a counter that runs at \<open>hz\<close> for \<open>n\<close> cycles are the
  ones a stamp in nanoseconds gives for the same time, and a timer's seconds are its nanoseconds.
\<close>

lemma conversions_agree:
  assumes "0 < hz" and "of_int ns * hz = real (unat cycles) * 10 ^ 9"
  shows "cyclesToMicros (TSCTimer hz) cycles = to_micro Nano ns" and "to_micro Micro v = of_int v"
    and "elapsedSecs now t * 10 ^ 9 = of_int (elapsedNs now t)"
proof -
  show "cyclesToMicros (TSCTimer hz) cycles = to_micro Nano ns"
    using assms by (simp add: cyclesToMicros_def TSCTimer_def to_micro_def field_simps)
qed (simp_all add: to_micro_def elapsedSecs_def elapsedNs_def elapsedAs_def duration_cast_def)

section \<open>Properties\<close>

text \<open>
  Readings of a timer. The milliseconds, microseconds and nanoseconds that have passed are
  the same time rounded down; they do not decrease while the clock does not; and resetting
  splits the time without loss in nanoseconds, and with less than one unit of loss in the
  coarser units.\<close>

theorem timer_readings:
  assumes "start \<le> now" and "now \<le> later"
  shows "elapsedUs now (Timer start) = elapsedNs now (Timer start) div 1000 \<and>
    elapsedMs now (Timer start) = elapsedUs now (Timer start) div 1000 \<and>
    elapsedMs now (Timer start) \<le> elapsedMs later (Timer start) \<and>
    elapsedNs later (Timer start) = elapsedNs now (Timer start) + elapsedNs later (timer_reset now (Timer start)) \<and>
    elapsedMs later (Timer start) - (elapsedMs now (Timer start) + elapsedMs later (timer_reset now (Timer start))) \<in> {0, 1}"
proof -
  let ?a = "now - start" and ?b = "later - now"
  have pos: "0 \<le> ?a" "0 \<le> ?b" using assms by simp_all
  have "(?a + ?b) div 1000000 - (?a div 1000000 + ?b div 1000000) \<in> {0, 1}" by auto
  moreover have "?a div 1000 div 1000 = ?a div 1000000" by (simp add: zdiv_zmult2_eq [symmetric])
  moreover have "?a div 1000000 \<le> (later - start) div 1000000" using assms by (intro zdiv_mono1) simp_all
  ultimately show ?thesis
    using pos assms by (simp add: elapsedUs_def elapsedMs_def elapsedNs_def elapsedAs_def elapsed_def Timer_def timer_reset_def
        duration_cast_def)
qed

theorem timer_readings_witness:
  "elapsedMs 5200000 (Timer 1300000) = 3 \<and>
   elapsedMs 5200000 (Timer 1300000) \<le> elapsedMs 9000000 (Timer 1300000)"
  using timer_readings [of 1300000 5200000 9000000]
  by (simp add: elapsedMs_def elapsedUs_def elapsedNs_def elapsedAs_def elapsed_def Timer_def duration_cast_def)

text \<open>
  Time stamps. Stamps taken one after the other are in order, each is the instant it was taken
  at, rounded down to a tick, and incrementing by a duration shorter than a tick never moves a
  stamp, however often it is repeated.\<close>

theorem time_stamp_order:
  "(sorted instants \<longrightarrow> sorted (map (TimeStamp R) instants)) \<and>
   (0 \<le> now \<longrightarrow> get_ticks (TimeStamp R now) * period_ns R \<le> now \<and> now < (get_ticks (TimeStamp R now) + 1) * period_ns R) \<and>
   (0 \<le> dur \<and> dur < period_ns R \<longrightarrow> ((\<lambda>ts. increment R ts dur) ^^ n) ts = ts)"
proof (intro conjI impI; (elim conjE)?)
  have "TimeStamp R a \<le> TimeStamp R b" if "a \<le> b" for a b
    using duration_cast_mono [OF that] by (simp add: less_eq_time_stamp_def ts_less_eq_def TimeStamp_def update_now_def)
  then show "sorted (map (TimeStamp R) instants)" if "sorted instants"
    using that by (auto simp: sorted_map intro: sorted_wrt_mono_rel)
  show "get_ticks (TimeStamp R now) * period_ns R \<le> now" "now < (get_ticks (TimeStamp R now) + 1) * period_ns R" if "0 \<le> now"
    using duration_cast_bounds [OF that] by (simp_all add: get_ticks_def TimeStamp_def update_now_def)
  show "((\<lambda>ts. increment R ts dur) ^^ n) ts = ts" if "0 \<le> dur" "dur < period_ns R"
    using that by (induction n) (simp_all add: increment_def duration_cast_def div_pos_pos_trivial)
qed

end
