(* ===== verification/Xor_Bitant.thy ===== *)
theory Xor_Bitant
  imports Fiah_Prelude
begin

text \<open>
  The pseudo-random generator of \<^verbatim>\<open>include/fiah/utils/XorBitant.hh\<close>: a 64-bit state, a step of
  three shift-and-xor assignments, and an output that multiplies the state and keeps the low
  32 bits.
\<close>

section \<open>Generator\<close>


definition MAGIC_SEED :: u64_t where
  "MAGIC_SEED = 0xDEADBEEFBABECAFE"



definition xb_min :: u32_t where
  "xb_min = 0"

definition xb_max :: u32_t where
  "xb_max = - 1"




section \<open>The step is invertible\<close>














section \<open>Properties\<close>


end
