(* ===== verification/Spec2Isabelle.thy ===== *)
theory Spec2Isabelle
  imports Queue_Example MPSC_Pair Order_Print Mem_Routines Bump_Memory Vector_Program Shared_Ptr_Threads Shared_Nested Shared_Heap Unique_Heap Any_Program
    Toml_Double Spin_Mutex TS_Queue Pool_Futures SPSC_Logger Socket_IO Tag_Logger Cassandra_Client Numeric Timing Xor_Bitant
begin

text \<open>
  \<^bold>\<open>FastInAHurry: a verification library.\<close>

  The repository is a header library of low-latency building blocks in C++ under
  \<^verbatim>\<open>src/include/fiah\<close>: lock-free and locking queues, an order book, a vector and smart handles that
  manage raw memory, bump allocation, byte routines, a thread pool and a spin lock, loggers, a
  configuration reader, sockets, a database client, timers, a random generator and small
  numerical headers. Each part has a theory of its own; this theory collects them and holds
  what spans several parts: that the lock-free queues can stand for each other, and that the time in
  a log line is the time of \<^verbatim>\<open>TimeStamp\<close> when the record was made.

  \<^bold>\<open>How code becomes definitions.\<close> A class is a record with its data members, an operation is a
  function on it that returns the new state, and an operation that can run into undefined
  behaviour, a failed assertion or an abort returns the sum type \<open>res\<close> of \<^verbatim>\<open>Fiah_Prelude\<close>, whose
  left values name the fault. Object lifetimes are explicit: a slot of storage is raw or holds
  a live object, and constructing over a live object, reading a raw slot or releasing a block
  with live objects is a fault. Machine integers keep their width where it matters: the
  64-bit counters of the queues and addresses of the arena are words that wrap; prices and
  quantities are integers whose signed subtraction faults outside 32 bits. Threads are step
  relations, one step for each atomic access or section under a mutex; \<open>reach\<close> collects the
  states of all interleavings, and the locale \<open>inductive_invariant\<close> is the interface through
  which each of them proves its invariant. \<open>terminating_system\<close> is the interface for shutdown
  and other parts of a system that must come to an end, \<open>helpful_system\<close>, which it extends, for
  those that can always come to one although their threads may spin, and \<open>bounded_calls\<close> for calls that end within a number of
  own steps whatever the other threads do.

  \<^bold>\<open>Theories, sources and results.\<close>

  \<^item> \<^verbatim>\<open>Fiah_Prelude\<close>: integer aliases (\<^verbatim>\<open>utils/Types.hh\<close>), faults, power-of-two ring indices,
    decimal printing, transition systems. \<^verbatim>\<open>Decimal\<close>: signed numbers, and that printing loses nothing.
  \<^item> \<^verbatim>\<open>Ring_Buffer\<close>: slots, the relation of a ring and the list it holds, and the locale
    \<open>bounded_fifo\<close> with the lemmas its clients use.
  \<^item> \<^verbatim>\<open>SPSC_Queue\<close> (\<^verbatim>\<open>structs/SPSCQueue.hh\<close>): every member function; refinement of a bounded FIFO;
    then producer and consumer interleaved, with stale acquire loads: deliveries are a prefix of
    publications, slots are never shared, and in every run a call ends after at most three (push) or
    four (pop) steps of its own. \<^verbatim>\<open>Queue_Example\<close> (\<^verbatim>\<open>examples/spsc_queue_example.cc\<close>): its
    two loops deliver all numbers in order and can always finish.
  \<^item> \<^verbatim>\<open>MPSC_Queue\<close> (\<^verbatim>\<open>structs/MPSCQueue.hh\<close>): \<^verbatim>\<open>try_push\<close> with its compare-exchange loop, \<^verbatim>\<open>try_pop\<close>, and any
    number of producers with one consumer: ticket order, exclusive slots, and the refusal of
    a push on an empty queue when the counter difference wraps. \<^verbatim>\<open>MPSC_Progress\<close>: every call can end by
    itself and every claimed element can be delivered. \<^verbatim>\<open>MPSC_Bench\<close> (\<^verbatim>\<open>benchmarks/MPSCQueue_bench.cc\<close>): four producers that
    repeat refused calls and a consumer that counts can always finish, and then every number has arrived as
    often as it was inserted; one thread alone fills the queue. \<^verbatim>\<open>MPSC_Pair\<close>: the benchmarks of one producer and one consumer can
    finish too, and no insertion is refused.
  \<^item> \<^verbatim>\<open>Data_Layout\<close> (the members of both queues and of the logger's record): sizes, alignments and offsets; no two
    counters share a cache line, slots are aligned and disjoint, the static assertions hold.
  \<^item> \<^verbatim>\<open>Order_Book\<close> (\<^verbatim>\<open>structs/Orderbook.hh\<close>): the two sorted sides, binary search, matching and
    cancellation refine price-time priority over the list of resting orders. \<^verbatim>\<open>Order_Print\<close>: what an
    order prints identifies it.
  \<^item> \<^verbatim>\<open>Mem_Routines\<close> (\<^verbatim>\<open>memory/Memcpy.cc\<close>, \<^verbatim>\<open>Memmove.cc\<close>, \<^verbatim>\<open>Strcpy.cc\<close>): the unrolled and
    direction-dependent loops equal the reference copy.
  \<^item> \<^verbatim>\<open>Bump_Memory\<close> (\<^verbatim>\<open>memory/BumpArena.hh\<close>, \<^verbatim>\<open>BumpAllocator.hh\<close>): blocks are aligned, in bounds and
    disjoint, through the locale \<open>bump_source\<close>; null is returned exactly when nothing fits.
  \<^item> \<^verbatim>\<open>Raw_Heap\<close> and \<^verbatim>\<open>Fiah_Vector\<close> (\<^verbatim>\<open>structs/Vector.hh\<close>): growth, copying and destruction on raw
    storage refine a list (locale \<open>sequence_container\<close>); exact descriptions of \<^verbatim>\<open>resize\<close>, copy
    construction and copy assignment, where the code is right only in part of the cases. \<^verbatim>\<open>Vector_Program\<close>: programs with
    several vectors on one heap, with moves, copies and loops from \<^verbatim>\<open>begin()\<close> to \<^verbatim>\<open>end()\<close>, refine the same program on lists as long as every
    call is safe; which calls are, and with what fault the others end, is part of the theorem.
  \<^item> \<^verbatim>\<open>Shared_Ptr\<close>, \<^verbatim>\<open>Unique_Ptr\<close>, \<^verbatim>\<open>Any_Box\<close> (\<^verbatim>\<open>handle\<close>): each object is deleted once, by its own
    deleter, when the last owner goes; counts are exact; \<^verbatim>\<open>any_cast\<close> returns what was stored, for alignments up to 16 (the class is
    modelled as its names are meant; as written it does not compile).
    \<^verbatim>\<open>Shared_Ptr_Threads\<close> runs \<^verbatim>\<open>add_ref\<close> and \<^verbatim>\<open>release\<close> of one control block in several threads. \<^verbatim>\<open>Handle_Heap\<close> runs
    programs of handles on the heap of \<^verbatim>\<open>Raw_Heap\<close> for any deleter that keeps the laws of its locale \<open>handle_heap\<close>, and \<^verbatim>\<open>Unique_Heap\<close> and
    \<^verbatim>\<open>Shared_Heap\<close> interpret it on the two handles with their \<^verbatim>\<open>default_deleter\<close>: the blocks are exactly the
    objects somebody owns. \<^verbatim>\<open>Shared_Nested\<close>: handles inside the objects they manage, where a release sets off further ones; a
    list of any length is destroyed, and an assignment from a handle inside the released object reads a destroyed one. \<^verbatim>\<open>Any_Program\<close> is the program at the end of \<^verbatim>\<open>Any.cc\<close>.
  \<^item> \<^verbatim>\<open>Spin_Mutex\<close>, \<^verbatim>\<open>Thread_Pool\<close> (\<^verbatim>\<open>thread\<close>) and \<^verbatim>\<open>TS_Queue\<close> (\<^verbatim>\<open>structs/ThreadSafeQueue.hh\<close>): mutual
    exclusion and progress, no lost wake-up, tasks in order and never stranded; what \<^verbatim>\<open>try_lock\<close> and the pool's
    destructor do wrong: the workers are joined after the flag, the semaphore and the mutex are destroyed, and it is shown for which
    states of the workers the destructor returns and for which every run ends with a use of a destroyed member. \<^verbatim>\<open>Pool_Futures\<close>: what the futures of
    \<^verbatim>\<open>enqueue\<close> hold while the pool runs and after it is gone.
  \<^item> \<^verbatim>\<open>Toml_Parser\<close> (\<^verbatim>\<open>utils/TomlParser.hh\<close>, \<^verbatim>\<open>io/Config.hh\<close>): a configuration written in the form \<open>[section]\<close>, \<open>key = "value"\<close> is
    read back, except that values are cut at a hash sign and an opening bracket makes a line a header; ports modulo \<open>2 ^ 16\<close>. \<^verbatim>\<open>Toml_Double\<close>: \<^verbatim>\<open>get_double\<close> reads the number that is written.
  \<^item> \<^verbatim>\<open>SPSC_Logger\<close> (\<^verbatim>\<open>utils/SPSCLogger.hh\<close>), a client of \<open>bounded_fifo\<close> on the SPSC queue: messages of a thread
    arrive in order, whatever pops and logging calls interleave, and the destructor returns with
    the last snapshot written; what is lost at shutdown, and when a line overruns its buffer. \<^verbatim>\<open>Tag_Logger\<close> (\<^verbatim>\<open>utils/Logger.hh\<close>, \<^verbatim>\<open>SimpleLogger.hh\<close>): lines of one
    instance are whole.
  \<^item> \<^verbatim>\<open>Socket_IO\<close> (\<^verbatim>\<open>io/Socket.hh\<close>, \<^verbatim>\<open>Tcp.hh\<close>, \<^verbatim>\<open>TcpServer.hh\<close>, \<^verbatim>\<open>TcpClient.hh\<close>, \<^verbatim>\<open>Udp.hh\<close>): descriptors have one
    owner and are closed once, also through moves; results of start and connect for every answer
    of the system; what a moved-from server still claims.
    \<^verbatim>\<open>Cassandra_Client\<close> (\<^verbatim>\<open>io/Cassandra.hh\<close>): every driver object is freed once on every path.
  \<^item> \<^verbatim>\<open>Numeric\<close> (\<^verbatim>\<open>math\<close>), \<^verbatim>\<open>Timing\<close> (\<^verbatim>\<open>utils/Timer.hh\<close>, \<^verbatim>\<open>TimeStamp.hh\<close>, \<^verbatim>\<open>TSCTimer.hh\<close>), \<^verbatim>\<open>Xor_Bitant\<close>
    (\<^verbatim>\<open>utils/XorBitant.hh\<close>): derivatives by dual numbers, difference quotients,
    readings of timers, the cycle of the generator.

  \<^bold>\<open>Parameters.\<close> Code outside the repository enters as arguments: the deleters and the
  conversions of handles, the file system, the clock and the time zone, the system calls
  (\<open>kernel\<close>, assumed to return fresh descriptors), the Cassandra driver, the expansion of a
  format, the results of tasks, and the rounding and printing of floating point numbers. Each hypothesis about them is named and has an instance.

  \<^bold>\<open>Bounds and fuel.\<close> Loops are total functions with a measure, except: the compare-exchange
  loop of \<^verbatim>\<open>try_push\<close> consumes a list of spurious failures and a single thread succeeds after it;
  \<^verbatim>\<open>Strcpy\<close> is a partial function, shown to return on a terminated string; the logger's drain has
  fuel for one more round than the queue has slots, shown to be enough; a release of objects that own handles has fuel for its depth, and for
  a list one more than its length is shown to be enough. Counters are unbounded in the histories and 64-bit in the
  state; the only assumption on them is that a stale value is less than a full turn old.

  \<^bold>\<open>Not modelled.\<close> Weak memory beyond stale acquire loads (interleavings are sequentially
  consistent otherwise); failure of allocation; rounding of floating point numbers in the numerical
  headers and timers, which are reals; the bytes that sockets transfer. \<^verbatim>\<open>utils/LoggerImpl.hpp\<close> is a
  remnant that does not compile, \<^verbatim>\<open>utils/NOUSE_.cpp\<close> is a comment,
  \<^verbatim>\<open>math/NewtonRaphson.hpp\<close> calls a template without an argument that cannot be deduced and its loop depends on rounding and NaN, \<^verbatim>\<open>math/main.cc\<close> calls a function with
  arguments it does not take, and the tests only use the library.
\<close>

section \<open>The lock-free queues are interchangeable\<close>

lemma mpsc_pow2: "is_pow2 cap k \<Longrightarrow> \<exists>q. queue_run (mpsc_push_alone cap n) (mpsc_try_pop cap) (mpsc_new cap) ps =
    Inr (fst (fifo_run (unat cap) [] ps), q) \<and> mpsc_inv cap q \<and> mpsc_contents cap q = snd (fifo_run (unat cap) [] ps)"
  using mpsc.run_refines [OF mpsc_inv_new] by force

lemma spsc_pow2: "is_pow2 cap k \<Longrightarrow> \<exists>q. queue_run (spsc_push cap) (spsc_pop cap) (spsc_new cap) ps =
    Inr (fst (fifo_run (unat cap) [] ps), q) \<and> spsc_inv cap q \<and> spsc_contents cap q = snd (fifo_run (unat cap) [] ps)"
  using spsc.run_refines [OF spsc_inv_new] by force

text \<open>
  C12. One queue can stand for the other. With the same power-of-two capacity, the
  single-producer queue and the multi-producer queue give the same answers to every sequence of
  calls from one thread, whatever number of compare-exchanges fails spuriously, and a consumer
  that pops until it is told the queue is empty gets the same elements from both and returns.\<close>

theorem lockfree_queues_agree:
  assumes "is_pow2 cap k"
  shows "\<exists>rs q q'. queue_run (spsc_push cap) (spsc_pop cap) (spsc_new cap) ps = Inr (rs, q) \<and>
      queue_run (mpsc_push_alone cap n) (mpsc_try_pop cap) (mpsc_new cap) ps = Inr (rs, q') \<and>
      (\<exists>xs r r'. pop_while (spsc_pop cap) (unat cap + 1) q = Inr (Some (xs, r)) \<and>
        pop_while (mpsc_try_pop cap) (unat cap + 1) q' = Inr (Some (xs, r')) \<and> xs = snd (fifo_run (unat cap) [] ps))"
proof -
  let ?xs = "snd (fifo_run (unat cap) [] ps)"
  obtain q where q: "queue_run (spsc_push cap) (spsc_pop cap) (spsc_new cap) ps = Inr (fst (fifo_run (unat cap) [] ps), q)"
    "spsc_inv cap q" "spsc_contents cap q = ?xs" using spsc_pow2 [OF assms] by blast
  obtain q' where q': "queue_run (mpsc_push_alone cap n) (mpsc_try_pop cap) (mpsc_new cap) ps = Inr (fst (fifo_run (unat cap) [] ps), q')"
    "mpsc_inv cap q'" "mpsc_contents cap q' = ?xs" using mpsc_pow2 [OF assms] by blast
  have "length ?xs < unat cap + 1"
    using q(2,3) by (elim spsc_inv_rep) (auto dest: spsc_rep_bound)
  with spsc.pop_while_contents [OF q(2)] mpsc.pop_while_contents [OF q'(2)] q q' show ?thesis by fastforce
qed

theorem lockfree_queues_agree_witness:
  "\<exists>rs q q'. queue_run (spsc_push 4) (spsc_pop 4) (spsc_new 4) [Enq (1 :: nat), Enq 2, Deq] = Inr (rs, q) \<and>
     queue_run (mpsc_push_alone 4 2) (mpsc_try_pop 4) (mpsc_new 4) [Enq 1, Enq 2, Deq] = Inr (rs, q')"
  using lockfree_queues_agree [OF spsc_new_pow2_4, of "[Enq 1, Enq 2, Deq]" 2] by blast

section \<open>The time of a log line\<close>

text \<open>
  The logger stamps a record with the ticks of \<^verbatim>\<open>TimeStamp\<close> in nanoseconds, on the clock of the
  system, and prints the time from them.
\<close>

definition log_stamp :: "int \<Rightarrow> u64_t" where
  "log_stamp now = of_int (get_ticks (TimeStamp Nano now))"

lemma length_pad: "n < 10 ^ w \<Longrightarrow> 0 < w \<Longrightarrow> length (pad w n) = w"
  using length_show_nat [of n w] by (simp add: pad_def)

lemma log_stamp_parts:
  assumes "0 \<le> now" "now < 2 ^ 63"
  shows "unat (log_stamp now div 1000000000) = nat (now div 10 ^ 9)" "unat (log_stamp now mod 1000000000) = nat (now mod 10 ^ 9)"
proof -
  have "unat (log_stamp now) = nat now"
    using assms by (simp add: log_stamp_def TimeStamp_def update_now_def duration_cast_def get_ticks_def unsigned_of_int take_bit_eq_mod)
  then show "unat (log_stamp now div 1000000000) = nat (now div 10 ^ 9)" "unat (log_stamp now mod 1000000000) = nat (now mod 10 ^ 9)"
    using assms by (simp_all add: unat_div unat_mod nat_div_distrib nat_mod_distrib)
qed

text \<open>
  The line shows the instant of the call. For an instant the clock can represent and a time zone of at most
  four characters, the time in the line is the local time of the second in which the record
  was made, with the nine digits of its nanoseconds and the zone, not cut off.\<close>

theorem log_time_exact:
  assumes "0 \<le> now" and "now < 2 ^ 63" and "b = localtime (nat (now div 10 ^ 9))"
    and "tm_hour b < 100" and "tm_min b < 100" and "tm_sec b < 100" and "length (tm_zone b) \<le> 4"
  shows "time_part localtime (log_stamp now) =
    pad 2 (tm_hour b) @ '':'' @ pad 2 (tm_min b) @ '':'' @ pad 2 (tm_sec b) @ '' '' @ pad 9 (nat (now mod 10 ^ 9)) @ '' '' @ tm_zone b"
proof -
  have "nat (now mod 10 ^ 9) < 10 ^ 9" by (simp add: nat_less_iff)
  then have "length (pad 9 (nat (now mod 10 ^ 9))) = 9" by (rule length_pad) simp
  then show ?thesis
    using assms log_stamp_parts [OF assms(1,2)] length_pad [of "tm_hour b" 2] length_pad [of "tm_min b" 2] length_pad [of "tm_sec b" 2]
    by (simp add: time_part_def Let_def snprintf_def)
qed

lemma eight_zeros: "replicate 8 CHR ''0'' = ''00000000''"
  by (simp add: eval_nat_numeral)

theorem log_time_exact_witness:
  "time_part (\<lambda>_. \<lparr>tm_hour = 9, tm_min = 30, tm_sec = 0, tm_zone = ''UTC''\<rparr>) (log_stamp 5000000007) = ''09:30:00 000000007 UTC''"
  using log_time_exact [of 5000000007 "\<lparr>tm_hour = 9, tm_min = 30, tm_sec = 0, tm_zone = ''UTC''\<rparr>"
      "\<lambda>_. \<lparr>tm_hour = 9, tm_min = 30, tm_sec = 0, tm_zone = ''UTC''\<rparr>"]
  by (simp add: pad_def show_nat.simps char_of_def bit_0 bit_Suc eight_zeros)

end
